(* ===== verification/Xv6_Prelude.thy ===== *)
theory Xv6_Prelude
  imports Main "HOL-Library.Word"
begin

text \<open>
  Shared vocabulary of the development: the C integer types of \<^verbatim>\<open>kernel/types.h\<close>,
  the constants of \<^verbatim>\<open>kernel/param.h\<close>, \<^verbatim>\<open>kernel/riscv.h\<close>, \<^verbatim>\<open>kernel/memlayout.h\<close> and
  \<^verbatim>\<open>kernel/fs.h\<close>, the outcome of running kernel code, byte encodings of words,
  byte-addressed memory, and the list and word facts that several components use.

  Conventions: a C \<open>uint\<close> is a \<open>32 word\<close>, a \<open>uint64\<close> a \<open>64 word\<close>, a \<open>short\<close> a
  \<open>16 word\<close> read with \<^const>\<open>sint\<close> where the code compares it as signed, an \<open>int\<close> an
  \<^typ>\<open>int\<close> (its overflow is undefined in C).  Pointers into the kernel's static tables are
  indices of the table; pointers into physical memory are \<open>64 word\<close> addresses.
\<close>

unbundle bit_operations_syntax

named_theorems outcome_simps \<open>evaluation of the outcome combinators\<close>
named_theorems hoare_intros \<open>structural rules of the partial-correctness triples\<close>
named_theorems invariant_intros \<open>preservation of component invariants\<close>

section \<open>C types and constants\<close>

type_synonym uchar = "8 word"
type_synonym ushort = "16 word"
type_synonym uint = "32 word"
type_synonym uint64 = "64 word"
type_synonym bytes = "uchar list"

definition NPROC :: nat where [simp]: "NPROC = 64"
definition NCPU :: nat where [simp]: "NCPU = 8"
definition NOFILE :: nat where [simp]: "NOFILE = 16"
definition NFILE :: nat where [simp]: "NFILE = 100"
definition NINODE :: nat where [simp]: "NINODE = 50"
definition NDEV :: nat where [simp]: "NDEV = 10"
definition ROOTDEV :: uint where [simp]: "ROOTDEV = 1"
definition MAXARG :: nat where [simp]: "MAXARG = 32"
definition MAXOPBLOCKS :: nat where [simp]: "MAXOPBLOCKS = 10"
definition LOGSIZE :: nat where [simp]: "LOGSIZE = MAXOPBLOCKS * 3"
definition NBUF :: nat where [simp]: "NBUF = MAXOPBLOCKS * 3"
definition FSSIZE :: nat where [simp]: "FSSIZE = 2000"
definition MAXPATH :: nat where [simp]: "MAXPATH = 128"

definition PGSIZE :: uint64 where [simp]: "PGSIZE = 4096"
definition MAXVA :: uint64 where "MAXVA = push_bit (9 + 9 + 9 + 12 - 1) 1"
definition KERNBASE :: uint64 where [simp]: "KERNBASE = 0x80000000"
definition PHYSTOP :: uint64 where [simp]: "PHYSTOP = KERNBASE + 128 * 1024 * 1024"
definition TRAMPOLINE :: uint64 where "TRAMPOLINE = MAXVA - PGSIZE"
definition TRAPFRAME :: uint64 where "TRAPFRAME = TRAMPOLINE - PGSIZE"
definition KSTACK :: "nat \<Rightarrow> uint64" where
  "KSTACK p = TRAMPOLINE - (of_nat p + 1) * 2 * PGSIZE"

definition SSTATUS_SPP :: uint64 where "SSTATUS_SPP = push_bit 8 1"
definition SSTATUS_SPIE :: uint64 where "SSTATUS_SPIE = push_bit 5 1"
definition SSTATUS_SIE :: uint64 where "SSTATUS_SIE = push_bit 1 1"

definition BSIZE :: nat where [simp]: "BSIZE = 1024"
definition NDIRECT :: nat where [simp]: "NDIRECT = 12"
definition NINDIRECT :: nat where [simp]: "NINDIRECT = BSIZE div 4"
definition MAXFILE :: nat where [simp]: "MAXFILE = NDIRECT + NINDIRECT"
definition DIRSIZ :: nat where [simp]: "DIRSIZ = 14"
definition ROOTINO :: uint where [simp]: "ROOTINO = 1"

lemma MAXVA_eq: "MAXVA = 0x4000000000"
  by (simp add: MAXVA_def push_bit_eq_mult)

section \<open>Outcomes of kernel code\<close>

text \<open>
  Running a kernel function from a state either returns a value and a new state, panics with a
  message, gives up the CPU in \<open>sched()\<close> (the value names the process that switched out), or loops for ever.
\<close>

datatype ('c, 's, 'a) outcome =
    Ret 'a 's
  | Panic string
  | Swtch 'c 's
  | Spin

type_synonym ('c, 's, 'a) code = "'s \<Rightarrow> ('c, 's, 'a) outcome"

definition retK :: "'a \<Rightarrow> ('c, 's, 'a) code" where
  "retK x s = Ret x s"

primrec bindO :: "('c, 's, 'a) outcome \<Rightarrow> ('a \<Rightarrow> ('c, 's, 'b) code) \<Rightarrow> ('c, 's, 'b) outcome" where
  "bindO (Ret x t) f = f x t"
| "bindO (Panic e) f = Panic e"
| "bindO (Swtch c t) f = Swtch c t"
| "bindO Spin f = Spin"

definition bindK :: "('c, 's, 'a) code \<Rightarrow> ('a \<Rightarrow> ('c, 's, 'b) code) \<Rightarrow> ('c, 's, 'b) code" where
  "bindK m f s = bindO (m s) f"

definition thenK :: "('c, 's, 'a) code \<Rightarrow> ('c, 's, 'b) code \<Rightarrow> ('c, 's, 'b) code" where
  "thenK m n = bindK m (\<lambda>_. n)"

definition getK :: "('s \<Rightarrow> 'a) \<Rightarrow> ('c, 's, 'a) code" where
  "getK f s = Ret (f s) s"

definition modK :: "('s \<Rightarrow> 's) \<Rightarrow> ('c, 's, unit) code" where
  "modK f s = Ret () (f s)"

definition panicK :: "string \<Rightarrow> ('c, 's, 'a) code" where
  "panicK e s = Panic e"

text \<open>
  Where the C program reads or writes outside an array its behaviour is undefined; the model then
  ends in this outcome, so no claim that code returns can rest on such a run.
\<close>

definition undefK :: "('c, 's, 'a) code" where
  "undefK s = Panic ''undefined behaviour''"

definition whenK :: "bool \<Rightarrow> ('c, 's, unit) code \<Rightarrow> ('c, 's, unit) code" where
  "whenK b m = (if b then m else retK ())"

text \<open>A counted loop without exit: the body runs for every element of a list, in order.\<close>

fun forK :: "'i list \<Rightarrow> ('i \<Rightarrow> ('c, 's, unit) code) \<Rightarrow> ('c, 's, unit) code" where
  "forK [] body = retK ()"
| "forK (i # is) body = thenK (body i) (forK is body)"

lemma retK_apply [simp, outcome_simps]: "retK x s = Ret x s"
  by (simp add: retK_def)

lemma getK_apply [simp, outcome_simps]: "getK f s = Ret (f s) s"
  by (simp add: getK_def)

lemma modK_apply [simp, outcome_simps]: "modK f s = Ret () (f s)"
  by (simp add: modK_def)

lemma panicK_apply [simp, outcome_simps]: "panicK e s = Panic e"
  by (simp add: panicK_def)

lemma bindK_apply [simp, outcome_simps]: "bindK m f s = bindO (m s) f"
  by (simp add: bindK_def)

lemma thenK_apply [simp, outcome_simps]: "thenK m n s = bindO (m s) (\<lambda>_. n)"
  by (simp add: thenK_def)

text \<open>A continuation is simplified only when it is reached.\<close>

lemma bindO_cong [cong]: "x = y \<Longrightarrow> bindO x f = bindO y f"
  by simp

lemma bindK_cong [cong]: "s = t \<Longrightarrow> bindK m f s = bindK m f t"
  by simp

lemma thenK_cong [cong]: "s = t \<Longrightarrow> thenK m n s = thenK m n t"
  by simp

lemma bindK_Ret: "m s = Ret x t \<Longrightarrow> bindK m f s = f x t"
  by simp

lemma thenK_Ret: "m s = Ret x t \<Longrightarrow> thenK m n s = n t"
  by simp

lemma whenK_True [simp]: "whenK True m = m"
  by (simp add: whenK_def)

lemma whenK_False [simp]: "whenK False m = retK ()"
  by (simp add: whenK_def)

lemma whenK_apply: "whenK b m s = (if b then m s else Ret () s)"
  by (cases b) simp_all

lemma bindO_eq_Ret_iff: "bindO x f = Ret y u \<longleftrightarrow> (\<exists>v t. x = Ret v t \<and> f v t = Ret y u)"
  by (cases x) simp_all

lemma bindK_eq_Ret_iff:
  "bindK m f s = Ret y u \<longleftrightarrow> (\<exists>x t. m s = Ret x t \<and> f x t = Ret y u)"
  by (simp add: bindO_eq_Ret_iff)

lemma thenK_eq_Ret_iff:
  "thenK m n s = Ret y u \<longleftrightarrow> (\<exists>x t. m s = Ret x t \<and> n t = Ret y u)"
  by (simp add: bindO_eq_Ret_iff)

lemma bindK_assoc: "bindK (bindK m f) g = bindK m (\<lambda>x. bindK (f x) g)"
proof
  fix s show "bindK (bindK m f) g s = bindK m (\<lambda>x. bindK (f x) g) s"
    by (cases "m s") simp_all
qed

lemma forK_append: "forK (xs @ ys) body = thenK (forK xs body) (forK ys body)"
proof (induction xs)
  case Nil
  show ?case by (rule ext) simp
next
  case (Cons x xs)
  then show ?case by (simp only: forK.simps append_Cons thenK_def bindK_assoc)
qed

text \<open>A loop whose body always returns is a fold; an invariant may be needed for it to return.\<close>

lemma forK_fold:
  "P s \<Longrightarrow> (\<And>i s. i \<in> set is \<Longrightarrow> P s \<Longrightarrow> body i s = Ret () (f i s) \<and> P (f i s)) \<Longrightarrow>
   forK is body s = Ret () (fold f is s)"
  by (induction "is" arbitrary: s) simp_all

lemma fold_update_nth:
  "n \<le> length xs \<Longrightarrow> fold (\<lambda>i xs. xs[i := g i (xs ! i)]) [0..<n] xs =
     map (\<lambda>i. g i (xs ! i)) [0..<n] @ drop n xs"
proof (induction n)
  case (Suc n)
  let ?ys = "map (\<lambda>i. g i (xs ! i)) [0..<n]"
  have "(?ys @ drop n xs)[n := g n ((?ys @ drop n xs) ! n)] = ?ys @ (drop n xs)[0 := g n (xs ! n)]"
    using Suc.prems by (simp add: nth_append list_update_append)
  also have "(drop n xs)[0 := g n (xs ! n)] = g n (xs ! n) # drop (Suc n) xs"
    using Suc.prems by (simp add: Cons_nth_drop_Suc[symmetric])
  finally show ?case using Suc by simp
qed simp

subsection \<open>Partial-correctness triples\<close>

text \<open>
  \<open>hoare P m Q\<close>: started in a state satisfying \<open>P\<close>, if \<open>m\<close> returns then \<open>Q\<close> holds of the value
  and the state.  Panicking and blocking are allowed; \<open>runs P m Q\<close> also excludes them.
\<close>

definition hoare :: "('s \<Rightarrow> bool) \<Rightarrow> ('c, 's, 'a) code \<Rightarrow> ('a \<Rightarrow> 's \<Rightarrow> bool) \<Rightarrow> bool" where
  "hoare P m Q \<longleftrightarrow> (\<forall>s x t. P s \<longrightarrow> m s = Ret x t \<longrightarrow> Q x t)"

definition runs :: "('s \<Rightarrow> bool) \<Rightarrow> ('c, 's, 'a) code \<Rightarrow> ('a \<Rightarrow> 's \<Rightarrow> bool) \<Rightarrow> bool" where
  "runs P m Q \<longleftrightarrow> (\<forall>s. P s \<longrightarrow> (\<exists>x t. m s = Ret x t \<and> Q x t))"

lemma hoareI: "(\<And>s x t. P s \<Longrightarrow> m s = Ret x t \<Longrightarrow> Q x t) \<Longrightarrow> hoare P m Q"
  by (simp add: hoare_def)

lemma hoareD: "hoare P m Q \<Longrightarrow> P s \<Longrightarrow> m s = Ret x t \<Longrightarrow> Q x t"
  by (auto simp: hoare_def)

lemma hoare_weaken: "hoare P' m Q' \<Longrightarrow> (\<And>s. P s \<Longrightarrow> P' s) \<Longrightarrow> (\<And>x t. Q' x t \<Longrightarrow> Q x t) \<Longrightarrow> hoare P m Q"
  by (simp add: hoare_def) blast

lemma hoare_bind:
  "hoare P m R \<Longrightarrow> (\<And>x. hoare (R x) (f x) Q) \<Longrightarrow> hoare P (bindK m f) Q"
  by (simp add: hoare_def bindO_eq_Ret_iff) blast

lemma hoare_inv_bind [hoare_intros]:
  "hoare P m (\<lambda>_. P) \<Longrightarrow> (\<And>x. hoare P (f x) (\<lambda>_. P)) \<Longrightarrow> hoare P (bindK m f) (\<lambda>_. P)"
  by (rule hoare_bind)

lemma hoare_inv_then [hoare_intros]:
  "hoare P m (\<lambda>_. P) \<Longrightarrow> hoare P n (\<lambda>_. P) \<Longrightarrow> hoare P (thenK m n) (\<lambda>_. P)"
  by (simp add: thenK_def hoare_inv_bind)

lemma hoare_inv_ret [hoare_intros]: "hoare P (retK x) (\<lambda>_. P)"
  by (simp add: hoare_def)

lemma hoare_inv_get [hoare_intros]: "hoare P (getK f) (\<lambda>_. P)"
  by (simp add: hoare_def)

lemma hoare_inv_panic [hoare_intros]: "hoare P (panicK e) (\<lambda>_. P)"
  by (simp add: hoare_def)

lemma hoare_inv_mod: "(\<And>s. P s \<Longrightarrow> P (f s)) \<Longrightarrow> hoare P (modK f) (\<lambda>_. P)"
  by (simp add: hoare_def)

lemma hoare_inv_if [hoare_intros]:
  "(b \<Longrightarrow> hoare P m (\<lambda>_. P)) \<Longrightarrow> (\<not> b \<Longrightarrow> hoare P n (\<lambda>_. P)) \<Longrightarrow> hoare P (if b then m else n) (\<lambda>_. P)"
  by simp

lemma hoare_inv_when [hoare_intros]: "(b \<Longrightarrow> hoare P m (\<lambda>_. P)) \<Longrightarrow> hoare P (whenK b m) (\<lambda>_. P)"
  by (cases b) (simp_all add: hoare_inv_ret)

lemma hoare_inv_for [hoare_intros]:
  "(\<And>i. i \<in> set is \<Longrightarrow> hoare P (body i) (\<lambda>_. P)) \<Longrightarrow> hoare P (forK is body) (\<lambda>_. P)"
  by (induction "is") (simp_all add: hoare_inv_ret hoare_inv_then)

lemma hoare_inv_option [hoare_intros]:
  "(x = None \<Longrightarrow> hoare P m (\<lambda>_. P)) \<Longrightarrow> (\<And>y. x = Some y \<Longrightarrow> hoare P (f y) (\<lambda>_. P)) \<Longrightarrow>
   hoare P (case x of None \<Rightarrow> m | Some y \<Rightarrow> f y) (\<lambda>_. P)"
  by (cases x) simp_all

lemma find_SomeD: "List.find P xs = Some x \<Longrightarrow> x \<in> set xs \<and> P x"
  by (auto simp: find_Some_iff)

lemma find_upt_None: "List.find P [0..<n] = None \<longleftrightarrow> (\<forall>i < n. \<not> P i)"
  by (auto simp: find_None_iff)

lemma find_upt_Some: "List.find P [0..<k] = Some i \<Longrightarrow> i < k \<and> P i \<and> (\<forall>j<i. \<not> P j)"
  by (auto simp: find_Some_iff)

end
