(* ===== verification/Xv6_Memory.thy ===== *)
theory Xv6_Memory
  imports Xv6_Prelude
begin

text \<open>
  Words as little-endian byte sequences (the layout the RISC-V compiler gives the C structs) and
  byte-addressed physical memory with loads and stores of byte runs and of 64-bit words.
\<close>

section \<open>Little-endian byte encoding\<close>

definition bytes_of :: "nat \<Rightarrow> 'a::len word \<Rightarrow> bytes" where
  "bytes_of n w = map (\<lambda>i. ucast (drop_bit (8 * i) w)) [0..<n]"

fun word_of :: "bytes \<Rightarrow> 'a::len word" where
  "word_of [] = 0"
| "word_of (b # bs) = ucast b OR push_bit 8 (word_of bs)"

lemma length_bytes_of [simp]: "length (bytes_of n w) = n"
  by (simp add: bytes_of_def)

lemma bit_word_of:
  "bit (word_of bs :: 'a::len word) i \<longleftrightarrow>
     i < LENGTH('a) \<and> i div 8 < length bs \<and> bit (bs ! (i div 8)) (i mod 8)"
proof (induction bs arbitrary: i)
  case Nil
  then show ?case by simp
next
  case (Cons b bs)
  show ?case
  proof (cases "i < 8")
    case True
    then show ?thesis by (auto simp: bit_simps)
  next
    case False
    then obtain j where i: "i = j + 8" by (metis add.commute le_Suc_ex not_less)
    have div: "(j + 8) div 8 = Suc (j div 8)" by simp
    have nb: "\<not> bit b (j + 8)" using bit_imp_le_length[of b "j + 8"] by auto
    show ?thesis
      by (auto simp: i div bit_simps Cons.IH nb dest: bit_imp_le_length)
  qed
qed

lemma word_of_bytes_of [simp]:
  fixes w :: "'a::len word"
  assumes "LENGTH('a) \<le> 8 * n"
  shows "word_of (bytes_of n w) = w"
proof (rule bit_word_eqI)
  fix i assume i: "i < LENGTH('a)"
  have "i div 8 < n" using i assms by (simp add: less_mult_imp_div_less mult.commute)
  moreover have "8 * (i div 8) + i mod 8 = i" by simp
  moreover have "i mod 8 < 8" by simp
  ultimately show "bit (word_of (bytes_of n w) :: 'a word) i = bit w i"
    using i by (simp add: bit_word_of bytes_of_def bit_ucast_iff bit_drop_bit_eq)
qed

lemma bytes_of_word_of:
  assumes "8 * length bs \<le> LENGTH('a)"
  shows "bytes_of (length bs) (word_of bs :: 'a::len word) = bs"
proof (rule nth_equalityI)
  fix k assume "k < length (bytes_of (length bs) (word_of bs :: 'a word))"
  then have k: "k < length bs" by simp
  show "bytes_of (length bs) (word_of bs :: 'a word) ! k = bs ! k"
  proof (rule bit_word_eqI)
    fix i assume i: "i < LENGTH(8)"
    have "8 * k + i < LENGTH('a)" using k i assms by simp
    moreover have "(8 * k + i) div 8 = k" "(8 * k + i) mod 8 = i" using i by auto
    ultimately show "bit (bytes_of (length bs) (word_of bs :: 'a word) ! k) i = bit (bs ! k) i"
      using k i by (simp add: bytes_of_def bit_ucast_iff bit_drop_bit_eq bit_word_of)
  qed
qed simp

lemma word_of_replicate_0 [simp]: "word_of (replicate n 0) = 0"
  by (induction n) simp_all

section \<open>Overwriting a run of a list\<close>

definition splice :: "'a list \<Rightarrow> nat \<Rightarrow> 'a list \<Rightarrow> 'a list" where
  "splice xs i ys = take i xs @ ys @ drop (i + length ys) xs"

definition slice :: "'a list \<Rightarrow> nat \<Rightarrow> nat \<Rightarrow> 'a list" where
  "slice xs i n = take n (drop i xs)"

lemma length_splice [simp]: "i + length ys \<le> length xs \<Longrightarrow> length (splice xs i ys) = length xs"
  by (simp add: splice_def)

lemma length_slice [simp]: "i + n \<le> length xs \<Longrightarrow> length (slice xs i n) = n"
  by (simp add: slice_def)

lemma nth_splice:
  "i + length ys \<le> length xs \<Longrightarrow> k < length xs \<Longrightarrow>
   splice xs i ys ! k = (if i \<le> k \<and> k < i + length ys then ys ! (k - i) else xs ! k)"
  by (auto simp: splice_def nth_append min_def not_less)

lemma nth_slice: "i + n \<le> length xs \<Longrightarrow> k < n \<Longrightarrow> slice xs i n ! k = xs ! (i + k)"
  by (simp add: slice_def)

lemma slice_splice_same [simp]:
  "i + length ys \<le> length xs \<Longrightarrow> n = length ys \<Longrightarrow> slice (splice xs i ys) i n = ys"
  by (simp add: slice_def splice_def)

lemma slice_splice_other:
  assumes "i + length ys \<le> length xs" and "j + n \<le> length xs"
    and "j + n \<le> i \<or> i + length ys \<le> j"
  shows "slice (splice xs i ys) j n = slice xs j n"
proof (rule nth_equalityI)
  show "length (slice (splice xs i ys) j n) = length (slice xs j n)"
    using assms by simp
  fix k assume "k < length (slice (splice xs i ys) j n)"
  then have k: "k < n" using assms by simp
  show "slice (splice xs i ys) j n ! k = slice xs j n ! k"
    using assms k by (auto simp: nth_slice nth_splice)
qed

lemma splice_splice_same:
  "i + length ys \<le> length xs \<Longrightarrow> length zs = length ys \<Longrightarrow>
   splice (splice xs i ys) i zs = splice xs i zs"
  by (simp add: splice_def)

lemma splice_slice_id [simp]: "i + n \<le> length xs \<Longrightarrow> splice xs i (slice xs i n) = xs"
  by (simp add: splice_def slice_def) (metis add.commute append_take_drop_id drop_drop)

subsection \<open>Fields of byte blocks\<close>

definition get32 :: "bytes \<Rightarrow> nat \<Rightarrow> uint" where
  "get32 d i = word_of (slice d i 4)"

definition put32 :: "bytes \<Rightarrow> nat \<Rightarrow> uint \<Rightarrow> bytes" where
  "put32 d i w = splice d i (bytes_of 4 w)"

definition get16 :: "bytes \<Rightarrow> nat \<Rightarrow> ushort" where
  "get16 d i = word_of (slice d i 2)"

definition put16 :: "bytes \<Rightarrow> nat \<Rightarrow> ushort \<Rightarrow> bytes" where
  "put16 d i w = splice d i (bytes_of 2 w)"

lemma length_put [simp]:
  "i + 4 \<le> length d \<Longrightarrow> length (put32 d i w) = length d"
  "i + 2 \<le> length d \<Longrightarrow> length (put16 d i v) = length d"
  by (simp_all add: put32_def put16_def)

lemma get_put_same [simp]:
  "i + 4 \<le> length d \<Longrightarrow> get32 (put32 d i w) i = w"
  "i + 2 \<le> length d \<Longrightarrow> get16 (put16 d i v) i = v"
  by (simp_all add: get32_def put32_def get16_def put16_def)

lemma get32_put32_other:
  "i + 4 \<le> length d \<Longrightarrow> j + 4 \<le> length d \<Longrightarrow> j + 4 \<le> i \<or> i + 4 \<le> j \<Longrightarrow> get32 (put32 d i w) j = get32 d j"
  by (simp add: get32_def put32_def slice_splice_other)

section \<open>Byte-addressed memory\<close>

type_synonym memory = "uint64 \<Rightarrow> uchar"

definition load_bytes :: "memory \<Rightarrow> uint64 \<Rightarrow> nat \<Rightarrow> bytes" where
  "load_bytes m a n = map (\<lambda>i. m (a + of_nat i)) [0..<n]"

definition store_bytes :: "memory \<Rightarrow> uint64 \<Rightarrow> bytes \<Rightarrow> memory" where
  "store_bytes m a bs = (\<lambda>x. if unat (x - a) < length bs then bs ! unat (x - a) else m x)"

definition load64 :: "memory \<Rightarrow> uint64 \<Rightarrow> uint64" where
  "load64 m a = word_of (load_bytes m a 8)"

definition store64 :: "memory \<Rightarrow> uint64 \<Rightarrow> uint64 \<Rightarrow> memory" where
  "store64 m a v = store_bytes m a (bytes_of 8 v)"

lemma length_load_bytes [simp]: "length (load_bytes m a n) = n"
  by (simp add: load_bytes_def)

lemma nth_load_bytes [simp]: "i < n \<Longrightarrow> load_bytes m a n ! i = m (a + of_nat i)"
  by (simp add: load_bytes_def)

lemma load_bytes_0 [simp]: "load_bytes m a 0 = []"
  by (simp add: load_bytes_def)

lemma store_bytes_Nil [simp]: "store_bytes m a [] = m"
  by (simp add: store_bytes_def)

lemma unat_of_nat64: "n < 2 ^ 64 \<Longrightarrow> unat (of_nat n :: uint64) = n"
  by (simp add: unat_of_nat take_bit_eq_mod)

lemma offset_eq_iff: "n < 2 ^ 64 \<Longrightarrow> x = d + of_nat n \<longleftrightarrow> unat (x - d :: uint64) = n"
proof -
  assume n: "n < 2 ^ 64"
  have "x = d + of_nat n \<longleftrightarrow> x - d = of_nat n" by (auto simp: algebra_simps)
  also have "\<dots> \<longleftrightarrow> unat (x - d) = unat (of_nat n :: uint64)" by (rule word_unat_eq_iff)
  finally show ?thesis using n by (simp only: unat_of_nat64)
qed

lemma store_bytes_in:
  "i < length bs \<Longrightarrow> length bs \<le> 2 ^ 64 \<Longrightarrow> store_bytes m a bs (a + of_nat i) = bs ! i"
  by (simp add: store_bytes_def unat_of_nat64)

lemma store_bytes_out: "length bs \<le> unat (x - a) \<Longrightarrow> store_bytes m a bs x = m x"
  by (simp add: store_bytes_def)

lemma load_store_same [simp]:
  "length bs \<le> 2 ^ 64 \<Longrightarrow> n = length bs \<Longrightarrow> load_bytes (store_bytes m a bs) a n = bs"
  by (rule nth_equalityI) (simp_all add: store_bytes_in)

text \<open>Two address ranges do not meet.\<close>

definition disjoint :: "uint64 \<Rightarrow> nat \<Rightarrow> uint64 \<Rightarrow> nat \<Rightarrow> bool" where
  "disjoint a n b k \<longleftrightarrow> (\<forall>i<k. n \<le> unat (b + of_nat i - a))"

lemma load_store_disjoint:
  "disjoint a (length bs) b k \<Longrightarrow> load_bytes (store_bytes m a bs) b k = load_bytes m b k"
  by (rule nth_equalityI) (auto simp: disjoint_def store_bytes_out)

lemma load64_store64_same [simp]: "load64 (store64 m a v) a = v"
  by (simp add: load64_def store64_def)

lemma load64_store_disjoint:
  "disjoint a (length bs) b 8 \<Longrightarrow> load64 (store_bytes m a bs) b = load64 m b"
  by (simp add: load64_def load_store_disjoint)

subsection \<open>Alignment\<close>

definition aligned :: "nat \<Rightarrow> uint64 \<Rightarrow> bool" where
  "aligned k a \<longleftrightarrow> 2 ^ k dvd unat a"

lemma aligned_diff:
  assumes "aligned k a" and "aligned k b" and k: "k \<le> 64"
  shows "2 ^ k dvd unat (b - a)"
proof -
  have a: "2 ^ k dvd unat a" and b: "2 ^ k dvd unat b" using assms(1,2) by (simp_all add: aligned_def)
  have top: "(2::nat) ^ k dvd 2 ^ LENGTH(64)" by (rule le_imp_power_dvd) (simp add: k)
  show ?thesis
  proof (cases "unat a \<le> unat b")
    case True
    then show ?thesis using a b by (simp add: unat_sub_if')
  next
    case False
    have "2 ^ k dvd unat b + 2 ^ LENGTH(64) - unat a"
      using a b top by (intro dvd_diff_nat dvd_add)
    then show ?thesis unfolding unat_sub_if' using False by (simp only: if_False)
  qed
qed

lemma unat_add_small:
  assumes "2 ^ k dvd unat (x :: uint64)" and "i < 2 ^ k" and "k \<le> 64"
  shows "unat (x + of_nat i) = unat x + i"
proof -
  define N where "N = (2::nat) ^ LENGTH(64)"
  have lt: "unat x < N" unfolding N_def by (rule unsigned_less)
  obtain q where q: "unat x = 2 ^ k * q" using assms(1) by (auto simp: dvd_def)
  have "k \<le> LENGTH(64)" using assms(3) by simp
  then have split: "N = 2 ^ k * 2 ^ (LENGTH(64) - k)"
    unfolding N_def by (metis le_add_diff_inverse power_add)
  have "q < 2 ^ (LENGTH(64) - k)" using lt unfolding q split by simp
  then have "2 ^ k * Suc q \<le> N" unfolding split by (intro mult_le_mono) auto
  then have lt2: "unat x + i < N" using assms(2) q by simp
  then have "unat (of_nat i :: uint64) = i"
    unfolding N_def by (simp add: unat_of_nat)
  then show ?thesis using lt2 unfolding N_def by (simp only: unat_word_ariths mod_less)
qed
lemma aligned_disjoint:
  assumes "aligned k a" and "aligned k b" and "a \<noteq> b" and "n \<le> 2 ^ k" and "l \<le> 2 ^ k" and "k \<le> 64"
  shows "disjoint a n b l"
  unfolding disjoint_def
proof (intro allI impI)
  fix i assume i: "i < l"
  have d: "2 ^ k dvd unat (b - a)" using assms(1,2,6) by (rule aligned_diff)
  have "unat (b - a) \<noteq> 0" using assms(3) by (simp add: unat_eq_0)
  then have "2 ^ k \<le> unat (b - a)" using d by (meson dvd_imp_le neq0_conv)
  moreover have "unat (b - a + of_nat i) = unat (b - a) + i"
    using d i assms(5,6) by (intro unat_add_small) auto
  moreover have e: "b + of_nat i - a = b - a + of_nat i" by (simp add: algebra_simps)
  ultimately show "n \<le> unat (b + of_nat i - a)" unfolding e using assms(4) by linarith
qed

lemma aligned_mono: "aligned k a \<Longrightarrow> j \<le> k \<Longrightarrow> aligned j a"
  unfolding aligned_def by (meson dvd_trans le_imp_power_dvd)

lemma aligned_0 [simp]: "aligned k 0"
  by (simp add: aligned_def)

lemma aligned_add_index:
  assumes "aligned k a" and "i < 2 ^ (k - 3)" and "3 \<le> k" and "k \<le> 64"
  shows "aligned 3 (a + 8 * of_nat i)" and "unat (a + 8 * of_nat i) = unat a + 8 * i"
proof -
  have eq: "8 * of_nat i = (of_nat (8 * i) :: uint64)" by simp
  have pk: "(2::nat) ^ k = 8 * 2 ^ (k - 3)"
    using assms(3) by (auto simp: power_add dest!: le_Suc_ex)
  have "8 * i < 2 ^ k" using assms(2) by (simp add: pk)
  then show u: "unat (a + 8 * of_nat i) = unat a + 8 * i"
    using assms(1,4) unfolding aligned_def eq by (intro unat_add_small) auto
  have "8 dvd unat a" using assms(1,3) aligned_mono[of k a 3] by (simp add: aligned_def)
  then show "aligned 3 (a + 8 * of_nat i)"
    unfolding aligned_def u by simp
qed

end
