(* ===== verification/Xv6_String.thy ===== *)
theory Xv6_String
  imports Xv6_Memory
begin

text \<open>
  \<^verbatim>\<open>kernel/string.c\<close>.  The routines that write through pointers (\<open>memset\<close>, \<open>memmove\<close>,
  \<open>memcpy\<close>) act on byte-addressed memory, so that overlapping arguments behave as in the code.
  The routines that only read take a C string as its sequence of characters
  \<open>nat \<Rightarrow> uchar\<close> (character \<open>i\<close> is what \<open>p[i]\<close> reads); \<open>strncpy\<close> and \<open>safestrcpy\<close>, whose
  arguments never overlap in the kernel, give the bytes they write through \<open>s\<close>.
\<close>

section \<open>Definitions\<close>

type_synonym cstring = "nat \<Rightarrow> uchar"

definition cstr_at :: "memory \<Rightarrow> uint64 \<Rightarrow> cstring" where
  "cstr_at m p = (\<lambda>i. m (p + of_nat i))"

definition cstr_of :: "bytes \<Rightarrow> cstring" where
  "cstr_of xs = (\<lambda>i. if i < length xs then xs ! i else 0)"

definition memset :: "memory \<Rightarrow> uint64 \<Rightarrow> uchar \<Rightarrow> nat \<Rightarrow> memory" where
  "memset m dst c n = foldl (\<lambda>m i. m(dst + of_nat i := c)) m [0..<n]"

fun memcmp :: "cstring \<Rightarrow> cstring \<Rightarrow> nat \<Rightarrow> nat \<Rightarrow> int" where
  "memcmp s1 s2 i 0 = 0"
| "memcmp s1 s2 i (Suc n) =
     (if s1 i \<noteq> s2 i then uint (s1 i) - uint (s2 i) else memcmp s1 s2 (Suc i) n)"

text \<open>The backward loop \<open>while(n-- > 0) *--d = *--s\<close> and the forward loop.\<close>

fun move_down :: "memory \<Rightarrow> uint64 \<Rightarrow> uint64 \<Rightarrow> nat \<Rightarrow> memory" where
  "move_down m d s 0 = m"
| "move_down m d s (Suc n) = move_down (m(d + of_nat n := m (s + of_nat n))) d s n"

fun move_up :: "memory \<Rightarrow> uint64 \<Rightarrow> uint64 \<Rightarrow> nat \<Rightarrow> memory" where
  "move_up m d s 0 = m"
| "move_up m d s (Suc n) = move_up (m(d := m s)) (d + 1) (s + 1) n"

definition memmove :: "memory \<Rightarrow> uint64 \<Rightarrow> uint64 \<Rightarrow> nat \<Rightarrow> memory" where
  "memmove m dst src n =
     (if n = 0 then m
      else if src < dst \<and> src + of_nat n > dst then move_down m dst src n
      else move_up m dst src n)"

definition memcpy :: "memory \<Rightarrow> uint64 \<Rightarrow> uint64 \<Rightarrow> nat \<Rightarrow> memory" where
  "memcpy m dst src n = memmove m dst src n"

text \<open>\<open>strncmp\<close> from position \<open>i\<close> with \<open>n\<close> characters left.\<close>

fun strncmp :: "cstring \<Rightarrow> cstring \<Rightarrow> nat \<Rightarrow> nat \<Rightarrow> int" where
  "strncmp p q i 0 = 0"
| "strncmp p q i (Suc n) =
     (if p i \<noteq> 0 \<and> p i = q i then strncmp p q (Suc i) n else uint (p i) - uint (q i))"

fun strncpy :: "cstring \<Rightarrow> nat \<Rightarrow> nat \<Rightarrow> bytes" where
  "strncpy t i 0 = []"
| "strncpy t i (Suc n) =
     (if t i \<noteq> 0 then t i # strncpy t (Suc i) n else 0 # replicate n 0)"

text \<open>The copying loop of \<open>safestrcpy\<close> after \<open>--n\<close>, followed by \<open>*s = 0\<close>.\<close>

fun safestrcpy_loop :: "cstring \<Rightarrow> nat \<Rightarrow> nat \<Rightarrow> bytes" where
  "safestrcpy_loop t i 0 = [0]"
| "safestrcpy_loop t i (Suc n) =
     (if t i \<noteq> 0 then t i # safestrcpy_loop t (Suc i) n else [0, 0])"

definition safestrcpy :: "cstring \<Rightarrow> int \<Rightarrow> bytes" where
  "safestrcpy t n = (if n \<le> 0 then [] else safestrcpy_loop t 0 (nat n - 1))"

text \<open>\<open>strlen\<close> has no bound: without a NUL it never returns.\<close>

partial_function (option) strlen_loop :: "cstring \<Rightarrow> nat \<Rightarrow> nat option" where
  "strlen_loop s n = (if s n = 0 then Some n else strlen_loop s (Suc n))"

definition strlen :: "cstring \<Rightarrow> nat option" where
  "strlen s = strlen_loop s 0"

section \<open>memset and memmove\<close>

lemma memset_snoc: "memset m dst c (Suc n) = (memset m dst c n)(dst + of_nat n := c)"
  by (simp add: memset_def)

lemma memset_eq: "n \<le> 2 ^ 64 \<Longrightarrow> memset m dst c n = store_bytes m dst (replicate n c)"
proof (induction n)
  case 0
  then show ?case by (simp add: memset_def)
next
  case (Suc n)
  have "x = dst + of_nat n \<longleftrightarrow> unat (x - dst) = n" for x
    using Suc.prems by (intro offset_eq_iff) simp
  then show ?case
    using Suc by (auto simp: memset_snoc store_bytes_def less_Suc_eq fun_eq_iff simp del: replicate_Suc)
qed

lemma move_up_apply:
  "d = s \<or> n \<le> unat (d - s) \<Longrightarrow> n \<le> 2 ^ 64 \<Longrightarrow>
   move_up m d s n x = (if unat (x - d) < n then m (s + (x - d)) else m x)"
proof (induction n arbitrary: m d s)
  case 0
  then show ?case by simp
next
  case (Suc n)
  let ?m = "m(d := m s)"
  have IH: "move_up ?m (d + 1) (s + 1) n x =
      (if unat (x - (d + 1)) < n then ?m (s + 1 + (x - (d + 1))) else ?m x)"
    by (rule Suc.IH) (use Suc.prems in auto)
  show ?case
  proof (cases "x = d")
    case True
    have e: "x - (d + 1) = - 1" using True by simp
    have u: "unat (- 1 :: uint64) = 2 ^ 64 - 1"
      by (simp add: unsigned_minus_1_eq_mask mask_eq_exp_minus_1)
    have "\<not> unat (x - (d + 1)) < n" unfolding e u using Suc.prems(2) by simp
    then show ?thesis unfolding move_up.simps IH using True by simp
  next
    case False
    then have nz: "x - d \<noteq> 0" by simp
    have u: "unat (x - (d + 1)) = unat (x - d) - 1"
      using nz by (metis diff_diff_add unat_minus_one)
    have pos: "0 < unat (x - d)" using nz by (simp add: unat_gt_0)
    have shift: "s + 1 + (x - (d + 1)) = s + (x - d)" by simp
    have clash: "d = s" if e: "s + (x - d) = d" and lt: "unat (x - d) < Suc n"
    proof -
      have "x - d = d - s" using e by (metis add_diff_cancel_left')
      then show "d = s" using lt Suc.prems(1) by auto
    qed
    show ?thesis unfolding move_up.simps IH shift u using pos False clash by auto
  qed
qed

lemma move_down_apply:
  "d = s \<or> n \<le> unat (s - d) \<Longrightarrow> n \<le> 2 ^ 64 \<Longrightarrow>
   move_down m d s n x = (if unat (x - d) < n then m (s + (x - d)) else m x)"
proof (induction n arbitrary: m)
  case 0
  then show ?case by simp
next
  case (Suc n)
  let ?m = "m(d + of_nat n := m (s + of_nat n))"
  have IH: "move_down ?m d s n x = (if unat (x - d) < n then ?m (s + (x - d)) else ?m x)"
    by (rule Suc.IH) (use Suc.prems in auto)
  have n: "n < 2 ^ 64" using Suc.prems(2) by simp
  have at: "x = d + of_nat n \<longleftrightarrow> unat (x - d) = n" using n by (rule offset_eq_iff)
  have clash: "d = s" if "s + (x - d) = d + of_nat n" "unat (x - d) < n"
  proof (rule ccontr)
    assume "d \<noteq> s"
    then have le: "Suc n \<le> unat (s - d)" using Suc.prems(1) by simp
    have e: "s - d = of_nat n - (x - d)" using that(1) by (simp add: algebra_simps)
    have "unat (of_nat n - (x - d)) = n - unat (x - d)"
      using that(2) n by (simp add: unat_sub word_le_nat_alt unat_of_nat64)
    then show False using le unfolding e by linarith
  qed
  show ?case unfolding move_down.simps IH using at clash
    by (auto simp: less_Suc_eq)
qed

text \<open>
  \<open>memmove\<close> copies as if through a temporary buffer, also when source and destination overlap:
  the direction test selects the loop that never overwrites a byte it still has to read.
\<close>

lemma memmove_eq:
  assumes s: "unat src + n < 2 ^ 64" and d: "unat dst + n \<le> 2 ^ 64" and n: "n < 2 ^ 32"
  shows "memmove m dst src n = store_bytes m dst (load_bytes m src n)"
proof -
  have un: "unat (src + of_nat n) = unat src + n"
    using s n by (simp add: unat_word_ariths unat_of_nat64)
  have "memmove m dst src n x = (if unat (x - dst) < n then m (src + (x - dst)) else m x)" for x
  proof (cases "src < dst \<and> src + of_nat n > dst")
    case True
    then have "unat src < unat dst" "unat dst < unat src + n"
      using un by (simp_all add: word_less_nat_alt)
    then have "n \<le> unat (src - dst)" using n by (simp add: unat_sub_if')
    then show ?thesis using True n by (simp add: memmove_def move_down_apply)
  next
    case False
    have "dst = src \<or> n \<le> unat (dst - src)"
    proof (cases "unat src < unat dst")
      case True
      then have "unat src + n \<le> unat dst" using False un by (simp add: word_less_nat_alt)
      then have "n \<le> unat (dst - src)" by (simp add: unat_sub_if')
      then show ?thesis ..
    next
      case ge: False
      then show ?thesis using s by (auto simp: unat_sub_if' word_unat_eq_iff)
    qed
    then show ?thesis using False n by (auto simp: memmove_def move_up_apply)
  qed
  then show ?thesis
    by (auto simp: fun_eq_iff store_bytes_def)
qed

section \<open>String comparison and copying\<close>

text \<open>The characters before the first NUL, looking at no more than \<open>n\<close>.\<close>

fun cstr_prefix :: "cstring \<Rightarrow> nat \<Rightarrow> nat \<Rightarrow> bytes" where
  "cstr_prefix s i 0 = []"
| "cstr_prefix s i (Suc n) = (if s i = 0 then [] else s i # cstr_prefix s (Suc i) n)"

lemma strncmp_eq_0_iff: "strncmp p q i n = 0 \<longleftrightarrow> cstr_prefix p i n = cstr_prefix q i n"
  by (induction p q i n rule: strncmp.induct) (auto simp: word_uint_eq_iff)

lemma memcmp_eq_0_iff: "memcmp s t i n = 0 \<longleftrightarrow> (\<forall>k<n. s (i + k) = t (i + k))"
proof (induction s t i n rule: memcmp.induct)
  case (2 s t i n)
  have "(\<forall>k<Suc n. s (i + k) = t (i + k)) \<longleftrightarrow> s i = t i \<and> (\<forall>k<n. s (Suc i + k) = t (Suc i + k))"
    by (auto simp: less_Suc_eq_0_disj)
  then show ?case using 2 by (auto simp: word_uint_eq_iff)
qed simp

lemma length_strncpy [simp]: "length (strncpy t i n) = n"
  by (induction t i n rule: strncpy.induct) simp_all

lemma cstr_prefix_zero: "(\<And>k. k < n \<Longrightarrow> s (i + k) = 0) \<Longrightarrow> cstr_prefix s i n = []"
  by (cases n) (auto dest: meta_spec[of _ 0])

lemma cstr_prefix_cong:
  "(\<And>k. k < n \<Longrightarrow> s (i + k) = t (j + k)) \<Longrightarrow> cstr_prefix s i n = cstr_prefix t j n"
proof (induction n arbitrary: i j)
  case (Suc n)
  have "s i = t j" using Suc.prems[of 0] by simp
  moreover have "cstr_prefix s (Suc i) n = cstr_prefix t (Suc j) n"
    using Suc.prems[of "Suc _"] by (intro Suc.IH) simp
  ultimately show ?case by simp
qed simp

lemma cstr_prefix_strncpy: "cstr_prefix (cstr_of (strncpy t i n)) 0 n = cstr_prefix t i n"
proof (induction t i n rule: strncpy.induct)
  case (2 t i n)
  show ?case
  proof (cases "t i = 0")
    case True
    then show ?thesis by (simp add: cstr_of_def)
  next
    case False
    have "cstr_prefix (cstr_of (t i # strncpy t (Suc i) n)) 1 n =
        cstr_prefix (cstr_of (strncpy t (Suc i) n)) 0 n"
      by (rule cstr_prefix_cong) (simp add: cstr_of_def)
    then show ?thesis using False 2 by (simp add: cstr_of_def)
  qed
qed simp

lemma cstr_prefix_cstr_of:
  "0 \<notin> set xs \<Longrightarrow> length xs \<le> n \<Longrightarrow> cstr_prefix (cstr_of xs) 0 n = xs"
proof (induction xs arbitrary: n)
  case Nil
  then show ?case by (simp add: cstr_of_def cstr_prefix_zero)
next
  case (Cons x xs)
  then obtain k where n: "n = Suc k" by (cases n) auto
  have "cstr_prefix (cstr_of (x # xs)) 1 k = cstr_prefix (cstr_of xs) 0 k"
    by (rule cstr_prefix_cong) (simp add: cstr_of_def)
  then show ?case using Cons n by (simp add: cstr_of_def)
qed

lemma length_safestrcpy_loop:
  "length (safestrcpy_loop t i n) \<le> Suc n \<and> safestrcpy_loop t i n \<noteq> []"
  by (induction t i n rule: safestrcpy_loop.induct) auto

lemma safestrcpy_loop_prefix:
  "\<exists>zs. safestrcpy_loop t i n = cstr_prefix t i n @ 0 # zs \<and> set zs \<subseteq> {0}"
proof (induction t i n rule: safestrcpy_loop.induct)
  case (2 t i n)
  then show ?case by (cases "t i = 0") auto
qed simp

lemma strlen_loop_Some: "\<forall>i<k. s (n + i) \<noteq> 0 \<Longrightarrow> s (n + k) = 0 \<Longrightarrow> strlen_loop s n = Some (n + k)"
proof (induction k arbitrary: n)
  case 0
  then show ?case by (simp add: strlen_loop.simps)
next
  case (Suc k)
  have "s n \<noteq> 0" using Suc.prems(1) by force
  moreover have "strlen_loop s (Suc n) = Some (Suc n + k)"
    using Suc.prems by (intro Suc.IH) auto
  ultimately show ?case by (simp add: strlen_loop.simps[of s n])
qed

lemma strlen_cstr_of: "0 \<notin> set xs \<Longrightarrow> strlen (cstr_of xs) = Some (length xs)"
  unfolding strlen_def
  by (rule strlen_loop_Some[where n = 0, simplified]) (auto simp: cstr_of_def in_set_conv_nth)

end
