(* ===== verification/Xv6_Kstate.thy ===== *)
theory Xv6_Kstate
  imports Xv6_String
begin

text \<open>
  The kernel's data structures, one record per C struct, and the record of all of the kernel's
  state.  Arrays of structs are lists; a pointer to an element of an array is its index, a null
  pointer is \<^const>\<open>None\<close>; pointers to memory obtained from \<open>kalloc\<close> are physical addresses, with
  \<open>0\<close> as the null pointer.

  The state is seen by the kernel thread that runs on one CPU: \<open>held\<close> lists the spinlocks that
  this CPU holds, so that \<open>acquire\<close> and \<open>release\<close> panic as the code does when the lock discipline
  is broken.  Theory \<open>Xv6_Spinlock\<close> models \<^verbatim>\<open>kernel/spinlock.c\<close> itself, with several CPUs,
  and shows that these two operations are what a CPU sees of it.
\<close>

section \<open>Locks and sleep channels\<close>

datatype sleeplock_id = SLBuf nat | SLInode nat

datatype lock_id =
    LKmem | LPid | LWait | LProc nat | LBcache | LLog | LItable | LFtable | LPipe uint64
  | LCons | LUart | LTicks | LDisk | LPr | LSleep sleeplock_id

text \<open>Sleep channels are addresses of kernel objects; each object is a value of this type.\<close>

datatype chan =
    ChProc nat | ChSleeplock sleeplock_id | ChLog | ChTicks | ChPipeRead uint64
  | ChPipeWrite uint64 | ChConsR | ChUartR | ChBuf nat | ChDiskFree

record sleeplock =
  sl_locked :: bool
  sl_pid :: int

section \<open>Processes\<close>

datatype procstate = UNUSED | USED | SLEEPING | RUNNABLE | RUNNING | ZOMBIE

record swcontext =
  ctx_ra :: uint64
  ctx_sp :: uint64
  ctx_s :: "uint64 list"

text \<open>The registers of \<open>struct trapframe\<close> and their offsets.\<close>

datatype tfreg =
    TF_kernel_satp | TF_kernel_sp | TF_kernel_trap | TF_epc | TF_kernel_hartid | TF_ra | TF_sp
  | TF_gp | TF_tp | TF_t0 | TF_t1 | TF_t2 | TF_s0 | TF_s1 | TF_a0 | TF_a1 | TF_a2 | TF_a3 | TF_a4
  | TF_a5 | TF_a6 | TF_a7 | TF_s2 | TF_s3 | TF_s4 | TF_s5 | TF_s6 | TF_s7 | TF_s8 | TF_s9 | TF_s10
  | TF_s11 | TF_t3 | TF_t4 | TF_t5 | TF_t6

fun tf_off :: "tfreg \<Rightarrow> nat" where
  "tf_off TF_kernel_satp = 0" | "tf_off TF_kernel_sp = 8" | "tf_off TF_kernel_trap = 16"
| "tf_off TF_epc = 24" | "tf_off TF_kernel_hartid = 32" | "tf_off TF_ra = 40" | "tf_off TF_sp = 48"
| "tf_off TF_gp = 56" | "tf_off TF_tp = 64" | "tf_off TF_t0 = 72" | "tf_off TF_t1 = 80"
| "tf_off TF_t2 = 88" | "tf_off TF_s0 = 96" | "tf_off TF_s1 = 104" | "tf_off TF_a0 = 112"
| "tf_off TF_a1 = 120" | "tf_off TF_a2 = 128" | "tf_off TF_a3 = 136" | "tf_off TF_a4 = 144"
| "tf_off TF_a5 = 152" | "tf_off TF_a6 = 160" | "tf_off TF_a7 = 168" | "tf_off TF_s2 = 176"
| "tf_off TF_s3 = 184" | "tf_off TF_s4 = 192" | "tf_off TF_s5 = 200" | "tf_off TF_s6 = 208"
| "tf_off TF_s7 = 216" | "tf_off TF_s8 = 224" | "tf_off TF_s9 = 232" | "tf_off TF_s10 = 240"
| "tf_off TF_s11 = 248" | "tf_off TF_t3 = 256" | "tf_off TF_t4 = 264" | "tf_off TF_t5 = 272"
| "tf_off TF_t6 = 280"

record proc =
  p_state :: procstate
  p_chan :: "chan option"
  p_killed :: bool
  p_xstate :: int
  p_pid :: int
  p_parent :: "nat option"
  p_kstack :: uint64
  p_sz :: uint64
  p_pagetable :: uint64
  p_trapframe :: uint64
  p_context :: swcontext
  p_ofile :: "nat option list"
  p_cwd :: "nat option"
  p_name :: bytes
  p_mask :: uint

section \<open>Buffer cache, log, inodes\<close>

record buf =
  b_valid :: bool
  b_disk :: bool
  b_dev :: uint
  b_blockno :: uint
  b_lock :: sleeplock
  b_refcnt :: uint
  b_data :: bytes

record superblock =
  sb_magic :: uint
  sb_size :: uint
  sb_nblocks :: uint
  sb_ninodes :: uint
  sb_nlog :: uint
  sb_logstart :: uint
  sb_inodestart :: uint
  sb_bmapstart :: uint

record logst =
  lg_start :: uint
  lg_size :: int
  lg_outstanding :: int
  lg_committing :: bool
  lg_dev :: uint
  lh_n :: int
  lh_block :: "uint list"

record inode =
  ip_dev :: uint
  ip_inum :: uint
  ip_ref :: int
  ip_lock :: sleeplock
  ip_valid :: bool
  ip_type :: ushort
  ip_major :: ushort
  ip_minor :: ushort
  ip_nlink :: ushort
  ip_size :: uint
  ip_addrs :: "uint list"

section \<open>Open files, pipes, devices\<close>

datatype ftype = FD_NONE | FD_PIPE | FD_INODE | FD_DEVICE

record fileobj =
  f_type :: ftype
  f_ref :: int
  f_readable :: bool
  f_writable :: bool
  f_pipe :: uint64
  f_ip :: nat
  f_off :: uint
  f_major :: ushort

record pipe =
  pi_data :: bytes
  pi_nread :: uint
  pi_nwrite :: uint
  pi_readopen :: bool
  pi_writeopen :: bool

text \<open>The device switch holds null pointers or the console's functions.\<close>

datatype devfn = NoDev | ConsoleDev

record consst =
  cons_buf :: bytes
  cons_r :: uint
  cons_w :: uint
  cons_e :: uint

text \<open>
  The UART: the driver's transmit ring, and of the hardware the bytes that arrived, the bytes
  written to THR, for each coming read of LSR whether THR is idle (idle from the end of the list
  on), and the configuration writes.
\<close>

record uartst =
  tx_buf :: bytes
  tx_w :: uint64
  tx_r :: uint64
  hw_rx :: bytes
  hw_thr :: bytes
  hw_idle :: "bool list"
  hw_cfg :: "(nat \<times> uchar) list"

section \<open>Supervisor registers and linker symbols\<close>

record csrst =
  sstatus :: uint64
  sepc :: uint64
  scause :: uint64
  stval :: uint64
  stvec :: uint64
  satp :: uint64
  sip :: uint64
  tp :: uint64

text \<open>Addresses of assembly routines and of C functions the code takes the address of.\<close>

record symbols =
  sym_kernelvec :: uint64
  sym_uservec :: uint64
  sym_userret :: uint64
  sym_usertrap :: uint64
  sym_forkret :: uint64

section \<open>The kernel\<close>

text \<open>
  \<open>disk\<close> is the contents of the device and \<open>dwrites\<close> the history of the block writes it completed,
  in order; a crash cuts that history at some point.  \<open>plic_irqs\<close> holds the interrupts the PLIC
  will hand out next and \<open>plic_done\<close> those that were completed; \<open>plic_regs\<close> lists the writes to its other
  registers.  \<open>fs_first\<close> is the static
  variable \<open>first\<close> of \<open>forkret\<close>.  \<open>stack_junk\<close> is what uninitialised padding in a local struct happens
  to contain.
\<close>

record kstate =
  held :: "lock_id list"
  mem :: memory
  k_end :: uint64
  k_etext :: uint64
  k_trampoline :: uint64
  freelist :: uint64
  procs :: "proc list"
  curproc :: "nat option"
  initproc :: "nat option"
  nextpid :: int
  ticks :: uint
  disk :: "uint \<Rightarrow> bytes"
  dwrites :: "(uint \<times> bytes) list"
  bufs :: "buf list"
  bnext :: "nat list"
  bprev :: "nat list"
  sb :: superblock
  logs :: logst
  itable :: "inode list"
  ftable :: "fileobj list"
  devsw :: "(devfn \<times> devfn) list"
  pipes :: "uint64 \<Rightarrow> pipe"
  cons :: consst
  uart :: uartst
  panicked :: bool
  pr_locking :: bool
  kernel_pagetable :: uint64
  fs_first :: bool
  csr :: csrst
  syms :: symbols
  plic_irqs :: "int list"
  plic_done :: "int list"
  plic_regs :: "(uint64 \<times> uint) list"
  started :: bool
  stack_junk :: bytes

type_synonym 'a kernel = "(nat, kstate, 'a) code"

section \<open>Locks as seen by one CPU\<close>

definition acquire :: "lock_id \<Rightarrow> unit kernel" where
  "acquire lk s = (if lk \<in> set (held s) then Panic ''acquire'' else Ret () (s\<lparr>held := lk # held s\<rparr>))"

definition release :: "lock_id \<Rightarrow> unit kernel" where
  "release lk s = (if lk \<notin> set (held s) then Panic ''release'' else Ret () (s\<lparr>held := remove1 lk (held s)\<rparr>))"

lemma acquire_free [simp]: "lk \<notin> set (held s) \<Longrightarrow> acquire lk s = Ret () (s\<lparr>held := lk # held s\<rparr>)"
  by (simp add: acquire_def)

lemma acquire_held [simp]: "lk \<in> set (held s) \<Longrightarrow> acquire lk s = Panic ''acquire''"
  by (simp add: acquire_def)

lemma release_held [simp]: "lk \<in> set (held s) \<Longrightarrow> release lk s = Ret () (s\<lparr>held := remove1 lk (held s)\<rparr>)"
  by (simp add: release_def)

lemma release_free [simp]: "lk \<notin> set (held s) \<Longrightarrow> release lk s = Panic ''release''"
  by (simp add: release_def)

text \<open>
  A null pointer dereference in the kernel faults, and \<open>kerneltrap\<close> panics on an unexpected trap.
\<close>

definition null_fault :: "'a kernel" where
  "null_fault = panicK ''kerneltrap''"

definition myproc :: "nat kernel" where
  "myproc = bindK (getK curproc) (\<lambda>p. case p of None \<Rightarrow> null_fault | Some i \<Rightarrow> retK i)"

lemma myproc_Some [simp]: "curproc s = Some p \<Longrightarrow> myproc s = Ret p s"
  by (simp add: myproc_def)

lemma myproc_None [simp]: "curproc s = None \<Longrightarrow> myproc s = Panic ''kerneltrap''"
  by (simp add: myproc_def null_fault_def)

section \<open>Field updates at an index\<close>

definition upd_proc :: "nat \<Rightarrow> (proc \<Rightarrow> proc) \<Rightarrow> kstate \<Rightarrow> kstate" where
  "upd_proc i f s = s\<lparr>procs := (procs s)[i := f (procs s ! i)]\<rparr>"

definition upd_buf :: "nat \<Rightarrow> (buf \<Rightarrow> buf) \<Rightarrow> kstate \<Rightarrow> kstate" where
  "upd_buf i f s = s\<lparr>bufs := (bufs s)[i := f (bufs s ! i)]\<rparr>"

definition upd_inode :: "nat \<Rightarrow> (inode \<Rightarrow> inode) \<Rightarrow> kstate \<Rightarrow> kstate" where
  "upd_inode i f s = s\<lparr>itable := (itable s)[i := f (itable s ! i)]\<rparr>"

definition upd_file :: "nat \<Rightarrow> (fileobj \<Rightarrow> fileobj) \<Rightarrow> kstate \<Rightarrow> kstate" where
  "upd_file i f s = s\<lparr>ftable := (ftable s)[i := f (ftable s ! i)]\<rparr>"

definition upd_pipe :: "uint64 \<Rightarrow> (pipe \<Rightarrow> pipe) \<Rightarrow> kstate \<Rightarrow> kstate" where
  "upd_pipe a f s = s\<lparr>pipes := (pipes s)(a := f (pipes s a))\<rparr>"

lemmas upd_defs = upd_proc_def upd_buf_def upd_inode_def upd_file_def upd_pipe_def

text \<open>The lengths of the kernel's static tables.\<close>

definition sized :: "kstate \<Rightarrow> bool" where
  "sized s \<longleftrightarrow> length (procs s) = NPROC \<and> length (bufs s) = NBUF \<and> length (itable s) = NINODE \<and>
     length (ftable s) = NFILE \<and> length (bnext s) = NBUF + 1 \<and> length (bprev s) = NBUF + 1 \<and>
     length (lh_block (logs s)) = LOGSIZE"

section \<open>The state at boot\<close>

text \<open>
  Static data starts out zeroed; \<open>end\<close>, \<open>etext\<close> and \<open>trampoline\<close> are addresses the linker chooses.
\<close>

definition zero_sleeplock :: sleeplock where
  "zero_sleeplock = \<lparr>sl_locked = False, sl_pid = 0\<rparr>"

definition zero_proc :: proc where
  "zero_proc = \<lparr>p_state = UNUSED, p_chan = None, p_killed = False, p_xstate = 0, p_pid = 0,
     p_parent = None, p_kstack = 0, p_sz = 0, p_pagetable = 0, p_trapframe = 0,
     p_context = \<lparr>ctx_ra = 0, ctx_sp = 0, ctx_s = replicate 12 0\<rparr>,
     p_ofile = replicate NOFILE None, p_cwd = None, p_name = replicate 16 0, p_mask = 0\<rparr>"

definition zero_buf :: buf where
  "zero_buf = \<lparr>b_valid = False, b_disk = False, b_dev = 0, b_blockno = 0, b_lock = zero_sleeplock,
     b_refcnt = 0, b_data = replicate BSIZE 0\<rparr>"

definition zero_inode :: inode where
  "zero_inode = \<lparr>ip_dev = 0, ip_inum = 0, ip_ref = 0, ip_lock = zero_sleeplock, ip_valid = False,
     ip_type = 0, ip_major = 0, ip_minor = 0, ip_nlink = 0, ip_size = 0,
     ip_addrs = replicate (NDIRECT + 1) 0\<rparr>"

definition zero_file :: fileobj where
  "zero_file = \<lparr>f_type = FD_NONE, f_ref = 0, f_readable = False, f_writable = False, f_pipe = 0,
     f_ip = 0, f_off = 0, f_major = 0\<rparr>"

definition zero_pipe :: pipe where
  "zero_pipe = \<lparr>pi_data = replicate 512 0, pi_nread = 0, pi_nwrite = 0, pi_readopen = False,
     pi_writeopen = False\<rparr>"

definition zero_csr :: csrst where
  "zero_csr = \<lparr>sstatus = 0, sepc = 0, scause = 0, stval = 0, stvec = 0, satp = 0, sip = 0, tp = 0\<rparr>"

definition zero_symbols :: symbols where
  "zero_symbols = \<lparr>sym_kernelvec = 0, sym_uservec = 0, sym_userret = 0, sym_usertrap = 0, sym_forkret = 0\<rparr>"

definition boot_state :: "uint64 \<Rightarrow> uint64 \<Rightarrow> uint64 \<Rightarrow> symbols \<Rightarrow> (uint \<Rightarrow> bytes) \<Rightarrow> kstate" where
  "boot_state kend etxt tramp sy dsk = \<lparr>held = [], mem = (\<lambda>_. 0), k_end = kend, k_etext = etxt,
     k_trampoline = tramp, freelist = 0, procs = replicate NPROC zero_proc, curproc = None,
     initproc = None, nextpid = 1, ticks = 0, disk = dsk, dwrites = [], bufs = replicate NBUF zero_buf,
     bnext = replicate (NBUF + 1) 0, bprev = replicate (NBUF + 1) 0,
     sb = \<lparr>sb_magic = 0, sb_size = 0, sb_nblocks = 0, sb_ninodes = 0, sb_nlog = 0, sb_logstart = 0,
       sb_inodestart = 0, sb_bmapstart = 0\<rparr>,
     logs = \<lparr>lg_start = 0, lg_size = 0, lg_outstanding = 0, lg_committing = False, lg_dev = 0,
       lh_n = 0, lh_block = replicate LOGSIZE 0\<rparr>,
     itable = replicate NINODE zero_inode, ftable = replicate NFILE zero_file,
     devsw = replicate NDEV (NoDev, NoDev), pipes = (\<lambda>_. zero_pipe),
     cons = \<lparr>cons_buf = replicate 128 0, cons_r = 0, cons_w = 0, cons_e = 0\<rparr>,
     uart = \<lparr>tx_buf = replicate 32 0, tx_w = 0, tx_r = 0, hw_rx = [], hw_thr = [], hw_idle = [],
       hw_cfg = []\<rparr>,
     panicked = False, pr_locking = False, kernel_pagetable = 0, fs_first = True, csr = zero_csr,
     syms = sy, plic_irqs = [], plic_done = [], plic_regs = [], started = False, stack_junk = []\<rparr>"

lemma boot_state_sized: "sized (boot_state kend etxt tramp sy dsk)"
  by (simp add: sized_def boot_state_def)

end
