(* ===== verification/Xv6_Sched.thy ===== *)
theory Xv6_Sched
  imports Xv6_Kstate
begin

text \<open>
  The part of \<^verbatim>\<open>kernel/proc.c\<close> that the rest of the kernel blocks and wakes with: \<open>sched\<close>,
  \<open>yield\<close>, \<open>sleep\<close>, \<open>wakeup\<close>, \<open>kill\<close>, \<open>killed\<close> and \<open>setkilled\<close>.  A call of \<open>sched\<close> that passes its
  checks ends in the outcome \<open>Swtch p s\<close>: process \<open>p\<close> left the CPU in state \<open>s\<close>, holding
  \<open>p->lock\<close>, which the scheduler releases.  What the code does once it is switched back in is
  \<open>sleep_resume\<close> and \<open>yield_resume\<close>.

  In this view of one CPU a lock held means that interrupts are off, whatever \<open>sstatus\<close> was when the first lock was
  taken: \<open>irq_enabled\<close>, what \<open>intr_get\<close> returns, is the enable bit while no lock is held, and \<open>mycpu()->noff\<close> is the number of locks held.  That
  \<open>push_off\<close> and \<open>pop_off\<close> make it so, and that \<open>sched\<close> may save and restore \<open>intena\<close> around the switch, is
  modelled and shown for several CPUs in \<open>Xv6_Spinlock\<close> (the rule \<open>resched\<close> is that assignment).
\<close>

section \<open>Operations\<close>

definition irq_enabled :: "kstate \<Rightarrow> bool" where
  "irq_enabled s \<longleftrightarrow> held s = [] \<and> sstatus (csr s) AND SSTATUS_SIE \<noteq> 0"

definition sched :: "unit kernel" where
  "sched = bindK myproc (\<lambda>p s.
     if LProc p \<notin> set (held s) then Panic ''sched p->lock''
     else if length (held s) \<noteq> 1 then Panic ''sched locks''
     else if p_state (procs s ! p) = RUNNING then Panic ''sched running''
     else if irq_enabled s then Panic ''sched interruptible''
     else Swtch p s)"

definition yield :: "unit kernel" where
  "yield = bindK myproc (\<lambda>p.
     thenK (acquire (LProc p))
    (thenK (modK (upd_proc p (\<lambda>q. q\<lparr>p_state := RUNNABLE\<rparr>)))
     sched))"

definition yield_resume :: "nat \<Rightarrow> unit kernel" where
  "yield_resume p = release (LProc p)"

definition sleep :: "chan \<Rightarrow> lock_id \<Rightarrow> unit kernel" where
  "sleep ch lk = bindK myproc (\<lambda>p.
     thenK (acquire (LProc p))
    (thenK (release lk)
    (thenK (modK (upd_proc p (\<lambda>q. q\<lparr>p_chan := Some ch\<rparr>)))
    (thenK (modK (upd_proc p (\<lambda>q. q\<lparr>p_state := SLEEPING\<rparr>)))
     sched))))"

definition sleep_resume :: "nat \<Rightarrow> lock_id \<Rightarrow> unit kernel" where
  "sleep_resume p lk =
     thenK (modK (upd_proc p (\<lambda>q. q\<lparr>p_chan := None\<rparr>)))
    (thenK (release (LProc p))
    (acquire lk))"

definition wakeup_body :: "chan option \<Rightarrow> nat \<Rightarrow> unit kernel" where
  "wakeup_body ch i = bindK (getK curproc) (\<lambda>me.
     whenK (me \<noteq> Some i)
      (thenK (acquire (LProc i))
      (thenK (modK (upd_proc i (\<lambda>q. if p_state q = SLEEPING \<and> p_chan q = ch
                                       then q\<lparr>p_state := RUNNABLE\<rparr> else q)))
       (release (LProc i)))))"

text \<open>\<open>exit\<close> calls \<open>wakeup(p->parent)\<close>, whose argument may be a null pointer.\<close>

definition wakeup_ptr :: "chan option \<Rightarrow> unit kernel" where
  "wakeup_ptr ch = forK [0..<NPROC] (wakeup_body ch)"

definition wakeup :: "chan \<Rightarrow> unit kernel" where
  "wakeup ch = wakeup_ptr (Some ch)"

fun kill_loop :: "int \<Rightarrow> nat list \<Rightarrow> int kernel" where
  "kill_loop pid [] = retK (- 1)"
| "kill_loop pid (i # is) =
     thenK (acquire (LProc i))
     (bindK (getK (\<lambda>s. procs s ! i)) (\<lambda>p.
      if p_pid p = pid then
        thenK (modK (upd_proc i (\<lambda>q. q\<lparr>p_killed := True\<rparr>)))
       (thenK (whenK (p_state p = SLEEPING) (modK (upd_proc i (\<lambda>q. q\<lparr>p_state := RUNNABLE\<rparr>))))
       (thenK (release (LProc i))
        (retK 0)))
      else thenK (release (LProc i)) (kill_loop pid is)))"

definition kill :: "int \<Rightarrow> int kernel" where
  "kill pid = kill_loop pid [0..<NPROC]"

definition setkilled :: "nat \<Rightarrow> unit kernel" where
  "setkilled p =
     thenK (acquire (LProc p))
    (thenK (modK (upd_proc p (\<lambda>q. q\<lparr>p_killed := True\<rparr>)))
    (release (LProc p)))"

definition killed :: "nat \<Rightarrow> bool kernel" where
  "killed p =
     thenK (acquire (LProc p))
     (bindK (getK (\<lambda>s. p_killed (procs s ! p))) (\<lambda>k.
      thenK (release (LProc p)) (retK k)))"

section \<open>wakeup\<close>

definition wake1 :: "nat option \<Rightarrow> chan option \<Rightarrow> nat \<Rightarrow> proc \<Rightarrow> proc" where
  "wake1 me ch i q = (if me \<noteq> Some i \<and> p_state q = SLEEPING \<and> p_chan q = ch
     then q\<lparr>p_state := RUNNABLE\<rparr> else q)"

definition woken_ptr :: "chan option \<Rightarrow> kstate \<Rightarrow> kstate" where
  "woken_ptr ch s = s\<lparr>procs := map (\<lambda>i. wake1 (curproc s) ch i (procs s ! i)) [0..<length (procs s)]\<rparr>"

abbreviation woken :: "chan \<Rightarrow> kstate \<Rightarrow> kstate" where
  "woken ch \<equiv> woken_ptr (Some ch)"

definition proc_locks_free :: "kstate \<Rightarrow> bool" where
  "proc_locks_free s \<longleftrightarrow> (\<forall>i. LProc i \<notin> set (held s))"

lemma wakeup_body_eq:
  "proc_locks_free s \<Longrightarrow> wakeup_body ch i s =
     Ret () (s\<lparr>procs := (procs s)[i := wake1 (curproc s) ch i (procs s ! i)]\<rparr>)"
  by (cases "curproc s = Some i") (auto simp: wakeup_body_def wake1_def upd_proc_def proc_locks_free_def)

lemma wakeup_ptr_eq:
  assumes "proc_locks_free s" and "length (procs s) = NPROC"
  shows "wakeup_ptr ch s = Ret () (woken_ptr ch s)"
proof -
  let ?f = "\<lambda>i s. s\<lparr>procs := (procs s)[i := wake1 (curproc s) ch i (procs s ! i)]\<rparr>"
  have run: "wakeup_ptr ch s = Ret () (fold ?f [0..<NPROC] s)"
    unfolding wakeup_ptr_def
    by (rule forK_fold[where P = proc_locks_free, OF assms(1)])
      (simp add: wakeup_body_eq, simp add: proc_locks_free_def)
  have lift: "fold ?f is s = s\<lparr>procs := fold (\<lambda>i ps. ps[i := wake1 (curproc s) ch i (ps ! i)]) is (procs s)\<rparr>" for "is" s
    by (induction "is" arbitrary: s) simp_all
  have "fold ?f [0..<NPROC] s = woken_ptr ch s"
    unfolding lift woken_ptr_def
    using fold_update_nth[of NPROC "procs s" "wake1 (curproc s) ch"] assms(2) by simp
  then show ?thesis using run by simp
qed

lemma wakeup_eq:
  assumes "proc_locks_free s" and "length (procs s) = NPROC"
  shows "wakeup ch s = Ret () (woken ch s)"
  unfolding wakeup_def by (rule wakeup_ptr_eq[OF assms])

lemmas woken_def = woken_ptr_def

lemma woken_frame [simp]:
  "held (woken_ptr ch s) = held s" "mem (woken_ptr ch s) = mem s" "k_end (woken_ptr ch s) = k_end s"
  "freelist (woken_ptr ch s) = freelist s" "curproc (woken_ptr ch s) = curproc s" "disk (woken_ptr ch s) = disk s"
  "bufs (woken_ptr ch s) = bufs s" "bnext (woken_ptr ch s) = bnext s" "bprev (woken_ptr ch s) = bprev s"
  "sb (woken_ptr ch s) = sb s" "logs (woken_ptr ch s) = logs s" "itable (woken_ptr ch s) = itable s"
  "ftable (woken_ptr ch s) = ftable s" "pipes (woken_ptr ch s) = pipes s" "cons (woken_ptr ch s) = cons s"
  "uart (woken_ptr ch s) = uart s" "ticks (woken_ptr ch s) = ticks s" "initproc (woken_ptr ch s) = initproc s"
  "length (procs (woken_ptr ch s)) = length (procs s)" "nextpid (woken_ptr ch s) = nextpid s"
  "devsw (woken_ptr ch s) = devsw s" "k_trampoline (woken_ptr ch s) = k_trampoline s"
  by (simp_all add: woken_ptr_def)

lemma woken_dwrites [simp]: "dwrites (woken_ptr ch s) = dwrites s"
  by (simp add: woken_ptr_def)

lemma nth_woken: "i < length (procs s) \<Longrightarrow> procs (woken_ptr ch s) ! i = wake1 (curproc s) ch i (procs s ! i)"
  by (simp add: woken_ptr_def)

lemma woken_pid [simp]: "i < length (procs s) \<Longrightarrow> p_pid (procs (woken_ptr ch s) ! i) = p_pid (procs s ! i)"
  by (simp add: nth_woken wake1_def)

lemma killed_eq: "LProc p \<notin> set (held s) \<Longrightarrow> killed p s = Ret (p_killed (procs s ! p)) s"
  by (simp add: killed_def)

section \<open>sleep\<close>

text \<open>
  \<open>sleep\<close> called with exactly its own lock held switches out, having released that lock and
  published the channel; with any further lock held it panics, as it would deadlock the CPU.
\<close>

lemma sleep_eq:
  assumes "curproc s = Some p" and "held s = [lk]" and "lk \<noteq> LProc p" and "p < length (procs s)"
  shows "sleep ch lk s = Swtch p (upd_proc p (\<lambda>q. q\<lparr>p_chan := Some ch, p_state := SLEEPING\<rparr>)
     (s\<lparr>held := [LProc p]\<rparr>))"
  using assms by (auto simp: sleep_def sched_def irq_enabled_def upd_proc_def)

lemma sleep_extra_lock_panics:
  assumes "curproc s = Some p" and "LProc p \<notin> set (held s)" and "lk \<in> set (held s)"
    and "2 \<le> length (held s)"
  shows "sleep ch lk s = Panic ''sched locks''"
proof -
  have "lk \<noteq> LProc p" using assms(2,3) by auto
  moreover have "length (LProc p # remove1 lk (held s)) \<noteq> 1"
    using assms(3,4) by (simp add: length_remove1)
  ultimately show ?thesis using assms by (auto simp: sleep_def sched_def irq_enabled_def upd_proc_def)
qed

section \<open>kill\<close>

definition kill_post :: "nat \<Rightarrow> kstate \<Rightarrow> kstate" where
  "kill_post i = upd_proc i (\<lambda>q. q\<lparr>p_killed := True,
     p_state := if p_state q = SLEEPING then RUNNABLE else p_state q\<rparr>)"

lemma kill_loop_eq:
  assumes "proc_locks_free s" and "\<forall>i\<in>set is. i < length (procs s)"
  shows "kill_loop pid is s =
     (case List.find (\<lambda>i. p_pid (procs s ! i) = pid) is of
        None \<Rightarrow> Ret (- 1) s | Some i \<Rightarrow> Ret 0 (kill_post i s))"
  using assms
proof (induction "is")
  case (Cons i "is")
  have f: "LProc i \<notin> set (held s)" using Cons.prems(1) by (simp add: proc_locks_free_def)
  show ?case
  proof (cases "p_pid (procs s ! i) = pid")
    case True
    then show ?thesis using f Cons.prems(2)
      by (cases "p_state (procs s ! i) = SLEEPING") (simp_all add: kill_post_def upd_proc_def)
  next
    case False
    then show ?thesis using f Cons by simp
  qed
qed simp

lemma kill_eq:
  "proc_locks_free s \<Longrightarrow> length (procs s) = NPROC \<Longrightarrow> kill pid s =
     (case List.find (\<lambda>i. p_pid (procs s ! i) = pid) [0..<NPROC] of
        None \<Rightarrow> Ret (- 1) s | Some i \<Rightarrow> Ret 0 (kill_post i s))"
  unfolding kill_def by (rule kill_loop_eq) simp_all

end
