(* ===== verification/Xv6_Sleeplock.thy ===== *)
theory Xv6_Sleeplock
  imports Xv6_Sched
begin

text \<open>
  \<^verbatim>\<open>kernel/sleeplock.c\<close>.  Sleep-locks are embedded in buffers and inodes; \<open>get_sl\<close> and \<open>upd_sl\<close>
  follow the pointer.  A contended \<open>acquiresleep\<close> gives up the CPU; when the process is switched
  back in it runs \<open>sleep_resume\<close> and re-enters the loop \<open>acquiresleep_loop\<close>.
\<close>

fun get_sl :: "sleeplock_id \<Rightarrow> kstate \<Rightarrow> sleeplock" where
  "get_sl (SLBuf i) s = b_lock (bufs s ! i)"
| "get_sl (SLInode i) s = ip_lock (itable s ! i)"

fun upd_sl :: "sleeplock_id \<Rightarrow> (sleeplock \<Rightarrow> sleeplock) \<Rightarrow> kstate \<Rightarrow> kstate" where
  "upd_sl (SLBuf i) f s = upd_buf i (\<lambda>b. b\<lparr>b_lock := f (b_lock b)\<rparr>) s"
| "upd_sl (SLInode i) f s = upd_inode i (\<lambda>ip. ip\<lparr>ip_lock := f (ip_lock ip)\<rparr>) s"

definition initsleeplock :: "sleeplock_id \<Rightarrow> unit kernel" where
  "initsleeplock lk = modK (upd_sl lk (\<lambda>l. l\<lparr>sl_locked := False, sl_pid := 0\<rparr>))"

definition acquiresleep_loop :: "sleeplock_id \<Rightarrow> unit kernel" where
  "acquiresleep_loop lk = bindK (getK (\<lambda>s. sl_locked (get_sl lk s))) (\<lambda>l.
     if l then sleep (ChSleeplock lk) (LSleep lk)
     else thenK (modK (upd_sl lk (\<lambda>l. l\<lparr>sl_locked := True\<rparr>)))
         (bindK myproc (\<lambda>p.
          thenK (modK (\<lambda>s. upd_sl lk (\<lambda>l. l\<lparr>sl_pid := p_pid (procs s ! p)\<rparr>) s))
          (release (LSleep lk)))))"

definition acquiresleep :: "sleeplock_id \<Rightarrow> unit kernel" where
  "acquiresleep lk = thenK (acquire (LSleep lk)) (acquiresleep_loop lk)"

definition releasesleep :: "sleeplock_id \<Rightarrow> unit kernel" where
  "releasesleep lk =
     thenK (acquire (LSleep lk))
    (thenK (modK (upd_sl lk (\<lambda>l. l\<lparr>sl_locked := False\<rparr>)))
    (thenK (modK (upd_sl lk (\<lambda>l. l\<lparr>sl_pid := 0\<rparr>)))
    (thenK (wakeup (ChSleeplock lk))
     (release (LSleep lk)))))"

definition holdingsleep :: "sleeplock_id \<Rightarrow> bool kernel" where
  "holdingsleep lk =
     thenK (acquire (LSleep lk))
     (bindK myproc (\<lambda>p.
      bindK (getK (\<lambda>s. sl_locked (get_sl lk s) \<and> sl_pid (get_sl lk s) = p_pid (procs s ! p))) (\<lambda>r.
      thenK (release (LSleep lk)) (retK r))))"

section \<open>Behaviour\<close>

text \<open>The state a kernel thread runs in when no spinlock conflicts with sleep-lock operations.\<close>

definition calm :: "kstate \<Rightarrow> bool" where
  "calm s \<longleftrightarrow> (\<forall>i. LProc i \<notin> set (held s)) \<and> (\<forall>l. LSleep l \<notin> set (held s)) \<and>
     length (procs s) = NPROC \<and> (\<exists>p<NPROC. curproc s = Some p)"

definition mypid :: "kstate \<Rightarrow> int" where
  "mypid s = (case curproc s of None \<Rightarrow> 0 | Some p \<Rightarrow> p_pid (procs s ! p))"

lemma calm_proc_locks_free: "calm s \<Longrightarrow> proc_locks_free s"
  by (simp add: calm_def proc_locks_free_def)

lemma calm_upd_sl [simp]: "calm (upd_sl lk f s) = calm s"
  by (cases lk) (simp_all add: calm_def upd_defs)

lemma held_upd_sl [simp]: "held (upd_sl lk f s) = held s"
  by (cases lk) (simp_all add: upd_defs)

lemma curproc_upd_sl [simp]: "curproc (upd_sl lk f s) = curproc s"
  by (cases lk) (simp_all add: upd_defs)

lemma procs_upd_sl [simp]: "procs (upd_sl lk f s) = procs s"
  by (cases lk) (simp_all add: upd_defs)

lemma upd_sl_held: "upd_sl lk f (s\<lparr>held := h\<rparr>) = (upd_sl lk f s)\<lparr>held := h\<rparr>"
  by (cases lk) (simp_all add: upd_defs)

lemma upd_sl_compose: "upd_sl lk f (upd_sl lk g s) = upd_sl lk (f \<circ> g) s"
proof (cases lk)
  case (SLBuf i)
  then show ?thesis by (cases "i < length (bufs s)") (simp_all add: upd_defs list_update_beyond)
next
  case (SLInode i)
  then show ?thesis by (cases "i < length (itable s)") (simp_all add: upd_defs list_update_beyond)
qed

lemma get_sl_held [simp]: "get_sl lk (s\<lparr>held := h\<rparr>) = get_sl lk s"
  by (cases lk) simp_all

definition sl_take :: "sleeplock_id \<Rightarrow> kstate \<Rightarrow> kstate" where
  "sl_take lk s = upd_sl lk (\<lambda>l. l\<lparr>sl_locked := True, sl_pid := mypid s\<rparr>) s"

definition sl_drop :: "sleeplock_id \<Rightarrow> kstate \<Rightarrow> kstate" where
  "sl_drop lk s = upd_sl lk (\<lambda>l. l\<lparr>sl_locked := False, sl_pid := 0\<rparr>) s"

lemma acquiresleep_eq:
  assumes "calm s" and "\<not> sl_locked (get_sl lk s)"
  shows "acquiresleep lk s = Ret () (sl_take lk s)"
proof -
  obtain p where p: "curproc s = Some p" using assms(1) by (auto simp: calm_def)
  show ?thesis using assms p
    by (simp add: acquiresleep_def acquiresleep_loop_def calm_def sl_take_def mypid_def
        upd_sl_held upd_sl_compose comp_def)
qed

text \<open>A process that finds the lock taken goes to sleep on it, holding no other spinlock.\<close>

lemma acquiresleep_blocks:
  assumes "calm s" and "held s = []" and "sl_locked (get_sl lk s)" and "curproc s = Some p"
  shows "acquiresleep lk s =
     Swtch p (upd_proc p (\<lambda>q. q\<lparr>p_chan := Some (ChSleeplock lk), p_state := SLEEPING\<rparr>) (s\<lparr>held := [LProc p]\<rparr>))"
  using assms by (simp add: acquiresleep_def acquiresleep_loop_def calm_def sleep_eq)

lemma releasesleep_eq:
  assumes "calm s"
  shows "releasesleep lk s = Ret () (woken (ChSleeplock lk) (sl_drop lk s))"
proof -
  let ?t = "sl_drop lk s"
  have "wakeup (ChSleeplock lk) (?t\<lparr>held := LSleep lk # held s\<rparr>) =
      Ret () (woken (ChSleeplock lk) (?t\<lparr>held := LSleep lk # held s\<rparr>))"
    using assms by (intro wakeup_eq) (auto simp: calm_def proc_locks_free_def sl_drop_def)
  moreover have "woken (ChSleeplock lk) (?t\<lparr>held := LSleep lk # held s\<rparr>) =
      (woken (ChSleeplock lk) ?t)\<lparr>held := LSleep lk # held s\<rparr>"
    by (simp add: woken_def)
  moreover have "upd_sl lk (\<lambda>l. l\<lparr>sl_pid := 0\<rparr>) (upd_sl lk (\<lambda>l. l\<lparr>sl_locked := False\<rparr>) (s\<lparr>held := h\<rparr>)) =
      ?t\<lparr>held := h\<rparr>" for h
    by (simp add: upd_sl_held upd_sl_compose comp_def sl_drop_def)
  moreover have "(woken (ChSleeplock lk) ?t)\<lparr>held := held s\<rparr> = woken (ChSleeplock lk) ?t"
    by (simp add: woken_def sl_drop_def)
  ultimately show ?thesis
    using assms by (simp add: releasesleep_def calm_def)
qed

lemma holdingsleep_eq:
  assumes "calm s"
  shows "holdingsleep lk s = Ret (sl_locked (get_sl lk s) \<and> sl_pid (get_sl lk s) = mypid s) s"
proof -
  obtain p where p: "curproc s = Some p" using assms by (auto simp: calm_def)
  show ?thesis using assms p by (simp add: holdingsleep_def calm_def mypid_def)
qed

lemma calm_woken [simp]: "calm (woken ch s) = calm s"
  by (simp add: calm_def)

lemma mypid_woken: "calm s \<Longrightarrow> mypid (woken ch s) = mypid s"
  by (auto simp: calm_def mypid_def)

lemma mypid_cong: "curproc t = curproc s \<Longrightarrow> procs t = procs s \<Longrightarrow> mypid t = mypid s"
  by (simp add: mypid_def split: option.split)

end
