(* ===== verification/Xv6_Bio.thy ===== *)
theory Xv6_Bio
  imports Xv6_Sleeplock
begin

text \<open>
  \<^verbatim>\<open>kernel/bio.c\<close>: the buffer cache.  The circular doubly linked list of buffers is modelled by its
  \<open>prev\<close> and \<open>next\<close> pointers: node \<open>i < NBUF\<close> is \<open>&bcache.buf[i]\<close> and node \<open>NBUF\<close> is
  \<open>&bcache.head\<close>.  A walk along the list that never comes back to the head does not return
  (\<^const>\<open>Spin\<close>).  The abstraction is the list of buffers, most recently used first.

  \<open>virtio_disk_rw\<close> is used here through its effect once the request has completed; the descriptor
  protocol of \<^verbatim>\<open>kernel/virtio_disk.c\<close> is the subject of theory \<open>Xv6_Virtio\<close>.
\<close>

section \<open>Operations\<close>

abbreviation HEAD :: nat where "HEAD \<equiv> NBUF"

definition set_next :: "nat \<Rightarrow> nat \<Rightarrow> kstate \<Rightarrow> kstate" where
  "set_next i v s = s\<lparr>bnext := (bnext s)[i := v]\<rparr>"

definition set_prev :: "nat \<Rightarrow> nat \<Rightarrow> kstate \<Rightarrow> kstate" where
  "set_prev i v s = s\<lparr>bprev := (bprev s)[i := v]\<rparr>"

text \<open>Link \<open>b\<close> in right after the head.\<close>

definition link_head :: "nat \<Rightarrow> kstate \<Rightarrow> kstate" where
  "link_head b s0 =
    (let s1 = set_next b (bnext s0 ! HEAD) s0;
         s2 = set_prev b HEAD s1;
         s3 = set_prev (bnext s2 ! HEAD) b s2
     in set_next HEAD b s3)"

definition unlink :: "nat \<Rightarrow> kstate \<Rightarrow> kstate" where
  "unlink b s0 =
    (let s1 = set_prev (bnext s0 ! b) (bprev s0 ! b) s0
     in set_next (bprev s1 ! b) (bnext s1 ! b) s1)"

text \<open>In \<open>binit\<close> the sleep-lock is initialised between the assignments of \<open>link_head\<close>, which
  do not depend on it.\<close>

lemma set_ptr_frame [simp]:
  "bufs (set_next i v s) = bufs s" "disk (set_next i v s) = disk s" "dwrites (set_next i v s) = dwrites s"
  "held (set_next i v s) = held s" "bufs (set_prev i v s) = bufs s" "disk (set_prev i v s) = disk s"
  "dwrites (set_prev i v s) = dwrites s" "held (set_prev i v s) = held s"
  "bprev (set_next i v s) = bprev s" "bnext (set_prev i v s) = bnext s"
  by (simp_all add: set_next_def set_prev_def)

lemma link_frame [simp]:
  "bufs (link_head b s) = bufs s" "disk (link_head b s) = disk s" "dwrites (link_head b s) = dwrites s"
  "held (link_head b s) = held s" "bufs (unlink b s) = bufs s" "disk (unlink b s) = disk s"
  "dwrites (unlink b s) = dwrites s" "held (unlink b s) = held s"
  by (simp_all add: link_head_def unlink_def Let_def)

lemma set_ptr_held:
  "set_next i v (s\<lparr>held := h\<rparr>) = (set_next i v s)\<lparr>held := h\<rparr>"
  "set_prev i v (s\<lparr>held := h\<rparr>) = (set_prev i v s)\<lparr>held := h\<rparr>"
  by (simp_all add: set_next_def set_prev_def)

lemma link_held:
  "link_head b (s\<lparr>held := h\<rparr>) = (link_head b s)\<lparr>held := h\<rparr>"
  "unlink b (s\<lparr>held := h\<rparr>) = (unlink b s)\<lparr>held := h\<rparr>"
  by (simp_all add: link_head_def unlink_def Let_def set_ptr_held)

definition binit :: "unit kernel" where
  "binit =
     thenK (modK (set_prev HEAD HEAD))
    (thenK (modK (set_next HEAD HEAD))
    (forK [0..<NBUF] (\<lambda>b. thenK (initsleeplock (SLBuf b)) (modK (link_head b)))))"

fun bget_find :: "nat \<Rightarrow> uint \<Rightarrow> uint \<Rightarrow> nat \<Rightarrow> nat option kernel" where
  "bget_find 0 dev blockno b = (\<lambda>s. Spin)"
| "bget_find (Suc fuel) dev blockno b =
     (if b = HEAD then retK None
      else bindK (getK (\<lambda>s. bufs s ! b)) (\<lambda>bp.
        if b_dev bp = dev \<and> b_blockno bp = blockno then retK (Some b)
        else bindK (getK (\<lambda>s. bnext s ! b)) (bget_find fuel dev blockno)))"

fun bget_lru :: "nat \<Rightarrow> nat \<Rightarrow> nat option kernel" where
  "bget_lru 0 b = (\<lambda>s. Spin)"
| "bget_lru (Suc fuel) b =
     (if b = HEAD then retK None
      else bindK (getK (\<lambda>s. bufs s ! b)) (\<lambda>bp.
        if b_refcnt bp = 0 then retK (Some b)
        else bindK (getK (\<lambda>s. bprev s ! b)) (bget_lru fuel)))"

definition bget :: "uint \<Rightarrow> uint \<Rightarrow> nat kernel" where
  "bget dev blockno =
     thenK (acquire LBcache)
     (bindK (bindK (getK (\<lambda>s. bnext s ! HEAD)) (bget_find (NBUF + 1) dev blockno)) (\<lambda>r.
      case r of
        Some b \<Rightarrow>
          thenK (modK (upd_buf b (\<lambda>bp. bp\<lparr>b_refcnt := b_refcnt bp + 1\<rparr>)))
         (thenK (release LBcache)
         (thenK (acquiresleep (SLBuf b))
         (retK b)))
      | None \<Rightarrow>
          bindK (bindK (getK (\<lambda>s. bprev s ! HEAD)) (bget_lru (NBUF + 1))) (\<lambda>r.
          case r of
            Some b \<Rightarrow>
              thenK (modK (upd_buf b (\<lambda>bp. bp\<lparr>b_dev := dev, b_blockno := blockno,
                                              b_valid := False, b_refcnt := 1\<rparr>)))
             (thenK (release LBcache)
             (thenK (acquiresleep (SLBuf b))
             (retK b)))
          | None \<Rightarrow> panicK ''bget: no buffers'')))"

definition virtio_disk_rw :: "nat \<Rightarrow> bool \<Rightarrow> unit kernel" where
  "virtio_disk_rw b write = modK (\<lambda>s.
     if write then s\<lparr>disk := (disk s)(b_blockno (bufs s ! b) := b_data (bufs s ! b)),
                     dwrites := dwrites s @ [(b_blockno (bufs s ! b), b_data (bufs s ! b))]\<rparr>
     else upd_buf b (\<lambda>bp. bp\<lparr>b_data := disk s (b_blockno bp)\<rparr>) s)"

definition bread :: "uint \<Rightarrow> uint \<Rightarrow> nat kernel" where
  "bread dev blockno = bindK (bget dev blockno) (\<lambda>b.
     bindK (getK (\<lambda>s. b_valid (bufs s ! b))) (\<lambda>v.
     thenK (whenK (\<not> v)
        (thenK (virtio_disk_rw b False)
               (modK (upd_buf b (\<lambda>bp. bp\<lparr>b_valid := True\<rparr>)))))
     (retK b)))"

definition bwrite :: "nat \<Rightarrow> unit kernel" where
  "bwrite b = bindK (holdingsleep (SLBuf b)) (\<lambda>h.
     if \<not> h then panicK ''bwrite'' else virtio_disk_rw b True)"

definition brelse :: "nat \<Rightarrow> unit kernel" where
  "brelse b = bindK (holdingsleep (SLBuf b)) (\<lambda>h.
     if \<not> h then panicK ''brelse''
     else thenK (releasesleep (SLBuf b))
         (thenK (acquire LBcache)
         (thenK (modK (upd_buf b (\<lambda>bp. bp\<lparr>b_refcnt := b_refcnt bp - 1\<rparr>)))
         (bindK (getK (\<lambda>s. b_refcnt (bufs s ! b))) (\<lambda>rc.
          thenK (whenK (rc = 0) (thenK (modK (unlink b)) (modK (link_head b))))
          (release LBcache))))))"

definition bpin :: "nat \<Rightarrow> unit kernel" where
  "bpin b =
     thenK (acquire LBcache)
    (thenK (modK (upd_buf b (\<lambda>bp. bp\<lparr>b_refcnt := b_refcnt bp + 1\<rparr>)))
    (release LBcache))"

definition bunpin :: "nat \<Rightarrow> unit kernel" where
  "bunpin b =
     thenK (acquire LBcache)
    (thenK (modK (upd_buf b (\<lambda>bp. bp\<lparr>b_refcnt := b_refcnt bp - 1\<rparr>)))
    (release LBcache))"

section \<open>The linked list\<close>

text \<open>Consecutive nodes of \<open>ys\<close> point at each other.\<close>

fun linked :: "nat list \<Rightarrow> nat list \<Rightarrow> nat list \<Rightarrow> bool" where
  "linked nx pv (x # y # zs) \<longleftrightarrow> nx ! x = y \<and> pv ! y = x \<and> linked nx pv (y # zs)"
| "linked nx pv [x] \<longleftrightarrow> True"
| "linked nx pv [] \<longleftrightarrow> True"

lemma linked_Cons: "linked nx pv (x # y # zs) \<longleftrightarrow> nx ! x = y \<and> pv ! y = x \<and> linked nx pv (y # zs)"
  by simp

lemma linked_append: "linked nx pv (xs @ y # zs) \<longleftrightarrow> linked nx pv (xs @ [y]) \<and> linked nx pv (y # zs)"
proof (induction xs)
  case (Cons x xs)
  then show ?case by (cases xs) auto
qed simp

lemma linked_upd_next: "x \<notin> set (butlast ys) \<Longrightarrow> linked (nx[x := v]) pv ys = linked nx pv ys"
  by (induction nx pv ys rule: linked.induct) (auto split: if_splits)

lemma linked_upd_prev: "y \<notin> set (tl ys) \<Longrightarrow> linked nx (pv[y := v]) ys = linked nx pv ys"
  by (induction nx pv ys rule: linked.induct) (auto split: if_splits)

definition lru :: "kstate \<Rightarrow> nat list \<Rightarrow> bool" where
  "lru s xs \<longleftrightarrow> distinct xs \<and> set xs \<subseteq> {0..<NBUF} \<and> length (bnext s) = NBUF + 1 \<and>
     length (bprev s) = NBUF + 1 \<and> linked (bnext s) (bprev s) (HEAD # xs @ [HEAD])"

lemma lru_link_head:
  assumes l: "lru s xs" and b: "b < NBUF" "b \<notin> set xs"
  shows "lru (link_head b s) (b # xs)"
proof -
  obtain h zs where ys: "xs @ [HEAD] = h # zs" by (cases "xs @ [HEAD]") auto
  have nh: "bnext s ! HEAD = h" and link: "linked (bnext s) (bprev s) (h # zs)"
    using l ys by (simp_all add: lru_def)
  have len: "length (bnext s) = NBUF + 1" "length (bprev s) = NBUF + 1" using l by (simp_all add: lru_def)
  have hd: "HEAD \<notin> set xs" using l by (auto simp: lru_def)
  have bh: "b \<noteq> HEAD" using b by simp
  have inb: "b \<notin> set (h # zs)" using b bh unfolding ys[symmetric] by simp
  have dist: "distinct (h # zs)" using l hd unfolding ys[symmetric] by (simp add: lru_def)
  have hlt: "h < NBUF + 1" using l ys by (cases xs) (auto simp: lru_def)
  have but: "set (butlast (h # zs)) = set xs" unfolding ys[symmetric] by simp
  let ?nx = "(bnext s)[b := h, HEAD := b]" and ?pv = "(bprev s)[b := HEAD, h := b]"
  have st: "bnext (link_head b s) = ?nx" "bprev (link_head b s) = ?pv"
    using bh nh len by (simp_all add: link_head_def set_next_def set_prev_def Let_def)
  have "linked ?nx ?pv (h # zs)"
    using link inb dist but b hd
    by (simp add: linked_upd_next linked_upd_prev del: linked.simps butlast.simps)
  then have "linked ?nx ?pv (HEAD # b # h # zs)"
    using bh len hlt inb b by (auto simp: nth_list_update)
  then show ?thesis
    using l b unfolding lru_def st ys[symmetric] by auto
qed

lemma linked_unlink:
  assumes link: "linked nx pv (as @ [p, b, n] @ bs)"
    and p: "p \<notin> set as" "p \<notin> set (butlast (n # bs))"
    and n: "n \<notin> set (tl (as @ [p]))" "n \<notin> set bs"
    and len: "p < length nx" "n < length pv"
  shows "linked (nx[p := n]) (pv[n := p]) (as @ [p, n] @ bs)"
proof -
  have l1: "linked nx pv (as @ [p])" and l2: "linked nx pv (n # bs)"
    using link linked_append[of nx pv as p "b # n # bs"] by auto
  have "linked (nx[p := n]) (pv[n := p]) (as @ [p])"
    using l1 p(1) n(1) by (simp add: linked_upd_next linked_upd_prev)
  moreover have "linked (nx[p := n]) (pv[n := p]) (n # bs)"
    using l2 p(2) n(2) by (simp add: linked_upd_next linked_upd_prev del: butlast.simps)
  ultimately show ?thesis
    using linked_append[of "nx[p := n]" "pv[n := p]" as p "n # bs"] len by simp
qed

lemma lru_unlink:
  assumes l: "lru s (as @ b # bs)"
  shows "lru (unlink b s) (as @ bs)"
proof -
  obtain as' p where p: "HEAD # as = as' @ [p]" by (metis list.distinct(1) rev_exhaust)
  obtain n bs' where n: "bs @ [HEAD] = n # bs'" by (cases "bs @ [HEAD]") auto
  have eq: "HEAD # (as @ b # bs) @ [HEAD] = as' @ [p, b, n] @ bs'"
    using p n by (metis append.assoc append_Cons append_Nil)
  have link: "linked (bnext s) (bprev s) (as' @ [p, b, n] @ bs')"
    using l unfolding lru_def eq by simp
  have ptr: "bnext s ! b = n" "bprev s ! b = p" "bprev s ! n = b"
    using link linked_append[of "bnext s" "bprev s" "as'" p "b # n # bs'"] by auto
  have d: "distinct (as @ b # bs)" "set (as @ b # bs) \<subseteq> {0..<NBUF}"
    and len: "length (bnext s) = NBUF + 1" "length (bprev s) = NBUF + 1"
    using l by (simp_all add: lru_def)
  have hd: "HEAD \<notin> set (as @ b # bs)" using d(2) by auto
  have dl: "distinct (as' @ [p])" using d hd unfolding p[symmetric] by simp
  have dr: "distinct (n # bs')" using d hd unfolding n[symmetric] by simp
  have pin: "p \<in> set (HEAD # as)" unfolding p by simp
  have nin: "n \<in> set (bs @ [HEAD])" unfolding n by simp
  have pn: "p \<notin> set (butlast (n # bs'))" unfolding n[symmetric] using pin d hd by auto
  have np: "n \<notin> set (tl (as' @ [p]))" unfolding p[symmetric] using nin d hd by auto
  have lt: "p < NBUF + 1" "n < NBUF + 1" "b < NBUF + 1" "n \<noteq> b"
    using pin nin d by (auto simp: less_Suc_eq)
  have st: "bnext (unlink b s) = (bnext s)[p := n]" "bprev (unlink b s) = (bprev s)[n := p]"
    using ptr lt by (simp_all add: unlink_def set_next_def set_prev_def Let_def)
  have "linked ((bnext s)[p := n]) ((bprev s)[n := p]) (as' @ [p, n] @ bs')"
    using link dl dr pn np lt len by (intro linked_unlink[where b = b]) simp_all
  moreover have "as' @ [p, n] @ bs' = HEAD # (as @ bs) @ [HEAD]"
    using p n by (metis append.assoc append_Cons append_Nil)
  ultimately show ?thesis using d len unfolding lru_def st by auto
qed

text \<open>The pointer surgery in \<open>brelse\<close> moves a buffer to the front of the list.\<close>

lemma lru_move_front:
  assumes "lru s xs" and "b \<in> set xs"
  shows "lru (link_head b (unlink b s)) (b # remove1 b xs)"
proof -
  obtain as bs where xs: "xs = as @ b # bs" "b \<notin> set as" using assms(2) by (meson split_list_first)
  have "b < NBUF" "b \<notin> set (as @ bs)" using assms xs by (auto simp: lru_def)
  then show ?thesis
    using lru_link_head[OF lru_unlink, of s as b bs b] assms(1) xs by (simp add: remove1_append)
qed

section \<open>Searching the cache\<close>

definition caches :: "kstate \<Rightarrow> uint \<Rightarrow> uint \<Rightarrow> nat \<Rightarrow> bool" where
  "caches s dev bn b \<longleftrightarrow> b_dev (bufs s ! b) = dev \<and> b_blockno (bufs s ! b) = bn"

lemma bget_find_eq:
  "linked (bnext s) (bprev s) (xs @ [HEAD]) \<Longrightarrow> HEAD \<notin> set xs \<Longrightarrow> length xs < fuel \<Longrightarrow>
   bget_find fuel dev bn (hd (xs @ [HEAD])) s = Ret (List.find (caches s dev bn) xs) s"
proof (induction xs arbitrary: fuel)
  case Nil
  then obtain k where "fuel = Suc k" by (cases fuel) auto
  then show ?case by simp
next
  case (Cons x xs)
  then obtain k where k: "fuel = Suc k" by (cases fuel) auto
  have "bnext s ! x = hd (xs @ [HEAD])" "linked (bnext s) (bprev s) (xs @ [HEAD])"
    using Cons.prems(1) by (cases xs; simp)+
  then show ?case using Cons k by (auto simp: caches_def)
qed

lemma bget_lru_eq:
  "linked (bnext s) (bprev s) (HEAD # xs) \<Longrightarrow> HEAD \<notin> set xs \<Longrightarrow> length xs < fuel \<Longrightarrow>
   bget_lru fuel (last (HEAD # xs)) s = Ret (List.find (\<lambda>b. b_refcnt (bufs s ! b) = 0) (rev xs)) s"
proof (induction xs arbitrary: fuel rule: rev_induct)
  case Nil
  then obtain k where "fuel = Suc k" by (cases fuel) auto
  then show ?case by simp
next
  case (snoc x xs)
  then obtain k where k: "fuel = Suc k" by (cases fuel) auto
  obtain ys p where ys: "HEAD # xs = ys @ [p]" by (metis list.distinct(1) rev_exhaust)
  have l: "linked (bnext s) (bprev s) (ys @ p # [x])" using snoc.prems(1) ys
    by (metis append_Cons append_assoc append_Nil)
  then have "bprev s ! x = last (HEAD # xs)" "linked (bnext s) (bprev s) (HEAD # xs)"
    using linked_append[of "bnext s" "bprev s" ys p "[x]"] unfolding ys by simp_all
  moreover have "last (HEAD # xs @ [x]) = x" by simp
  ultimately show ?case using snoc k by (auto simp del: last.simps)
qed

text \<open>
  Well-formedness of the cache: the list holds every buffer once, blocks have \<open>BSIZE\<close> bytes, and
  no block of a real device (device 0 marks a buffer that was never used) is cached twice.
\<close>

definition bcache_inv :: "kstate \<Rightarrow> bool" where
  "bcache_inv s \<longleftrightarrow> (\<exists>xs. lru s xs \<and> set xs = {0..<NBUF}) \<and> length (bufs s) = NBUF \<and>
     (\<forall>i<NBUF. length (b_data (bufs s ! i)) = BSIZE) \<and>
     (\<forall>i<NBUF. \<forall>j<NBUF. b_dev (bufs s ! i) \<noteq> 0 \<and> b_dev (bufs s ! i) = b_dev (bufs s ! j) \<and>
        b_blockno (bufs s ! i) = b_blockno (bufs s ! j) \<longrightarrow> i = j)"

lemma lru_length:
  assumes "lru s xs" and "set xs = {0..<NBUF}" shows "length xs = NBUF"
  using assms distinct_card[of xs] by (simp add: lru_def)

lemma lru_HEAD: "lru s xs \<Longrightarrow> HEAD \<notin> set xs"
  by (auto simp: lru_def)

lemma lru_held [simp]: "lru (s\<lparr>held := h\<rparr>) xs = lru s xs"
  by (simp add: lru_def)

lemma caches_held [simp]: "caches (s\<lparr>held := h\<rparr>) = caches s"
  by (simp add: caches_def fun_eq_iff)

lemma scan_find:
  assumes "lru s xs" and "set xs = {0..<NBUF}"
  shows "bget_find (NBUF + 1) dev bn (bnext s ! HEAD) s = Ret (List.find (caches s dev bn) xs) s"
proof -
  have l: "linked (bnext s) (bprev s) (HEAD # xs @ [HEAD])" using assms(1) by (simp add: lru_def)
  then have "bnext s ! HEAD = hd (xs @ [HEAD])" "linked (bnext s) (bprev s) (xs @ [HEAD])"
    by (cases xs; simp)+
  then show ?thesis
    using bget_find_eq[of s xs "NBUF + 1" dev bn] lru_HEAD[OF assms(1)] lru_length[OF assms] by simp
qed

lemma scan_lru:
  assumes "lru s xs" and "set xs = {0..<NBUF}"
  shows "bget_lru (NBUF + 1) (bprev s ! HEAD) s = Ret (List.find (\<lambda>b. b_refcnt (bufs s ! b) = 0) (rev xs)) s"
proof -
  obtain ys p where ys: "HEAD # xs = ys @ [p]" by (metis list.distinct(1) rev_exhaust)
  have l: "linked (bnext s) (bprev s) (ys @ p # [HEAD])"
    using assms(1) ys unfolding lru_def by (metis append_Cons append_assoc append_Nil)
  then have "bprev s ! HEAD = last (HEAD # xs)" "linked (bnext s) (bprev s) (HEAD # xs)"
    using linked_append[of "bnext s" "bprev s" ys p "[HEAD]"] unfolding ys by simp_all
  then show ?thesis
    using bget_lru_eq[of s xs "NBUF + 1"] lru_HEAD[OF assms(1)] lru_length[OF assms] by (simp del: last.simps)
qed

definition lru_victim :: "kstate \<Rightarrow> nat list \<Rightarrow> nat option" where
  "lru_victim s xs = List.find (\<lambda>b. b_refcnt (bufs s ! b) = 0) (rev xs)"

definition take_hit :: "nat \<Rightarrow> kstate \<Rightarrow> kstate" where
  "take_hit b s = sl_take (SLBuf b) (upd_buf b (\<lambda>bp. bp\<lparr>b_refcnt := b_refcnt bp + 1\<rparr>) s)"

definition take_miss :: "uint \<Rightarrow> uint \<Rightarrow> nat \<Rightarrow> kstate \<Rightarrow> kstate" where
  "take_miss dev bn b s = sl_take (SLBuf b)
     (upd_buf b (\<lambda>bp. bp\<lparr>b_dev := dev, b_blockno := bn, b_valid := False, b_refcnt := 1\<rparr>) s)"

lemma calm_upd_buf [simp]: "calm (upd_buf b f s) = calm s"
  by (simp add: calm_def upd_buf_def)

lemma get_sl_upd_buf:
  "b < length (bufs s) \<Longrightarrow> get_sl (SLBuf b) (upd_buf b f s) = b_lock (f (bufs s ! b))"
  by (simp add: upd_buf_def)

lemma upd_buf_held: "upd_buf b f (s\<lparr>held := h\<rparr>) = (upd_buf b f s)\<lparr>held := h\<rparr>"
  by (simp add: upd_buf_def)

lemma held_upd_buf [simp]: "held (upd_buf b f s) = held s"
  by (simp add: upd_buf_def)

lemma upd_buf_held_same [simp]: "(upd_buf b f s)\<lparr>held := held s\<rparr> = upd_buf b f s"
  by (simp add: upd_buf_def)

lemma bget_eq:
  assumes l: "lru s xs" "set xs = {0..<NBUF}" and len: "length (bufs s) = NBUF"
    and calm: "calm s" and lk: "LBcache \<notin> set (held s)"
    and free: "\<And>b. b < NBUF \<Longrightarrow> caches s dev bn b \<or> b_refcnt (bufs s ! b) = 0 \<Longrightarrow> \<not> sl_locked (b_lock (bufs s ! b))"
  shows "bget dev bn s =
     (case List.find (caches s dev bn) xs of
        Some b \<Rightarrow> Ret b (take_hit b s)
      | None \<Rightarrow> (case lru_victim s xs of
          Some b \<Rightarrow> Ret b (take_miss dev bn b s)
        | None \<Rightarrow> Panic ''bget: no buffers''))"
proof -
  let ?s = "s\<lparr>held := LBcache # held s\<rparr>"
  have find: "bget_find (NBUF + 1) dev bn (bnext ?s ! HEAD) ?s = Ret (List.find (caches s dev bn) xs) ?s"
    using scan_find[of ?s xs dev bn] l by simp
  have lru: "bget_lru (NBUF + 1) (bprev ?s ! HEAD) ?s = Ret (lru_victim s xs) ?s"
    using scan_lru[of ?s xs] l by (simp add: lru_victim_def)
  have tail: "acquiresleep (SLBuf b) (upd_buf b f s) = Ret () (sl_take (SLBuf b) (upd_buf b f s))"
    if "b < NBUF" "caches s dev bn b \<or> b_refcnt (bufs s ! b) = 0" "\<And>x. b_lock (f x) = b_lock x" for b f
    using that calm len free[OF that(1,2)] by (intro acquiresleep_eq) (simp_all add: get_sl_upd_buf del: get_sl.simps)
  show ?thesis
  proof (cases "List.find (caches s dev bn) xs")
    case (Some b)
    then have b: "b < NBUF" "caches s dev bn b" using l find_SomeD[OF Some] by auto
    have "acquiresleep (SLBuf b) (upd_buf b (\<lambda>bp. bp\<lparr>b_refcnt := b_refcnt bp + 1\<rparr>) s) = Ret () (take_hit b s)"
      unfolding take_hit_def by (rule tail) (use b in simp_all)
    then show ?thesis
      using Some lk find by (simp add: bget_def upd_buf_held)
  next
    case None
    show ?thesis
    proof (cases "lru_victim s xs")
      case (Some b)
      then have b: "b < NBUF" "b_refcnt (bufs s ! b) = 0"
        using l find_SomeD[of _ "rev xs" b] unfolding lru_victim_def by auto
      have "acquiresleep (SLBuf b) (upd_buf b (\<lambda>bp. bp\<lparr>b_dev := dev, b_blockno := bn, b_valid := False,
          b_refcnt := 1\<rparr>) s) = Ret () (take_miss dev bn b s)"
        unfolding take_miss_def by (rule tail) (use b in simp_all)
      then show ?thesis
        using None Some lk find lru by (simp add: bget_def upd_buf_held)
    next
      case none: None
      then show ?thesis using None lk find lru by (simp add: bget_def)
    qed
  qed
qed

end
