(* ===== verification/Xv6_Blocks.thy ===== *)
theory Xv6_Blocks
  imports Xv6_Bio
begin

text \<open>
  The contract of the buffer cache (\<^verbatim>\<open>kernel/bio.c\<close>) as its clients use it.  \<open>bio_inv H P s\<close> says
  that the running process holds exactly the buffers \<open>H\<close>, that exactly the buffers \<open>P\<close> are
  pinned, and that every other valid buffer agrees with the disk.  \<open>view\<close> is the contents of a
  block as the kernel sees it.  Every operation is shown to return, to keep the invariant and
  to have the intended effect on the view, the disk and the history of disk writes; the log and
  the file system are verified against these lemmas.
\<close>

section \<open>The invariant and the logical view\<close>

definition buf_ok :: "int \<Rightarrow> (uint \<Rightarrow> bytes) \<Rightarrow> bool \<Rightarrow> bool \<Rightarrow> buf \<Rightarrow> bool" where
  "buf_ok pid dsk h p b \<longleftrightarrow> sl_locked (b_lock b) = h \<and> (h \<longrightarrow> sl_pid (b_lock b) = pid) \<and>
     b_refcnt b = (if h then 1 else 0) + (if p then 1 else 0) \<and> length (b_data b) = BSIZE \<and>
     b_dev b = (if b_valid b then ROOTDEV else 0) \<and> (h \<or> p \<longrightarrow> b_valid b) \<and>
     (\<not> h \<and> \<not> p \<and> b_valid b \<longrightarrow> b_data b = dsk (b_blockno b))"

definition bio_inv :: "nat set \<Rightarrow> nat set \<Rightarrow> kstate \<Rightarrow> bool" where
  "bio_inv H P s \<longleftrightarrow> bcache_inv s \<and> calm s \<and> LBcache \<notin> set (held s) \<and> H \<subseteq> {0..<NBUF} \<and> P \<subseteq> {0..<NBUF} \<and>
     (\<forall>bn. length (disk s bn) = BSIZE) \<and>
     (\<forall>i<NBUF. buf_ok (mypid s) (disk s) (i \<in> H) (i \<in> P) (bufs s ! i))"

definition view :: "kstate \<Rightarrow> uint \<Rightarrow> bytes" where
  "view s bn = (case List.find (caches s ROOTDEV bn) [0..<NBUF] of
     Some i \<Rightarrow> b_data (bufs s ! i) | None \<Rightarrow> disk s bn)"

text \<open>The part of the state that no operation of the cache changes (waking a sleeper aside).\<close>

definition bio_rest :: "kstate \<Rightarrow> kstate" where
  "bio_rest s = s\<lparr>bufs := [], bnext := [], bprev := [], disk := (\<lambda>_. []), dwrites := [],
     procs := map (\<lambda>q. q\<lparr>p_state := UNUSED\<rparr>) (procs s)\<rparr>"

lemma bio_rest_sel [simp]:
  "held (bio_rest s) = held s"
  "mem (bio_rest s) = mem s"
  "k_end (bio_rest s) = k_end s"
  "freelist (bio_rest s) = freelist s"
  "curproc (bio_rest s) = curproc s"
  "initproc (bio_rest s) = initproc s"
  "nextpid (bio_rest s) = nextpid s"
  "ticks (bio_rest s) = ticks s"
  "sb (bio_rest s) = sb s"
  "logs (bio_rest s) = logs s"
  "itable (bio_rest s) = itable s"
  "ftable (bio_rest s) = ftable s"
  "devsw (bio_rest s) = devsw s"
  "pipes (bio_rest s) = pipes s"
  "cons (bio_rest s) = cons s"
  "uart (bio_rest s) = uart s"
  "procs (bio_rest s) = map (\<lambda>q. q\<lparr>p_state := UNUSED\<rparr>) (procs s)"
  by (simp_all add: bio_rest_def)

lemma bio_rest_fields:
  assumes "bio_rest t = bio_rest s"
  shows "held t = held s"
    "mem t = mem s"
    "k_end t = k_end s"
    "freelist t = freelist s"
    "curproc t = curproc s"
    "initproc t = initproc s"
    "nextpid t = nextpid s"
    "ticks t = ticks s"
    "sb t = sb s"
    "logs t = logs s"
    "itable t = itable s"
    "ftable t = ftable s"
    "devsw t = devsw s"
    "pipes t = pipes s"
    "cons t = cons s"
    "uart t = uart s"
    "map (\<lambda>q. q\<lparr>p_state := UNUSED\<rparr>) (procs t) = map (\<lambda>q. q\<lparr>p_state := UNUSED\<rparr>) (procs s)"
  using arg_cong[OF assms, of held]
    arg_cong[OF assms, of mem]
    arg_cong[OF assms, of k_end]
    arg_cong[OF assms, of freelist]
    arg_cong[OF assms, of curproc]
    arg_cong[OF assms, of initproc]
    arg_cong[OF assms, of nextpid]
    arg_cong[OF assms, of ticks]
    arg_cong[OF assms, of sb]
    arg_cong[OF assms, of logs]
    arg_cong[OF assms, of itable]
    arg_cong[OF assms, of ftable]
    arg_cong[OF assms, of devsw]
    arg_cong[OF assms, of pipes]
    arg_cong[OF assms, of cons]
    arg_cong[OF assms, of uart]
    arg_cong[OF assms, of procs]
  by (simp_all only: bio_rest_sel)

lemma bio_rest_nprocs: "bio_rest t = bio_rest s \<Longrightarrow> length (procs t) = length (procs s)"
  using arg_cong[OF bio_rest_fields(17), of t s length] by simp

lemma bio_rest_proc:
  assumes "bio_rest t = bio_rest s" and "i < length (procs s)"
  shows "(procs t ! i)\<lparr>p_state := UNUSED\<rparr> = (procs s ! i)\<lparr>p_state := UNUSED\<rparr>"
  using bio_rest_nprocs[OF assms(1)] assms(2) arg_cong[OF bio_rest_fields(17)[OF assms(1)], of "\<lambda>l. l ! i"]
  by simp

lemma bio_rest_calm: "bio_rest t = bio_rest s \<Longrightarrow> calm t = calm s"
  using bio_rest_fields(1,5)[of t s] bio_rest_nprocs[of t s] by (simp add: calm_def)

lemma bio_rest_mypid:
  assumes "bio_rest t = bio_rest s" and "calm s" shows "mypid t = mypid s"
proof -
  obtain p where p: "curproc s = Some p" "p < length (procs s)" using assms(2) by (auto simp: calm_def)
  have "p_pid ((procs t ! p)\<lparr>p_state := UNUSED\<rparr>) = p_pid ((procs s ! p)\<lparr>p_state := UNUSED\<rparr>)"
    using bio_rest_proc[OF assms(1) p(2)] by simp
  then show ?thesis using p bio_rest_fields(5)[OF assms(1)] by (simp add: mypid_def)
qed

lemma bio_rest_upd [simp]:
  "bio_rest (s\<lparr>bufs := x\<rparr>) = bio_rest s" "bio_rest (s\<lparr>bnext := n\<rparr>) = bio_rest s"
  "bio_rest (s\<lparr>bprev := n\<rparr>) = bio_rest s" "bio_rest (s\<lparr>disk := d\<rparr>) = bio_rest s"
  "bio_rest (s\<lparr>dwrites := w\<rparr>) = bio_rest s"
  by (simp_all add: bio_rest_def)

lemma bio_rest_set_ptr [simp]: "bio_rest (set_next i v s) = bio_rest s" "bio_rest (set_prev i v s) = bio_rest s"
  by (simp_all add: set_next_def set_prev_def)

lemma bio_rest_link [simp]: "bio_rest (link_head b s) = bio_rest s" "bio_rest (unlink b s) = bio_rest s"
  by (simp_all add: link_head_def unlink_def Let_def)

lemma bio_rest_woken [simp]: "bio_rest (woken ch s) = bio_rest s"
proof -
  have "map (\<lambda>q. q\<lparr>p_state := UNUSED\<rparr>) (procs (woken ch s)) = map (\<lambda>q. q\<lparr>p_state := UNUSED\<rparr>) (procs s)"
    by (rule nth_equalityI) (simp_all add: nth_woken wake1_def)
  then show ?thesis by (simp add: bio_rest_def woken_def)
qed

lemma bio_inv_buf: "bio_inv H P s \<Longrightarrow> i < NBUF \<Longrightarrow> buf_ok (mypid s) (disk s) (i \<in> H) (i \<in> P) (bufs s ! i)"
  by (simp add: bio_inv_def)

lemma bio_inv_unique:
  assumes "bio_inv H P s" "i < NBUF" "j < NBUF" "caches s ROOTDEV bn i" "caches s ROOTDEV bn j"
  shows "i = j"
  using assms unfolding bio_inv_def bcache_inv_def caches_def by simp

lemma view_cached:
  assumes "bio_inv H P s" and "i < NBUF" and "caches s ROOTDEV bn i"
  shows "view s bn = b_data (bufs s ! i)"
proof (cases "List.find (caches s ROOTDEV bn) [0..<NBUF]")
  case None
  then show ?thesis using assms by (auto simp: find_None_iff)
next
  case (Some j)
  then have "j = i" using find_SomeD[OF Some] assms by (intro bio_inv_unique[OF assms(1)]) auto
  then show ?thesis using Some by (simp add: view_def)
qed

lemma view_uncached: "(\<And>i. i < NBUF \<Longrightarrow> \<not> caches s ROOTDEV bn i) \<Longrightarrow> view s bn = disk s bn"
  using find_None_iff[of "caches s ROOTDEV bn" "[0..<NBUF]"] by (simp add: view_def)

text \<open>Two states agree on the view of a block that they cache in the same way.\<close>

lemma view_cong:
  assumes "bio_inv H P s" and "bio_inv H' P' t"
    and "\<And>i. i < NBUF \<Longrightarrow> caches s ROOTDEV bn i \<Longrightarrow> caches t ROOTDEV bn i \<and> b_data (bufs t ! i) = b_data (bufs s ! i)"
    and "\<And>i. i < NBUF \<Longrightarrow> \<not> caches s ROOTDEV bn i \<Longrightarrow> caches t ROOTDEV bn i \<Longrightarrow> b_data (bufs t ! i) = view s bn"
    and "(\<And>i. i < NBUF \<Longrightarrow> \<not> caches s ROOTDEV bn i) \<Longrightarrow> (\<And>i. i < NBUF \<Longrightarrow> \<not> caches t ROOTDEV bn i) \<Longrightarrow> disk t bn = disk s bn"
  shows "view t bn = view s bn"
proof (cases "\<exists>i<NBUF. caches s ROOTDEV bn i")
  case True
  then obtain i where i: "i < NBUF" "caches s ROOTDEV bn i" by blast
  show ?thesis using view_cached[OF assms(1) i] view_cached[OF assms(2) i(1)] assms(3)[OF i] by simp
next
  case s: False
  show ?thesis
  proof (cases "\<exists>i<NBUF. caches t ROOTDEV bn i")
    case True
    then obtain i where i: "i < NBUF" "caches t ROOTDEV bn i" by blast
    show ?thesis using view_cached[OF assms(2) i] assms(4)[OF i(1) _ i(2)] s i by auto
  next
    case False
    show ?thesis
      using view_uncached[of s bn] view_uncached[of t bn] assms(5) s False by auto
  qed
qed

section \<open>Replacing a buffer\<close>

lemma bio_inv_dev: "bio_inv H P s \<Longrightarrow> i < NBUF \<Longrightarrow> b_dev (bufs s ! i) = (if b_valid (bufs s ! i) then ROOTDEV else 0)"
  using bio_inv_buf[of H P s i] by (simp add: buf_ok_def)

lemma caches_iff:
  "bio_inv H P s \<Longrightarrow> i < NBUF \<Longrightarrow> caches s ROOTDEV bn i \<longleftrightarrow> b_valid (bufs s ! i) \<and> b_blockno (bufs s ! i) = bn"
  using bio_inv_dev[of H P s i] by (auto simp: caches_def)

lemma bio_inv_lru: "bio_inv H P s \<Longrightarrow> \<exists>xs. lru s xs \<and> set xs = {0..<NBUF}"
  by (simp add: bio_inv_def bcache_inv_def)

lemma bio_inv_sub: "bio_inv H P s \<Longrightarrow> H \<subseteq> {0..<NBUF} \<and> P \<subseteq> {0..<NBUF}"
  by (simp add: bio_inv_def)

lemma bio_inv_basic:
  assumes "bio_inv H P s"
  shows "calm s" "LBcache \<notin> set (held s)" "length (bufs s) = NBUF" "length (disk s bn) = BSIZE"
  using assms by (simp_all add: bio_inv_def bcache_inv_def)

lemma bio_invI:
  assumes lru: "\<exists>xs. lru s xs \<and> set xs = {0..<NBUF}" and len: "length (bufs s) = NBUF"
    and basic: "calm s" "LBcache \<notin> set (held s)" "H \<subseteq> {0..<NBUF}" "P \<subseteq> {0..<NBUF}" "\<And>bn. length (disk s bn) = BSIZE"
    and ok: "\<And>i. i < NBUF \<Longrightarrow> buf_ok (mypid s) (disk s) (i \<in> H) (i \<in> P) (bufs s ! i)"
    and uq: "\<And>i j. i < NBUF \<Longrightarrow> j < NBUF \<Longrightarrow> b_valid (bufs s ! i) \<Longrightarrow> b_valid (bufs s ! j) \<Longrightarrow>
      b_blockno (bufs s ! i) = b_blockno (bufs s ! j) \<Longrightarrow> i = j"
  shows "bio_inv H P s"
proof -
  have dev: "b_dev (bufs s ! i) \<noteq> 0 \<longleftrightarrow> b_valid (bufs s ! i)" "length (b_data (bufs s ! i)) = BSIZE" if "i < NBUF" for i
    using ok[OF that] by (auto simp: buf_ok_def)
  have "bcache_inv s"
    unfolding bcache_inv_def
  proof (intro conjI allI impI)
    fix i j assume ij: "i < NBUF" "j < NBUF" "b_dev (bufs s ! i) \<noteq> 0 \<and> b_dev (bufs s ! i) = b_dev (bufs s ! j) \<and>
        b_blockno (bufs s ! i) = b_blockno (bufs s ! j)"
    then show "i = j" using uq[OF ij(1,2)] dev(1)[OF ij(1)] dev(1)[OF ij(2)] by simp
  qed (use lru len dev(2) in blast)+
  then show ?thesis using basic ok unfolding bio_inv_def by blast
qed

lemma bio_inv_upd:
  assumes inv: "bio_inv H P s" and b: "b < NBUF"
    and ok: "buf_ok (mypid s) (disk s) (b \<in> H') (b \<in> P') nb"
    and sets: "H' - {b} = H - {b}" "P' - {b} = P - {b}"
    and uniq: "\<And>i. i < NBUF \<Longrightarrow> i \<noteq> b \<Longrightarrow> b_valid nb \<Longrightarrow> \<not> caches s ROOTDEV (b_blockno nb) i"
  shows "bio_inv H' P' (s\<lparr>bufs := (bufs s)[b := nb]\<rparr>)"
proof (rule bio_invI)
  let ?t = "s\<lparr>bufs := (bufs s)[b := nb]\<rparr>"
  have pid: "mypid ?t = mypid s" by (simp add: mypid_def split: option.split)
  note len = bio_inv_basic(3)[OF inv]
  have nb: "bufs ?t ! i = (if i = b then nb else bufs s ! i)" if "i < NBUF" for i
    using that b len by simp
  have mem: "i \<noteq> b \<Longrightarrow> (i \<in> H') = (i \<in> H) \<and> (i \<in> P') = (i \<in> P)" for i using sets by blast
  show "buf_ok (mypid ?t) (disk ?t) (i \<in> H') (i \<in> P') (bufs ?t ! i)" if "i < NBUF" for i
    using bio_inv_buf[OF inv that] ok mem[of i] nb[OF that] pid by (cases "i = b") simp_all
  have lru: "lru ?t xs = lru s xs" for xs by (simp add: lru_def)
  show "\<exists>xs. lru ?t xs \<and> set xs = {0..<NBUF}" unfolding lru by (rule bio_inv_lru[OF inv])
  show "i = j" if ij: "i < NBUF" "j < NBUF" and v: "b_valid (bufs ?t ! i)" "b_valid (bufs ?t ! j)"
    and e: "b_blockno (bufs ?t ! i) = b_blockno (bufs ?t ! j)" for i j
  proof (rule ccontr)
    assume ne: "i \<noteq> j"
    have c: "caches s ROOTDEV (b_blockno (bufs ?t ! k)) k" if "k < NBUF" "k \<noteq> b" "b_valid (bufs ?t ! k)" for k
      using that nb[of k] caches_iff[OF inv that(1)] by simp
    consider "i = b" | "j = b" | "i \<noteq> b" "j \<noteq> b" by blast
    then show False
    proof cases
      case 1 then show ?thesis using uniq[of j] c[of j] ij v e ne nb[of b] b by auto
    next
      case 2 then show ?thesis using uniq[of i] c[of i] ij v e ne nb[of b] b by auto
    next
      case 3 then show ?thesis using bio_inv_unique[OF inv ij, of "b_blockno (bufs ?t ! i)"] c[of i] c[of j] ij v e ne by simp
    qed
  qed
  have "H' \<subseteq> insert b H" "P' \<subseteq> insert b P" using sets by blast+
  then show "H' \<subseteq> {0..<NBUF}" "P' \<subseteq> {0..<NBUF}" using bio_inv_sub[OF inv] b by auto
qed (use bio_inv_basic[OF inv] in \<open>simp_all add: calm_def\<close>)

lemma view_upd:
  assumes inv: "bio_inv H P s" and b: "b < NBUF" "b_valid nb" and inv': "bio_inv H' P' (s\<lparr>bufs := (bufs s)[b := nb]\<rparr>)"
    and old: "b \<in> H \<union> P \<Longrightarrow> b_blockno nb = b_blockno (bufs s ! b)"
  shows "view (s\<lparr>bufs := (bufs s)[b := nb]\<rparr>) = (view s)(b_blockno nb := b_data nb)"
proof
  fix bn
  let ?t = "s\<lparr>bufs := (bufs s)[b := nb]\<rparr>"
  have len: "length (bufs s) = NBUF" using inv by (simp add: bio_inv_def bcache_inv_def)
  have nb: "bufs ?t ! i = (if i = b then nb else bufs s ! i)" if "i < NBUF" for i
    using that b len by simp
  have dev: "b_dev nb = ROOTDEV"
    using bio_inv_buf[OF inv' b(1)] b nb[OF b(1)] by (simp add: buf_ok_def)
  show "view ?t bn = ((view s)(b_blockno nb := b_data nb)) bn"
  proof (cases "bn = b_blockno nb")
    case True
    then show ?thesis using view_cached[OF inv' b(1)] nb[OF b(1)] dev by (simp add: caches_def)
  next
    case False
    show ?thesis
    proof (cases "caches s ROOTDEV bn b")
      case True
      then have "b \<notin> H \<union> P" using old False by (auto simp: caches_def)
      then have "b_data (bufs s ! b) = disk s bn" "view s bn = b_data (bufs s ! b)"
        using bio_inv_buf[OF inv b(1)] True view_cached[OF inv b(1) True]
        by (auto simp: buf_ok_def caches_def split: if_splits)
      moreover have "\<not> caches ?t ROOTDEV bn i" if "i < NBUF" for i
      proof
        assume c: "caches ?t ROOTDEV bn i"
        then have ne: "i \<noteq> b" using nb[OF that] False by (auto simp: caches_def)
        then have "caches s ROOTDEV bn i" using c nb[OF that] by (simp add: caches_def)
        then show False using bio_inv_unique[OF inv that b(1) _ True] ne by blast
      qed
      ultimately show ?thesis using False view_uncached[of ?t bn] by simp
    next
      case nc: False
      have "view ?t bn = view s bn"
        using nc False nb by (intro view_cong[OF inv inv']) (auto simp: caches_def split: if_splits)
      then show ?thesis using False by simp
    qed
  qed
qed

section \<open>Reading a block\<close>

definition my_lock :: "kstate \<Rightarrow> sleeplock" where
  "my_lock s = \<lparr>sl_locked = True, sl_pid = mypid s\<rparr>"

definition hit_buf :: "kstate \<Rightarrow> nat \<Rightarrow> buf" where
  "hit_buf s b = (bufs s ! b)\<lparr>b_refcnt := b_refcnt (bufs s ! b) + 1, b_lock := my_lock s\<rparr>"

definition fill_buf :: "kstate \<Rightarrow> uint \<Rightarrow> nat \<Rightarrow> buf" where
  "fill_buf s bn b = (bufs s ! b)\<lparr>b_dev := ROOTDEV, b_blockno := bn, b_refcnt := 1, b_lock := my_lock s,
     b_data := disk s bn, b_valid := True\<rparr>"

lemma sleeplock_upd2: "(l :: sleeplock)\<lparr>sl_locked := a, sl_pid := p\<rparr> = \<lparr>sl_locked = a, sl_pid = p\<rparr>"
  by (cases l) simp

lemma sl_take_buf:
  "b < length (bufs s) \<Longrightarrow> sl_take (SLBuf b) (upd_buf b f s) =
     s\<lparr>bufs := (bufs s)[b := (f (bufs s ! b))\<lparr>b_lock := my_lock s\<rparr>]\<rparr>"
  by (simp add: sl_take_def upd_buf_def mypid_def my_lock_def sleeplock_upd2 split: option.split)

lemma unheld_iff: "bio_inv H P s \<Longrightarrow> i < NBUF \<Longrightarrow> b_refcnt (bufs s ! i) = 0 \<longleftrightarrow> i \<notin> H \<and> i \<notin> P"
  using bio_inv_buf[of H P s i] by (auto simp: buf_ok_def)

lemma bread_eq:
  assumes inv: "bio_inv H P s" and nh: "\<And>i. i \<in> H \<Longrightarrow> \<not> caches s ROOTDEV bn i" and xs: "lru s xs" "set xs = {0..<NBUF}"
  shows "bread ROOTDEV bn s = (case List.find (caches s ROOTDEV bn) xs of
      Some b \<Rightarrow> Ret b (s\<lparr>bufs := (bufs s)[b := hit_buf s b]\<rparr>)
    | None \<Rightarrow> (case lru_victim s xs of
        Some b \<Rightarrow> Ret b (s\<lparr>bufs := (bufs s)[b := fill_buf s bn b]\<rparr>)
      | None \<Rightarrow> Panic ''bget: no buffers''))"
proof -
  note len = bio_inv_basic(3)[OF inv]
  have free: "\<not> sl_locked (b_lock (bufs s ! b))"
    if "b < NBUF" "caches s ROOTDEV bn b \<or> b_refcnt (bufs s ! b) = 0" for b
    using that bio_inv_buf[OF inv that(1)] nh[of b] unheld_iff[OF inv that(1)]
    by (auto simp: buf_ok_def)
  note bg = bget_eq[OF xs len bio_inv_basic(1,2)[OF inv] free]
  show ?thesis
  proof (cases "List.find (caches s ROOTDEV bn) xs")
    case (Some b)
    then have b: "b < NBUF" "caches s ROOTDEV bn b" using find_SomeD[OF Some] xs by auto
    then have v: "b_valid (bufs s ! b)" using caches_iff[OF inv] by simp
    have "take_hit b s = s\<lparr>bufs := (bufs s)[b := hit_buf s b]\<rparr>"
      using b len by (simp add: take_hit_def sl_take_buf hit_buf_def)
    then show ?thesis using Some bg b v len by (simp add: bread_def hit_buf_def)
  next
    case None
    show ?thesis
    proof (cases "lru_victim s xs")
      case (Some b)
      then have b: "b < NBUF" using find_SomeD[of _ "rev xs" b] xs unfolding lru_victim_def by auto
      have t: "take_miss ROOTDEV bn b s = s\<lparr>bufs := (bufs s)[b := (bufs s ! b)\<lparr>b_dev := ROOTDEV, b_blockno := bn,
          b_valid := False, b_refcnt := 1, b_lock := my_lock s\<rparr>]\<rparr>"
        using b len by (simp add: take_miss_def sl_take_buf)
      have "bget ROOTDEV bn s = Ret b (take_miss ROOTDEV bn b s)" using None Some bg by simp
      then show ?thesis
        unfolding bread_def fill_buf_def t using None Some b len by (simp add: virtio_disk_rw_def upd_buf_def)
    next
      case none: None
      then show ?thesis using None bg by (simp add: bread_def)
    qed
  qed
qed

lemma room_victim:
  assumes inv: "bio_inv H P s" and room: "card (H \<union> P) < NBUF" and xs: "set xs = {0..<NBUF}"
  shows "\<exists>b. lru_victim s xs = Some b \<and> b < NBUF \<and> b \<notin> H \<union> P"
proof -
  have "H \<union> P \<noteq> {0..<NBUF}" using room by auto
  then obtain i where i: "i < NBUF" "i \<notin> H \<union> P" using bio_inv_sub[OF inv] by fastforce
  then have "lru_victim s xs \<noteq> None"
    using xs unheld_iff[OF inv i(1)] unfolding lru_victim_def find_None_iff by auto
  then obtain b where b: "lru_victim s xs = Some b" by auto
  then have "b < NBUF" "b_refcnt (bufs s ! b) = 0"
    using find_SomeD[of _ "rev xs" b] xs unfolding lru_victim_def by auto
  then show ?thesis using b unheld_iff[OF inv] by simp
qed

text \<open>
  \<open>bread\<close> of a block the caller does not already hold returns a locked buffer with the current
  contents of the block.
\<close>

lemma bread_spec:
  assumes inv: "bio_inv H P s" and nh: "\<And>i. i \<in> H \<Longrightarrow> \<not> caches s ROOTDEV bn i"
    and room: "card (H \<union> P) < NBUF \<or> (\<exists>i<NBUF. caches s ROOTDEV bn i)"
  shows "\<exists>b t. bread ROOTDEV bn s = Ret b t \<and> b < NBUF \<and> b \<notin> H \<and> bio_inv (insert b H) P t \<and>
     b_blockno (bufs t ! b) = bn \<and> b_data (bufs t ! b) = view s bn \<and> view t = view s \<and>
     (\<forall>i\<in>H \<union> P. b_blockno (bufs t ! i) = b_blockno (bufs s ! i) \<and> b_data (bufs t ! i) = b_data (bufs s ! i)) \<and>
     (b \<in> P \<longleftrightarrow> (\<exists>i\<in>P. b_blockno (bufs s ! i) = bn)) \<and>
     disk t = disk s \<and> dwrites t = dwrites s \<and> bio_rest t = bio_rest s"
proof -
  obtain xs where xs: "lru s xs" "set xs = {0..<NBUF}" using bio_inv_lru[OF inv] by blast
  note eq = bread_eq[OF inv nh xs] and len = bio_inv_basic(3)[OF inv]
  show ?thesis
  proof (cases "List.find (caches s ROOTDEV bn) xs")
    case (Some b)
    then have b: "b < NBUF" "caches s ROOTDEV bn b" using find_SomeD[OF Some] xs by auto
    let ?t = "s\<lparr>bufs := (bufs s)[b := hit_buf s b]\<rparr>"
    have bH: "b \<notin> H" using nh[of b] b by blast
    have ok: "buf_ok (mypid s) (disk s) (b \<in> insert b H) (b \<in> P) (hit_buf s b)"
      using bio_inv_buf[OF inv b(1)] bH caches_iff[OF inv b(1)] b(2) by (auto simp: buf_ok_def hit_buf_def my_lock_def)
    have bn: "b_blockno (hit_buf s b) = bn" "b_data (hit_buf s b) = b_data (bufs s ! b)" "b_valid (hit_buf s b)"
      using b caches_iff[OF inv b(1), of bn] by (simp_all add: hit_buf_def)
    have inv': "bio_inv (insert b H) P ?t"
      using bio_inv_unique[OF inv _ b(1) _ b(2)] bn by (intro bio_inv_upd[OF inv b(1) ok]) auto
    have old: "b_blockno (hit_buf s b) = b_blockno (bufs s ! b)" by (simp add: hit_buf_def)
    have v: "view ?t = (view s)(bn := b_data (bufs s ! b))"
      using view_upd[OF inv b(1) bn(3) inv' old] bn by simp
    have vb: "view s bn = b_data (bufs s ! b)" by (rule view_cached[OF inv b])
    have pin: "b \<in> P \<longleftrightarrow> (\<exists>i\<in>P. b_blockno (bufs s ! i) = bn)"
    proof
      assume "\<exists>i\<in>P. b_blockno (bufs s ! i) = bn"
      then obtain i where i: "i \<in> P" "b_blockno (bufs s ! i) = bn" by blast
      have "i < NBUF" using i bio_inv_sub[OF inv] by auto
      then have "caches s ROOTDEV bn i" using i bio_inv_buf[OF inv, of i] caches_iff[OF inv, of i] by (simp add: buf_ok_def)
      then have "i = b" using bio_inv_unique[OF inv \<open>i < NBUF\<close> b(1) _ b(2)] by simp
      then show "b \<in> P" using i by simp
    qed (use b in \<open>auto simp: caches_def\<close>)
    have nth: "bufs ?t ! i = (if i = b then hit_buf s b else bufs s ! i)" for i
      using b(1) len by simp
    show ?thesis
      by (rule exI[of _ b], rule exI[of _ ?t])
        (use Some eq b(1) bH inv' bn v vb pin nth old in \<open>simp add: fun_upd_idem_iff\<close>)
  next
    case None
    then have nc: "\<not> caches s ROOTDEV bn i" if "i < NBUF" for i
      using that xs by (auto simp: find_None_iff)
    then have "card (H \<union> P) < NBUF" using room by blast
    from room_victim[OF inv this xs(2)] obtain b where
      b: "lru_victim s xs = Some b" "b < NBUF" "b \<notin> H \<union> P" by blast
    let ?t = "s\<lparr>bufs := (bufs s)[b := fill_buf s bn b]\<rparr>"
    have ok: "buf_ok (mypid s) (disk s) (b \<in> insert b H) (b \<in> P) (fill_buf s bn b)"
      using b(3) bio_inv_basic(4)[OF inv] by (simp add: buf_ok_def fill_buf_def my_lock_def)
    have bn: "b_blockno (fill_buf s bn b) = bn" "b_data (fill_buf s bn b) = disk s bn" "b_valid (fill_buf s bn b)"
      by (simp_all add: fill_buf_def)
    have inv': "bio_inv (insert b H) P ?t"
      using nc bn by (intro bio_inv_upd[OF inv b(2) ok]) auto
    have v: "view ?t = (view s)(bn := disk s bn)"
      using view_upd[OF inv b(2) bn(3) inv'] b(3) bn by simp
    have vb: "view s bn = disk s bn" using view_uncached nc by blast
    have pin: "\<not> (\<exists>i\<in>P. b_blockno (bufs s ! i) = bn)"
    proof
      assume "\<exists>i\<in>P. b_blockno (bufs s ! i) = bn"
      then obtain i where i: "i \<in> P" "b_blockno (bufs s ! i) = bn" by blast
      have "i < NBUF" using i bio_inv_sub[OF inv] by auto
      then show False using nc[of i] i bio_inv_buf[OF inv, of i] caches_iff[OF inv, of i] by (simp add: buf_ok_def)
    qed
    have nth: "bufs ?t ! i = (if i = b then fill_buf s bn b else bufs s ! i)" for i
      using b(2) len by simp
    show ?thesis
      by (rule exI[of _ b], rule exI[of _ ?t])
        (use None b eq inv' bn v vb pin nth in \<open>auto simp add: fun_upd_idem_iff\<close>)
  qed
qed

section \<open>Writing, releasing and pinning\<close>

lemma held_holding: "bio_inv H P s \<Longrightarrow> b \<in> H \<Longrightarrow> holdingsleep (SLBuf b) s = Ret True s"
  using holdingsleep_eq[of s "SLBuf b"] bio_inv_basic(1)[of H P s] bio_inv_buf[of H P s b] bio_inv_sub[of H P s]
  by (auto simp: buf_ok_def)

lemma not_held_holding: "bio_inv H P s \<Longrightarrow> b < NBUF \<Longrightarrow> b \<notin> H \<Longrightarrow> holdingsleep (SLBuf b) s = Ret False s"
  using holdingsleep_eq[of s "SLBuf b"] bio_inv_basic(1)[of H P s] bio_inv_buf[of H P s b]
  by (auto simp: buf_ok_def)

lemma mypid_woken_calm: "calm s \<Longrightarrow> mypid (woken ch s) = mypid s"
  by (rule bio_rest_mypid) simp_all

text \<open>The cache's own state may be relinked and sleepers woken without affecting the invariant.\<close>

lemma bio_inv_transfer:
  assumes "bio_inv H P s" and "bio_rest t = bio_rest s" "bufs t = bufs s" "disk t = disk s"
    and "\<exists>xs. lru t xs \<and> set xs = {0..<NBUF}"
  shows "bio_inv H P t"
proof (rule bio_invI)
  note fr = bio_rest_calm[OF assms(2)] bio_rest_mypid[OF assms(2) bio_inv_basic(1)[OF assms(1)]]
    bio_rest_fields(1)[OF assms(2)]
  show "buf_ok (mypid t) (disk t) (i \<in> H) (i \<in> P) (bufs t ! i)" if "i < NBUF" for i
    using bio_inv_buf[OF assms(1) that] fr assms by simp
  show "i = j" if "i < NBUF" "j < NBUF" "b_valid (bufs t ! i)" "b_valid (bufs t ! j)"
    "b_blockno (bufs t ! i) = b_blockno (bufs t ! j)" for i j
    using that caches_iff[OF assms(1)] bio_inv_unique[OF assms(1) that(1,2)] assms(3) by simp
  show "calm t" "LBcache \<notin> set (held t)" using fr bio_inv_basic[OF assms(1)] by simp_all
qed (use bio_inv_basic[OF assms(1)] bio_inv_sub[OF assms(1)] assms in simp_all)

lemma view_transfer: "bufs t = bufs s \<Longrightarrow> disk t = disk s \<Longrightarrow> view t = view s"
proof -
  assume "bufs t = bufs s" "disk t = disk s"
  moreover from this have "caches t = caches s" by (simp add: caches_def fun_eq_iff)
  ultimately show "view t = view s" by (intro ext) (simp add: view_def split: option.split)
qed

lemma bwrite_spec:
  assumes inv: "bio_inv H P s" and b: "b \<in> H"
  defines "bn \<equiv> b_blockno (bufs s ! b)" and "d \<equiv> b_data (bufs s ! b)"
  defines "t \<equiv> s\<lparr>disk := (disk s)(bn := d), dwrites := dwrites s @ [(bn, d)]\<rparr>"
  shows "bwrite b s = Ret () t" and "bio_inv H P t" and "view t = view s"
proof -
  have bl: "b < NBUF" using b bio_inv_sub[OF inv] by auto
  show "bwrite b s = Ret () t"
    by (simp add: bwrite_def held_holding[OF inv b] virtio_disk_rw_def t_def bn_def d_def)
  have c: "caches s ROOTDEV bn b" using bio_inv_buf[OF inv bl] b by (simp add: caches_def bn_def buf_ok_def)
  have pid: "mypid t = mypid s" by (simp add: mypid_def t_def split: option.split)
  have dlen: "length d = BSIZE" using bio_inv_buf[OF inv bl] by (simp add: buf_ok_def d_def)
  have other: "b_blockno (bufs s ! i) \<noteq> bn" if "i < NBUF" "b_valid (bufs s ! i)" "i \<noteq> b" for i
    using that caches_iff[OF inv that(1), of bn] bio_inv_unique[OF inv that(1) bl _ c] by blast
  show inv': "bio_inv H P t"
  proof (rule bio_invI)
    show "\<exists>xs. lru t xs \<and> set xs = {0..<NBUF}" using bio_inv_lru[OF inv] by (simp add: t_def lru_def)
    show "buf_ok (mypid t) (disk t) (i \<in> H) (i \<in> P) (bufs t ! i)" if "i < NBUF" for i
      using bio_inv_buf[OF inv that] b other[OF that] pid by (cases "i = b") (auto simp: buf_ok_def t_def)
    show "i = j" if "i < NBUF" "j < NBUF" "b_valid (bufs t ! i)" "b_valid (bufs t ! j)"
      "b_blockno (bufs t ! i) = b_blockno (bufs t ! j)" for i j
      using that caches_iff[OF inv] bio_inv_unique[OF inv that(1,2)] by (simp add: t_def)
  qed (use bio_inv_basic[OF inv] bio_inv_sub[OF inv] dlen in \<open>simp_all add: t_def calm_def\<close>)
  have ct: "caches t = caches s" by (simp add: t_def caches_def fun_eq_iff)
  show "view t = view s"
  proof
    fix k show "view t k = view s k"
      by (rule view_cong[OF inv inv'])
        (use ct c bl in \<open>auto simp: t_def\<close>)
  qed
qed

definition released_buf :: "kstate \<Rightarrow> nat \<Rightarrow> buf" where
  "released_buf s b = (bufs s ! b)\<lparr>b_lock := \<lparr>sl_locked = False, sl_pid = 0\<rparr>,
     b_refcnt := b_refcnt (bufs s ! b) - 1\<rparr>"

lemma upd_buf_woken: "upd_buf b f (woken ch s) = woken ch (upd_buf b f s)"
  by (rule kstate.equality) (simp_all add: upd_buf_def woken_def)

lemma held_id: "held r = h \<Longrightarrow> r\<lparr>held := h\<rparr> = r"
  by auto

lemma brelse_eq:
  assumes inv: "bio_inv H P s" and b: "b \<in> H"
  defines "t \<equiv> woken (ChSleeplock (SLBuf b)) (s\<lparr>bufs := (bufs s)[b := released_buf s b]\<rparr>)"
  shows "brelse b s = Ret () (if b_refcnt (released_buf s b) = 0 then link_head b (unlink b t) else t)"
proof -
  note len = bio_inv_basic(3)[OF inv] and lk = bio_inv_basic(2)[OF inv]
  have bl: "b < NBUF" using b bio_inv_sub[OF inv] by auto
  let ?u = "woken (ChSleeplock (SLBuf b)) (sl_drop (SLBuf b) s)"
  have dec: "upd_buf b (\<lambda>bp. bp\<lparr>b_refcnt := b_refcnt bp - 1\<rparr>) ?u = t"
    using bl len unfolding upd_buf_woken t_def
    by (simp add: sl_drop_def upd_buf_def released_buf_def sleeplock_upd2)
  have lkt: "held t = held s" "held ?u = held s" by (simp_all add: t_def sl_drop_def)
  have rc: "b_refcnt (bufs t ! b) = b_refcnt (released_buf s b)" using bl len by (simp add: t_def)
  have list: "link_head b (unlink b (t\<lparr>held := h\<rparr>)) = (link_head b (unlink b t))\<lparr>held := h\<rparr>"
    "held (link_head b (unlink b t)) = held t" for h
    by (simp_all add: link_held)
  have hid: "(link_head b (unlink b t))\<lparr>held := held s\<rparr> = link_head b (unlink b t)" "t\<lparr>held := held s\<rparr> = t"
    using lkt list(2) by (auto intro!: held_id)
  show ?thesis
    using held_holding[OF inv b] releasesleep_eq[OF bio_inv_basic(1)[OF inv], of "SLBuf b"] lk lkt rc
    by (simp add: brelse_def upd_buf_held dec list hid)
qed

text \<open>Releasing a buffer whose contents are on disk or pinned keeps the view.\<close>

lemma brelse_spec:
  assumes inv: "bio_inv H P s" and b: "b \<in> H" and clean: "b \<in> P \<or> b_data (bufs s ! b) = disk s (b_blockno (bufs s ! b))"
  shows "\<exists>t. brelse b s = Ret () t \<and> bio_inv (H - {b}) P t \<and> view t = view s \<and>
     bufs t = (bufs s)[b := released_buf s b] \<and>
     disk t = disk s \<and> dwrites t = dwrites s \<and> bio_rest t = bio_rest s"
proof -
  note len = bio_inv_basic(3)[OF inv]
  have bl: "b < NBUF" using b bio_inv_sub[OF inv] by auto
  let ?u = "s\<lparr>bufs := (bufs s)[b := released_buf s b]\<rparr>"
  let ?t = "woken (ChSleeplock (SLBuf b)) ?u"
  define r where "r = (if b_refcnt (released_buf s b) = 0 then link_head b (unlink b ?t) else ?t)"
  have ok: "buf_ok (mypid s) (disk s) (b \<in> H - {b}) (b \<in> P) (released_buf s b)"
    using bio_inv_buf[OF inv bl] b clean by (auto simp: buf_ok_def released_buf_def)
  have c: "caches s ROOTDEV (b_blockno (bufs s ! b)) b" using bio_inv_buf[OF inv bl] b by (simp add: caches_def buf_ok_def)
  have old: "b_blockno (released_buf s b) = b_blockno (bufs s ! b)" "b_data (released_buf s b) = b_data (bufs s ! b)"
    "b_valid (released_buf s b)"
    using bio_inv_buf[OF inv bl] b by (simp_all add: released_buf_def buf_ok_def)
  have inv': "bio_inv (H - {b}) P ?u"
    using bio_inv_unique[OF inv _ bl _ c] old by (intro bio_inv_upd[OF inv bl ok]) auto
  have "view ?u = view s"
    using view_upd[OF inv bl old(3) inv' old(1)] old view_cached[OF inv bl c] by (simp add: fun_upd_idem_iff)
  have pt: "bufs r = bufs ?u" "disk r = disk ?u" "dwrites r = dwrites s" "bio_rest r = bio_rest ?u"
    by (simp_all add: r_def)
  have "\<exists>xs. lru r xs \<and> set xs = {0..<NBUF}"
  proof -
    obtain xs where xs: "lru s xs" "set xs = {0..<NBUF}" using bio_inv_lru[OF inv] by blast
    have t: "lru ?t xs" using xs by (simp add: lru_def)
    show ?thesis
    proof (cases "b_refcnt (released_buf s b) = 0")
      case True
      have "distinct xs" using xs unfolding lru_def by blast
      moreover have b_in: "b \<in> set xs" using xs(2) bl by simp
      moreover from this have "insert b (set xs - {b}) = set xs" by blast
      ultimately have "set (b # remove1 b xs) = {0..<NBUF}" unfolding xs(2)[symmetric] by simp
      moreover have "r = link_head b (unlink b ?t)" using True by (simp add: r_def)
      ultimately show ?thesis using lru_move_front[OF t b_in] by blast
    next
      case False
      then have "r = ?t" by (simp add: r_def)
      then show ?thesis using t xs(2) by blast
    qed
  qed
  then have "bio_inv (H - {b}) P r" by (rule bio_inv_transfer[OF inv' pt(4,1,2)])
  moreover have "view r = view s" using \<open>view ?u = view s\<close> view_transfer[OF pt(1,2)] by simp
  ultimately show ?thesis
    using brelse_eq[OF inv b] pt unfolding r_def[symmetric] by (intro exI[of _ r]) simp
qed

text \<open>Changing the contents or the pin of a buffer the caller holds.\<close>

lemma held_upd:
  assumes inv: "bio_inv H P s" and b: "b \<in> H" and nb: "b_blockno nb = b_blockno (bufs s ! b)"
    and sets: "P' - {b} = P - {b}" and ok: "buf_ok (mypid s) (disk s) True (b \<in> P') nb"
  shows "bio_inv H P' (s\<lparr>bufs := (bufs s)[b := nb]\<rparr>)"
    and "view (s\<lparr>bufs := (bufs s)[b := nb]\<rparr>) = (view s)(b_blockno (bufs s ! b) := b_data nb)"
proof -
  have bl: "b < NBUF" using b bio_inv_sub[OF inv] by auto
  have c: "caches s ROOTDEV (b_blockno (bufs s ! b)) b" using bio_inv_buf[OF inv bl] b by (simp add: caches_def buf_ok_def)
  show inv': "bio_inv H P' (s\<lparr>bufs := (bufs s)[b := nb]\<rparr>)"
    using bio_inv_unique[OF inv _ bl _ c] nb sets b ok by (intro bio_inv_upd[OF inv bl]) auto
  have "b_valid nb" using ok by (simp add: buf_ok_def)
  then show "view (s\<lparr>bufs := (bufs s)[b := nb]\<rparr>) = (view s)(b_blockno (bufs s ! b) := b_data nb)"
    using view_upd[OF inv bl _ inv' nb] nb by simp
qed

definition set_data :: "nat \<Rightarrow> bytes \<Rightarrow> kstate \<Rightarrow> kstate" where
  "set_data b d s = upd_buf b (\<lambda>bp. bp\<lparr>b_data := d\<rparr>) s"

lemma set_data_spec:
  assumes inv: "bio_inv H P s" and b: "b \<in> H" and d: "length d = BSIZE"
  shows "bio_inv H P (set_data b d s)" and "view (set_data b d s) = (view s)(b_blockno (bufs s ! b) := d)"
proof -
  have bl: "b < NBUF" using b bio_inv_sub[OF inv] by auto
  have ok: "buf_ok (mypid s) (disk s) True (b \<in> P) ((bufs s ! b)\<lparr>b_data := d\<rparr>)"
    using bio_inv_buf[OF inv bl] b d by (simp add: buf_ok_def)
  show "bio_inv H P (set_data b d s)" "view (set_data b d s) = (view s)(b_blockno (bufs s ! b) := d)"
    using held_upd[OF inv b _ _ ok] unfolding set_data_def upd_buf_def by simp_all
qed

lemma set_data_frame [simp]:
  "disk (set_data b d s) = disk s" "dwrites (set_data b d s) = dwrites s" "bio_rest (set_data b d s) = bio_rest s"
  "logs (set_data b d s) = logs s"
  by (simp_all add: set_data_def upd_buf_def)

lemma bpin_spec:
  assumes inv: "bio_inv H P s" and b: "b \<in> H" "b \<notin> P"
  defines "t \<equiv> s\<lparr>bufs := (bufs s)[b := (bufs s ! b)\<lparr>b_refcnt := b_refcnt (bufs s ! b) + 1\<rparr>]\<rparr>"
  shows "bpin b s = Ret () t" and "bio_inv H (insert b P) t" and "view t = view s"
proof -
  have bl: "b < NBUF" using b bio_inv_sub[OF inv] by auto
  have c: "caches s ROOTDEV (b_blockno (bufs s ! b)) b" using bio_inv_buf[OF inv bl] b by (simp add: caches_def buf_ok_def)
  show "bpin b s = Ret () t" using bio_inv_basic(2)[OF inv] by (simp add: bpin_def t_def upd_buf_def)
  have ok: "buf_ok (mypid s) (disk s) True (b \<in> insert b P) ((bufs s ! b)\<lparr>b_refcnt := b_refcnt (bufs s ! b) + 1\<rparr>)"
    using bio_inv_buf[OF inv bl] b by (simp add: buf_ok_def)
  show "bio_inv H (insert b P) t" "view t = view s"
    using held_upd[OF inv b(1) _ _ ok] view_cached[OF inv bl c] unfolding t_def
    by (simp_all add: fun_upd_idem_iff)
qed

lemma bunpin_spec:
  assumes inv: "bio_inv H P s" and b: "b \<in> H" "b \<in> P"
  defines "t \<equiv> s\<lparr>bufs := (bufs s)[b := (bufs s ! b)\<lparr>b_refcnt := b_refcnt (bufs s ! b) - 1\<rparr>]\<rparr>"
  shows "bunpin b s = Ret () t" and "bio_inv H (P - {b}) t" and "view t = view s"
proof -
  have bl: "b < NBUF" using b bio_inv_sub[OF inv] by auto
  have c: "caches s ROOTDEV (b_blockno (bufs s ! b)) b" using bio_inv_buf[OF inv bl] b by (simp add: caches_def buf_ok_def)
  show "bunpin b s = Ret () t" using bio_inv_basic(2)[OF inv] by (simp add: bunpin_def t_def upd_buf_def)
  have ok: "buf_ok (mypid s) (disk s) True (b \<in> P - {b}) ((bufs s ! b)\<lparr>b_refcnt := b_refcnt (bufs s ! b) - 1\<rparr>)"
    using bio_inv_buf[OF inv bl] b by (simp add: buf_ok_def)
  show "bio_inv H (P - {b}) t" "view t = view s"
    using held_upd[OF inv b(1) _ _ ok] view_cached[OF inv bl c] unfolding t_def
    by (simp_all add: fun_upd_idem_iff)
qed

section \<open>The contract\<close>

text \<open>
  What the layers above rely on: \<open>H\<close> maps the buffers the process holds to their block numbers,
  \<open>Q\<close> is the set of pinned blocks.  The contents of a held buffer are the view of its block.
\<close>

locale block_cache =
  fixes inv :: "(nat \<rightharpoonup> uint) \<Rightarrow> uint set \<Rightarrow> 's \<Rightarrow> bool"
    and vw :: "'s \<Rightarrow> uint \<Rightarrow> bytes" and dsk :: "'s \<Rightarrow> uint \<Rightarrow> bytes"
    and hist :: "'s \<Rightarrow> (uint \<times> bytes) list" and rest :: "'s \<Rightarrow> 'r"
    and dat :: "nat \<Rightarrow> 's \<Rightarrow> bytes" and setd :: "nat \<Rightarrow> bytes \<Rightarrow> 's \<Rightarrow> 's"
    and rd :: "uint \<Rightarrow> ('c, 's, nat) code" and wr rel unpin :: "nat \<Rightarrow> ('c, 's, unit) code"
  assumes dat: "inv H Q s \<Longrightarrow> H b = Some bn \<Longrightarrow> dat b s = vw s bn"
    and vw_len: "inv H Q s \<Longrightarrow> length (vw s bn) = BSIZE"
    and vw_disk: "inv H Q s \<Longrightarrow> bn \<notin> Q \<Longrightarrow> bn \<notin> ran H \<Longrightarrow> vw s bn = dsk s bn"
    and rd: "inv H Q s \<Longrightarrow> bn \<notin> ran H \<Longrightarrow> card (dom H) + card Q < NBUF \<or> bn \<in> Q \<Longrightarrow>
      \<exists>b t. rd bn s = Ret b t \<and> H b = None \<and> inv (H(b \<mapsto> bn)) Q t \<and> vw t = vw s \<and> dsk t = dsk s \<and>
        hist t = hist s \<and> rest t = rest s"
    and setd: "inv H Q s \<Longrightarrow> H b = Some bn \<Longrightarrow> length d = BSIZE \<Longrightarrow> inv H Q (setd b d s) \<and>
      vw (setd b d s) = (vw s)(bn := d) \<and> dsk (setd b d s) = dsk s \<and> hist (setd b d s) = hist s \<and>
      rest (setd b d s) = rest s"
    and wr: "inv H Q s \<Longrightarrow> H b = Some bn \<Longrightarrow> \<exists>t. wr b s = Ret () t \<and> inv H Q t \<and> vw t = vw s \<and>
      dsk t = (dsk s)(bn := vw s bn) \<and> hist t = hist s @ [(bn, vw s bn)] \<and> rest t = rest s"
    and rel: "inv H Q s \<Longrightarrow> H b = Some bn \<Longrightarrow> bn \<in> Q \<or> vw s bn = dsk s bn \<Longrightarrow>
      \<exists>t. rel b s = Ret () t \<and> inv (H(b := None)) Q t \<and> vw t = vw s \<and> dsk t = dsk s \<and>
        hist t = hist s \<and> rest t = rest s"
    and unpin: "inv H Q s \<Longrightarrow> H b = Some bn \<Longrightarrow> bn \<in> Q \<Longrightarrow> \<exists>t. unpin b s = Ret () t \<and> inv H (Q - {bn}) t \<and>
      vw t = vw s \<and> dsk t = dsk s \<and> hist t = hist s \<and> rest t = rest s"
    and fin: "inv H Q s \<Longrightarrow> finite (dom H) \<and> finite Q"
begin

text \<open>The effect of writing contents \<open>d\<close> through to block \<open>bn\<close>.\<close>

definition wrote :: "uint \<Rightarrow> bytes \<Rightarrow> 's \<Rightarrow> 's \<Rightarrow> bool" where
  "wrote bn d s t \<longleftrightarrow> vw t = (vw s)(bn := d) \<and> dsk t = (dsk s)(bn := d) \<and> hist t = hist s @ [(bn, d)] \<and> rest t = rest s"

lemma update_block:
  assumes inv: "inv Map.empty Q s" and room: "card Q < NBUF" and f: "length (f (vw s bn)) = BSIZE"
    and upd: "\<And>b t. rest t = rest s \<Longrightarrow> upd b t = setd b (f (dat b t)) t"
  shows "\<exists>t. bindK (rd bn) (\<lambda>b. thenK (modK (upd b)) (thenK (wr b) (rel b))) s = Ret () t \<and>
     inv Map.empty Q t \<and> wrote bn (f (vw s bn)) s t"
proof -
  obtain b t1 where 1: "rd bn s = Ret b t1" "inv (Map.empty(b \<mapsto> bn)) Q t1" "vw t1 = vw s" "dsk t1 = dsk s"
    "hist t1 = hist s" "rest t1 = rest s"
    using rd[OF inv, of bn] room by auto
  let ?t2 = "setd b (f (vw s bn)) t1"
  have 2: "inv (Map.empty(b \<mapsto> bn)) Q ?t2" "vw ?t2 = (vw s)(bn := f (vw s bn))" "dsk ?t2 = dsk s"
    "hist ?t2 = hist s" "rest ?t2 = rest s"
    using setd[OF 1(2), of b bn "f (vw s bn)"] f 1 by auto
  have u: "upd b t1 = ?t2" using upd[OF 1(6)] dat[OF 1(2), of b bn] 1(3) by simp
  obtain t3 where 3: "wr b ?t2 = Ret () t3" "inv (Map.empty(b \<mapsto> bn)) Q t3" "vw t3 = vw ?t2"
    "dsk t3 = (dsk s)(bn := f (vw s bn))" "hist t3 = hist s @ [(bn, f (vw s bn))]" "rest t3 = rest s"
    using wr[OF 2(1), of b bn] 2 by auto
  obtain t4 where 4: "rel b t3 = Ret () t4" "inv Map.empty Q t4" "vw t4 = vw t3" "dsk t4 = dsk t3"
    "hist t4 = hist t3" "rest t4 = rest t3"
    using rel[OF 3(2), of b bn] 2 3 by (auto simp: fun_upd_idem)
  show ?thesis
    by (intro exI[of _ t4]) (use 1 2 3 4 u in \<open>simp add: wrote_def\<close>)
qed

text \<open>Copying a pinned block into an unpinned one, as \<open>write_log\<close> does.\<close>

lemma copy_out:
  assumes inv: "inv Map.empty Q s" and room: "card Q < NBUF" and src: "src \<in> Q" and ne: "src \<noteq> dst"
    and upd: "\<And>to from t. length (dat to t) = BSIZE \<Longrightarrow> length (dat from t) = BSIZE \<Longrightarrow>
       upd to from t = setd to (dat from t) t"
  shows "\<exists>t. bindK (rd dst) (\<lambda>to. bindK (rd src) (\<lambda>from. thenK (modK (upd to from))
       (thenK (wr to) (thenK (rel from) (rel to))))) s = Ret () t \<and>
     inv Map.empty Q t \<and> wrote dst (vw s src) s t"
proof -
  obtain a t1 where 1: "rd dst s = Ret a t1" "inv (Map.empty(a \<mapsto> dst)) Q t1" "vw t1 = vw s" "dsk t1 = dsk s"
    "hist t1 = hist s" "rest t1 = rest s"
    using rd[OF inv, of dst] room by auto
  obtain c t2 where 2: "rd src t1 = Ret c t2" "(Map.empty(a \<mapsto> dst)) c = None"
    "inv (Map.empty(a \<mapsto> dst, c \<mapsto> src)) Q t2" "vw t2 = vw s" "dsk t2 = dsk s" "hist t2 = hist s" "rest t2 = rest s"
    using rd[OF 1(2), of src] src ne 1 by auto
  let ?H = "Map.empty(a \<mapsto> dst, c \<mapsto> src)"
  have ac: "a \<noteq> c" using 2(2) by (auto split: if_splits)
  let ?t3 = "setd a (vw s src) t2"
  have 3: "inv ?H Q ?t3" "vw ?t3 = (vw s)(dst := vw s src)" "dsk ?t3 = dsk s" "hist ?t3 = hist s" "rest ?t3 = rest s"
    using setd[OF 2(3), of a dst "vw s src"] vw_len[OF inv] ac 2 by auto
  have u: "upd a c t2 = ?t3"
    using upd[of a t2 c] dat[OF 2(3), of a dst] dat[OF 2(3), of c src] vw_len[OF inv] 2(4) ac by simp
  obtain t4 where 4: "wr a ?t3 = Ret () t4" "inv ?H Q t4" "vw t4 = vw ?t3" "dsk t4 = (dsk s)(dst := vw s src)"
    "hist t4 = hist s @ [(dst, vw s src)]" "rest t4 = rest s"
    using wr[OF 3(1), of a dst] ac 3 by auto
  have H1: "?H(c := None) = Map.empty(a \<mapsto> dst)" using ac by (auto simp: fun_eq_iff)
  obtain t5 where 5: "rel c t4 = Ret () t5" "inv (Map.empty(a \<mapsto> dst)) Q t5" "vw t5 = vw t4" "dsk t5 = dsk t4"
    "hist t5 = hist t4" "rest t5 = rest t4"
    using rel[OF 4(2), of c src] src unfolding H1 by auto
  obtain t6 where 6: "rel a t5 = Ret () t6" "inv Map.empty Q t6" "vw t6 = vw t5" "dsk t6 = dsk t5"
    "hist t6 = hist t5" "rest t6 = rest t5"
    using rel[OF 5(2), of a dst] 3 4 5 by (auto simp: fun_upd_idem)
  show ?thesis
    by (intro exI[of _ t6]) (use 1 2 3 4 5 6 u in \<open>simp add: wrote_def\<close>)
qed

text \<open>Copying an unpinned block to its home, as \<open>install_trans\<close> does: the home block is pinned
  while a transaction commits and unpinned during recovery.\<close>

lemma copy_home:
  assumes inv: "inv Map.empty Q s" and room: "dst \<in> Q \<and> card Q < NBUF \<or> Suc (card Q) < NBUF" and src: "src \<notin> Q" and ne: "src \<noteq> dst"
    and upd: "\<And>to from t. length (dat to t) = BSIZE \<Longrightarrow> length (dat from t) = BSIZE \<Longrightarrow>
       upd to from t = setd to (dat from t) t"
    and pin: "unp \<longleftrightarrow> dst \<in> Q"
  shows "\<exists>t. bindK (rd src) (\<lambda>from. bindK (rd dst) (\<lambda>to. thenK (modK (upd to from))
       (thenK (wr to) (thenK (whenK unp (unpin to)) (thenK (rel from) (rel to)))))) s = Ret () t \<and>
     inv Map.empty (Q - {dst}) t \<and> wrote dst (vw s src) s t"
proof -
  obtain c t1 where 1: "rd src s = Ret c t1" "inv (Map.empty(c \<mapsto> src)) Q t1" "vw t1 = vw s" "dsk t1 = dsk s"
    "hist t1 = hist s" "rest t1 = rest s"
    using rd[OF inv, of src] room by auto
  obtain a t2 where 2: "rd dst t1 = Ret a t2" "(Map.empty(c \<mapsto> src)) a = None"
    "inv (Map.empty(c \<mapsto> src, a \<mapsto> dst)) Q t2" "vw t2 = vw s" "dsk t2 = dsk s" "hist t2 = hist s" "rest t2 = rest s"
    using rd[OF 1(2), of dst] room ne 1 by auto
  let ?H = "Map.empty(c \<mapsto> src, a \<mapsto> dst)"
  have ac: "a \<noteq> c" using 2(2) by (auto split: if_splits)
  let ?t3 = "setd a (vw s src) t2"
  have 3: "inv ?H Q ?t3" "vw ?t3 = (vw s)(dst := vw s src)" "dsk ?t3 = dsk s" "hist ?t3 = hist s" "rest ?t3 = rest s"
    using setd[OF 2(3), of a dst "vw s src"] vw_len[OF inv] ac 2 by auto
  have u: "upd a c t2 = ?t3"
    using upd[of a t2 c] dat[OF 2(3), of a dst] dat[OF 2(3), of c src] vw_len[OF inv] 2(4) ac by simp
  obtain t4 where 4: "wr a ?t3 = Ret () t4" "inv ?H Q t4" "vw t4 = vw ?t3" "dsk t4 = (dsk s)(dst := vw s src)"
    "hist t4 = hist s @ [(dst, vw s src)]" "rest t4 = rest s"
    using wr[OF 3(1), of a dst] ac 3 by auto
  obtain t5 where 5: "whenK unp (unpin a) t4 = Ret () t5" "inv ?H (Q - {dst}) t5" "vw t5 = vw t4" "dsk t5 = dsk t4"
    "hist t5 = hist t4" "rest t5 = rest t4"
    using unpin[OF 4(2), of a dst] 4(2) pin ac by (cases unp) auto
  have H1: "?H(c := None) = Map.empty(a \<mapsto> dst)" using ac by (auto simp: fun_eq_iff)
  have sd: "vw s src = dsk s src" using vw_disk[OF inv src] by simp
  obtain t6 where 6: "rel c t5 = Ret () t6" "inv (Map.empty(a \<mapsto> dst)) (Q - {dst}) t6" "vw t6 = vw t5" "dsk t6 = dsk t5"
    "hist t6 = hist t5" "rest t6 = rest t5"
    using rel[OF 5(2), of c src] sd 3 4 5 ne ac unfolding H1 by auto
  obtain t7 where 7: "rel a t6 = Ret () t7" "inv Map.empty (Q - {dst}) t7" "vw t7 = vw t6" "dsk t7 = dsk t6"
    "hist t7 = hist t6" "rest t7 = rest t6"
    using rel[OF 6(2), of a dst] 3 4 5 6 by (auto simp: fun_upd_idem)
  show ?thesis
    by (intro exI[of _ t7]) (use 1 2 3 4 5 6 7 u in \<open>simp add: wrote_def\<close>)
qed

end

section \<open>The buffer cache satisfies the contract\<close>

definition pinned_blocks :: "nat set \<Rightarrow> kstate \<Rightarrow> uint set" where
  "pinned_blocks P s = (\<lambda>i. b_blockno (bufs s ! i)) ` P"

definition blk_inv :: "(nat \<rightharpoonup> uint) \<Rightarrow> uint set \<Rightarrow> kstate \<Rightarrow> bool" where
  "blk_inv H Q s \<longleftrightarrow> (\<exists>P. bio_inv (dom H) P s \<and> pinned_blocks P s = Q) \<and>
     (\<forall>b bn. H b = Some bn \<longrightarrow> b_blockno (bufs s ! b) = bn)"

lemma blk_invI:
  assumes "bio_inv H' P s" "H' = dom H" "pinned_blocks P s = Q"
    "\<And>b bn. H b = Some bn \<Longrightarrow> b_blockno (bufs s ! b) = bn"
  shows "blk_inv H Q s"
  using assms unfolding blk_inv_def by blast

lemma blk_invE:
  assumes "blk_inv H Q s"
  obtains P where "bio_inv (dom H) P s" "pinned_blocks P s = Q" "\<And>b bn. H b = Some bn \<Longrightarrow> b_blockno (bufs s ! b) = bn"
    "card P = card Q" "finite P"
proof -
  obtain P where P: "bio_inv (dom H) P s" "pinned_blocks P s = Q" using assms unfolding blk_inv_def by blast
  have sub: "i \<in> P \<Longrightarrow> i < NBUF" for i using bio_inv_sub[OF P(1)] by auto
  have c: "i \<in> P \<Longrightarrow> caches s ROOTDEV (b_blockno (bufs s ! i)) i" for i
    using bio_inv_buf[OF P(1) sub] caches_iff[OF P(1) sub] by (auto simp: buf_ok_def)
  have "inj_on (\<lambda>i. b_blockno (bufs s ! i)) P"
  proof (rule inj_onI)
    fix i j assume ij: "i \<in> P" "j \<in> P" "b_blockno (bufs s ! i) = b_blockno (bufs s ! j)"
    then show "i = j" using bio_inv_unique[OF P(1) sub sub, of i j] c[of i] c[of j] by simp
  qed
  then have "card P = card Q" unfolding P(2)[symmetric] pinned_blocks_def by (simp add: card_image)
  moreover have "finite P" using bio_inv_sub[OF P(1)] by (meson finite_atLeastLessThan finite_subset)
  ultimately show thesis using that P assms unfolding blk_inv_def by blast
qed

lemma blk_held:
  assumes "blk_inv H Q s" and "H b = Some bn"
  shows "b < NBUF" "caches s ROOTDEV bn b" "b_data (bufs s ! b) = view s bn" "b_blockno (bufs s ! b) = bn"
proof -
  obtain P where P: "bio_inv (dom H) P s" "\<And>b bn. H b = Some bn \<Longrightarrow> b_blockno (bufs s ! b) = bn" using blk_invE[OF assms(1)] by metis
  show b: "b < NBUF" using bio_inv_sub[OF P(1)] assms(2) by auto
  show "b_blockno (bufs s ! b) = bn" using P(2) assms(2) by blast
  then show c: "caches s ROOTDEV bn b" using bio_inv_buf[OF P(1) b] caches_iff[OF P(1) b] assms(2) by (auto simp: buf_ok_def)
  show "b_data (bufs s ! b) = view s bn" using view_cached[OF P(1) b c] by simp
qed

lemma pinned_iff:
  assumes inv: "bio_inv H P s" and b: "b < NBUF" "caches s ROOTDEV bn b"
  shows "bn \<in> pinned_blocks P s \<longleftrightarrow> b \<in> P"
proof
  assume "bn \<in> pinned_blocks P s"
  then obtain i where i: "i \<in> P" "b_blockno (bufs s ! i) = bn" by (auto simp: pinned_blocks_def)
  have "i < NBUF" using i bio_inv_sub[OF inv] by auto
  then have "caches s ROOTDEV bn i" using bio_inv_buf[OF inv] caches_iff[OF inv] i by (auto simp: buf_ok_def)
  then show "b \<in> P" using bio_inv_unique[OF inv \<open>i < NBUF\<close> b(1) _ b(2)] i by simp
qed (use b in \<open>auto simp: pinned_blocks_def caches_def\<close>)

lemma bread_blk:
  assumes inv: "blk_inv H Q s" and nh: "bn \<notin> ran H" and room: "card (dom H) + card Q < NBUF \<or> bn \<in> Q"
  shows "\<exists>b t. bread ROOTDEV bn s = Ret b t \<and> H b = None \<and> blk_inv (H(b \<mapsto> bn)) Q t \<and> view t = view s \<and>
     disk t = disk s \<and> dwrites t = dwrites s \<and> bio_rest t = bio_rest s"
proof -
  obtain P where P: "bio_inv (dom H) P s" "pinned_blocks P s = Q" "\<And>b bn. H b = Some bn \<Longrightarrow> b_blockno (bufs s ! b) = bn"
    "card P = card Q" "finite P" using blk_invE[OF inv] by blast
  have nc: "\<not> caches s ROOTDEV bn i" if "i \<in> dom H" for i
    using that P(3) nh by (force simp: caches_def ran_def)
  have room': "card (dom H \<union> P) < NBUF \<or> (\<exists>i<NBUF. caches s ROOTDEV bn i)"
  proof (cases "bn \<in> Q")
    case True
    then obtain i where i: "i \<in> P" "b_blockno (bufs s ! i) = bn" using P(2) by (auto simp: pinned_blocks_def)
    then have "i < NBUF" using bio_inv_sub[OF P(1)] by auto
    then show ?thesis using bio_inv_buf[OF P(1)] caches_iff[OF P(1)] i by (auto simp: buf_ok_def)
  next
    case False
    then show ?thesis using room P(4) card_Un_le[of "dom H" P] by linarith
  qed
  obtain b t where t: "bread ROOTDEV bn s = Ret b t" "b \<notin> dom H" "bio_inv (insert b (dom H)) P t"
    "b_blockno (bufs t ! b) = bn" "view t = view s"
    "\<forall>i\<in>dom H \<union> P. b_blockno (bufs t ! i) = b_blockno (bufs s ! i) \<and> b_data (bufs t ! i) = b_data (bufs s ! i)"
    "disk t = disk s" "dwrites t = dwrites s" "bio_rest t = bio_rest s"
    using bread_spec[OF P(1) nc room'] by blast
  have "blk_inv (H(b \<mapsto> bn)) Q t"
  proof (rule blk_invI[OF t(3)])
    show "pinned_blocks P t = Q" using t(6) P(2) by (auto simp: pinned_blocks_def image_iff)
    fix c k assume "(H(b \<mapsto> bn)) c = Some k"
    then show "b_blockno (bufs t ! c) = k" using t(4,6) P(3) by (auto split: if_splits)
  qed simp
  moreover have "H b = None" using t(2) by auto
  ultimately show ?thesis using t(1,5,7,8,9) by (intro exI[of _ b] exI[of _ t]) simp
qed

lemma bwrite_blk:
  assumes inv: "blk_inv H Q s" and b: "H b = Some bn"
  shows "\<exists>t. bwrite b s = Ret () t \<and> blk_inv H Q t \<and> view t = view s \<and>
      disk t = (disk s)(bn := view s bn) \<and> dwrites t = dwrites s @ [(bn, view s bn)] \<and> bio_rest t = bio_rest s"
proof -
  obtain P where P: "bio_inv (dom H) P s" "pinned_blocks P s = Q" "\<And>b bn. H b = Some bn \<Longrightarrow> b_blockno (bufs s ! b) = bn"
    using blk_invE[OF inv] by metis
  have bd: "b \<in> dom H" using b by auto
  note w = bwrite_spec[OF P(1) bd] and h = blk_held[OF inv b]
  let ?t = "s\<lparr>disk := (disk s)(bn := view s bn), dwrites := dwrites s @ [(bn, view s bn)]\<rparr>"
  have "bwrite b s = Ret () ?t" "bio_inv (dom H) P ?t" "view ?t = view s" using w h by simp_all
  moreover have "blk_inv H Q ?t"
    using P(2,3) by (intro blk_invI[OF calculation(2)]) (simp_all add: pinned_blocks_def)
  ultimately show ?thesis by (intro exI[of _ ?t]) simp
qed

lemma brelse_blk:
  assumes inv: "blk_inv H Q s" and b: "H b = Some bn" and clean: "bn \<in> Q \<or> view s bn = disk s bn"
  shows "\<exists>t. brelse b s = Ret () t \<and> blk_inv (H(b := None)) Q t \<and> view t = view s \<and> disk t = disk s \<and>
        dwrites t = dwrites s \<and> bio_rest t = bio_rest s"
proof -
  obtain P where P: "bio_inv (dom H) P s" "pinned_blocks P s = Q" "\<And>b bn. H b = Some bn \<Longrightarrow> b_blockno (bufs s ! b) = bn"
    using blk_invE[OF inv] by metis
  note h = blk_held[OF inv b]
  have "bn \<in> Q \<longleftrightarrow> b \<in> P" using pinned_iff[OF P(1) h(1,2)] P(2) by simp
  then have clean': "b \<in> P \<or> b_data (bufs s ! b) = disk s (b_blockno (bufs s ! b))" using clean h by auto
  have bd: "b \<in> dom H" using b by auto
  obtain t where t: "brelse b s = Ret () t" "bio_inv (dom H - {b}) P t" "view t = view s"
     "bufs t = (bufs s)[b := released_buf s b]"
     "disk t = disk s" "dwrites t = dwrites s" "bio_rest t = bio_rest s"
    using brelse_spec[OF P(1) bd clean'] by blast
  have no: "b_blockno (bufs t ! i) = b_blockno (bufs s ! i)" for i
    using t(4) h(1) bio_inv_basic(3)[OF P(1)] by (cases "i = b") (simp_all add: released_buf_def)
  have "blk_inv (H(b := None)) Q t"
    using P(2,3) no by (intro blk_invI[OF t(2)]) (auto simp: pinned_blocks_def split: if_splits)
  then show ?thesis using t by blast
qed

lemma pinned_upd:
  assumes "\<And>i. b_blockno (bufs t ! i) = b_blockno (bufs s ! i)"
  shows "pinned_blocks P t = pinned_blocks P s"
  using assms by (simp add: pinned_blocks_def)

lemma blockno_upd:
  "b_blockno nb = b_blockno (bufs s ! b) \<Longrightarrow> b_blockno ((bufs s)[b := nb] ! i) = b_blockno (bufs s ! i)"
  by (cases "i = b"; cases "b < length (bufs s)") (simp_all add: list_update_beyond)

lemma pinned_remove:
  assumes inv: "bio_inv H P s" and b: "b \<in> P"
  shows "pinned_blocks (P - {b}) s = pinned_blocks P s - {b_blockno (bufs s ! b)}"
proof -
  have bl: "i \<in> P \<Longrightarrow> i < NBUF" for i using bio_inv_sub[OF inv] by auto
  have c: "i \<in> P \<Longrightarrow> caches s ROOTDEV (b_blockno (bufs s ! i)) i" for i
    using bio_inv_buf[OF inv bl] caches_iff[OF inv bl] by (auto simp: buf_ok_def)
  have "b_blockno (bufs s ! i) \<noteq> b_blockno (bufs s ! b)" if "i \<in> P" "i \<noteq> b" for i
    using bio_inv_unique[OF inv bl bl, of i b] c[of i] c[of b] b that by auto
  then show ?thesis by (auto simp: pinned_blocks_def)
qed

lemma bunpin_blk:
  assumes inv: "blk_inv H Q s" and b: "H b = Some bn" and q: "bn \<in> Q"
  shows "\<exists>t. bunpin b s = Ret () t \<and> blk_inv H (Q - {bn}) t \<and>
      view t = view s \<and> disk t = disk s \<and> dwrites t = dwrites s \<and> bio_rest t = bio_rest s"
proof -
  obtain P where P: "bio_inv (dom H) P s" "pinned_blocks P s = Q" "\<And>b bn. H b = Some bn \<Longrightarrow> b_blockno (bufs s ! b) = bn"
    using blk_invE[OF inv] by metis
  note h = blk_held[OF inv b]
  have bp: "b \<in> dom H" "b \<in> P" using b pinned_iff[OF P(1) h(1,2)] P(2) q by auto
  note w = bunpin_spec[OF P(1) bp]
  let ?t = "s\<lparr>bufs := (bufs s)[b := (bufs s ! b)\<lparr>b_refcnt := b_refcnt (bufs s ! b) - 1\<rparr>]\<rparr>"
  have no: "b_blockno (bufs ?t ! i) = b_blockno (bufs s ! i)" for i by (simp add: blockno_upd)
  have "blk_inv H (Q - {bn}) ?t"
    using P(2,3) no pinned_upd[of ?t s, OF no] pinned_remove[OF P(1) bp(2)] h(4)
    by (intro blk_invI[OF w(2)]) simp_all
  then show ?thesis using w by (intro exI[of _ ?t]) simp
qed

lemma bpin_blk:
  assumes inv: "blk_inv H Q s" and b: "H b = Some bn" and q: "bn \<notin> Q"
  shows "\<exists>t. bpin b s = Ret () t \<and> blk_inv H (insert bn Q) t \<and>
      view t = view s \<and> disk t = disk s \<and> dwrites t = dwrites s \<and> bio_rest t = bio_rest s"
proof -
  obtain P where P: "bio_inv (dom H) P s" "pinned_blocks P s = Q" "\<And>b bn. H b = Some bn \<Longrightarrow> b_blockno (bufs s ! b) = bn"
    using blk_invE[OF inv] by metis
  note h = blk_held[OF inv b]
  have bp: "b \<in> dom H" "b \<notin> P" using b pinned_iff[OF P(1) h(1,2)] P(2) q by auto
  note w = bpin_spec[OF P(1) bp]
  let ?t = "s\<lparr>bufs := (bufs s)[b := (bufs s ! b)\<lparr>b_refcnt := b_refcnt (bufs s ! b) + 1\<rparr>]\<rparr>"
  have no: "b_blockno (bufs ?t ! i) = b_blockno (bufs s ! i)" for i by (simp add: blockno_upd)
  have "pinned_blocks (insert b P) s = insert bn Q" using P(2) h(4) by (simp add: pinned_blocks_def)
  then have "blk_inv H (insert bn Q) ?t"
    using P(2,3) no pinned_upd[of ?t s, OF no]
    by (intro blk_invI[OF w(2)]) simp_all
  then show ?thesis using w by (intro exI[of _ ?t]) simp
qed

lemma set_data_blk:
  assumes inv: "blk_inv H Q s" and b: "H b = Some bn" and d: "length d = BSIZE"
  shows "blk_inv H Q (set_data b d s) \<and>
      view (set_data b d s) = (view s)(bn := d) \<and> disk (set_data b d s) = disk s \<and> dwrites (set_data b d s) = dwrites s \<and>
      bio_rest (set_data b d s) = bio_rest s"
proof -
  obtain P where P: "bio_inv (dom H) P s" "pinned_blocks P s = Q" "\<And>b bn. H b = Some bn \<Longrightarrow> b_blockno (bufs s ! b) = bn"
    using blk_invE[OF inv] by metis
  have bp: "b \<in> dom H" using b by auto
  note w = set_data_spec[OF P(1) bp d] and h = blk_held[OF inv b]
  have no: "b_blockno (bufs (set_data b d s) ! i) = b_blockno (bufs s ! i)" for i
    by (simp add: set_data_def upd_buf_def blockno_upd)
  have "blk_inv H Q (set_data b d s)"
    using P(2,3) no pinned_upd[of "set_data b d s" s, OF no] by (intro blk_invI[OF w(1)]) simp_all
  then show ?thesis using w h by simp
qed

lemma view_len_blk:
  assumes "blk_inv H Q s" shows "length (view s bn) = BSIZE"
proof -
  obtain P where P: "bio_inv (dom H) P s" using blk_invE[OF assms] by metis
  show ?thesis
  proof (cases "\<exists>i<NBUF. caches s ROOTDEV bn i")
    case True
    then obtain i where i: "i < NBUF" "caches s ROOTDEV bn i" by blast
    then show ?thesis using view_cached[OF P i] bio_inv_buf[OF P i(1)] by (simp add: buf_ok_def)
  next
    case False
    then show ?thesis using view_uncached[of s bn] bio_inv_basic(4)[OF P] by simp
  qed
qed

lemma view_disk_blk:
  assumes "blk_inv H Q s" "bn \<notin> Q" "bn \<notin> ran H" shows "view s bn = disk s bn"
proof -
  obtain P where P: "bio_inv (dom H) P s" "pinned_blocks P s = Q" "\<And>b bn. H b = Some bn \<Longrightarrow> b_blockno (bufs s ! b) = bn"
    using blk_invE[OF assms(1)] by metis
  show ?thesis
  proof (cases "\<exists>i<NBUF. caches s ROOTDEV bn i")
    case True
    then obtain i where i: "i < NBUF" "caches s ROOTDEV bn i" by blast
    have "i \<notin> P" using pinned_iff[OF P(1) i] P(2) assms(2) by simp
    moreover have "i \<notin> dom H" using i P(3) assms(3) by (force simp: caches_def ran_def)
    ultimately show ?thesis
      using view_cached[OF P(1) i] bio_inv_buf[OF P(1) i(1)] i(2) caches_iff[OF P(1) i(1)] by (auto simp: buf_ok_def)
  next
    case False
    then show ?thesis using view_uncached[of s bn] by simp
  qed
qed

interpretation bc: block_cache blk_inv view disk dwrites bio_rest "\<lambda>b s. b_data (bufs s ! b)" set_data "bread ROOTDEV" bwrite brelse bunpin
proof
  fix H Q s assume inv: "blk_inv H Q s"
  obtain P where P: "bio_inv (dom H) P s" "pinned_blocks P s = Q" "finite P" using blk_invE[OF inv] by metis
  have "finite (dom H)" using bio_inv_sub[OF P(1)] finite_subset[of "dom H" "{0..<NBUF}"] by blast
  then show "finite (dom H) \<and> finite Q" using P by (auto simp: pinned_blocks_def)
qed (fact blk_held(3) view_len_blk view_disk_blk bread_blk set_data_blk bwrite_blk brelse_blk bunpin_blk)+

section \<open>Initialisation\<close>

lemma binit_loop:
  assumes "lru s []" and "length (bufs s) = NBUF" and "\<And>i. i < NBUF \<Longrightarrow> bufs s ! i = zero_buf" and "n \<le> NBUF"
  shows "\<exists>t. forK [0..<n] (\<lambda>b. thenK (initsleeplock (SLBuf b)) (modK (link_head b))) s = Ret () t \<and> lru t (rev [0..<n]) \<and>
     bufs t = bufs s \<and> disk t = disk s \<and> dwrites t = dwrites s \<and> bio_rest t = bio_rest s"
  using assms(4)
proof (induction n)
  case 0
  then show ?case using assms by simp
next
  case (Suc n)
  obtain t where t: "forK [0..<n] (\<lambda>b. thenK (initsleeplock (SLBuf b)) (modK (link_head b))) s = Ret () t" "lru t (rev [0..<n])"
     "bufs t = bufs s" "disk t = disk s" "dwrites t = dwrites s" "bio_rest t = bio_rest s"
    using Suc.IH[OF Suc_leD[OF Suc.prems]] by blast
  have z: "zero_buf\<lparr>b_lock := (b_lock zero_buf)\<lparr>sl_locked := False, sl_pid := 0\<rparr>\<rparr> = zero_buf"
    by (simp add: zero_buf_def zero_sleeplock_def)
  have u: "upd_sl (SLBuf n) (\<lambda>l. l\<lparr>sl_locked := False, sl_pid := 0\<rparr>) t = t"
    using assms(2) assms(3)[of n] Suc.prems t(3) z list_update_id[of "bufs s" n] by (simp add: upd_buf_def)
  have "lru (link_head n t) (n # rev [0..<n])" using Suc.prems by (intro lru_link_head[OF t(2)]) auto
  moreover have "forK [0..<Suc n] (\<lambda>b. thenK (initsleeplock (SLBuf b)) (modK (link_head b))) s = Ret () (link_head n t)"
    using t(1) u by (simp only: upt_Suc_append le0 forK_append thenK_Ret forK.simps initsleeplock_def modK_apply thenK_apply bindO.simps retK_apply)
  ultimately show ?case using t(3-6) by (intro exI[of _ "link_head n t"] conjI) (assumption | simp)+
qed

lemma binit_blk:
  assumes "calm s" "LBcache \<notin> set (held s)" "sized s" "bufs s = replicate NBUF zero_buf" "\<And>bn. length (disk s bn) = BSIZE"
  shows "\<exists>t. binit s = Ret () t \<and> blk_inv Map.empty {} t \<and> lru t (rev [0..<NBUF]) \<and> disk t = disk s \<and> dwrites t = dwrites s \<and>
     bio_rest t = bio_rest s \<and> bufs t = bufs s"
proof -
  let ?s = "set_next HEAD HEAD (set_prev HEAD HEAD s)"
  have len: "length (bnext s) = NBUF + 1" "length (bprev s) = NBUF + 1" using assms(3) by (simp_all add: sized_def)
  have l0: "lru ?s []" using len by (simp add: lru_def set_next_def set_prev_def)
  have b: "length (bufs ?s) = NBUF" "\<And>i. i < NBUF \<Longrightarrow> bufs ?s ! i = zero_buf" using assms(4) by simp_all
  obtain t where t: "forK [0..<NBUF] (\<lambda>b. thenK (initsleeplock (SLBuf b)) (modK (link_head b))) ?s = Ret () t" "lru t (rev [0..<NBUF])"
     "bufs t = bufs s" "disk t = disk s" "dwrites t = dwrites s" "bio_rest t = bio_rest ?s"
    using binit_loop[OF l0 b order_refl] unfolding set_ptr_frame by blast
  have r: "bio_rest t = bio_rest s" using t(6) by simp
  have "bio_inv {} {} t"
  proof (rule bio_invI)
    show "\<exists>xs. lru t xs \<and> set xs = {0..<NBUF}" using t(2) by (intro exI[of _ "rev [0..<NBUF]"]) simp
    show "calm t" using bio_rest_calm[OF r] assms(1) by simp
    show "LBcache \<notin> set (held t)" using bio_rest_fields(1)[OF r] assms(2) by simp
  qed (use t(3,4) assms(4,5) in \<open>simp_all add: buf_ok_def zero_buf_def zero_sleeplock_def\<close>)
  then have "blk_inv Map.empty {} t" by (simp add: blk_inv_def pinned_blocks_def)
  then show ?thesis using t(1,2,3,4,5) r by (intro exI[of _ t]) (simp only: binit_def thenK_apply modK_apply bindO.simps simp_thms)
qed

subsection \<open>A fresh cache\<close>

text \<open>The cache that \<open>binit\<close> builds over a given disk, with a process running and a given log.\<close>

lemma fresh_cache:
  assumes "\<And>bn. length (d bn) = BSIZE" and len: "length (lh_block l) = LOGSIZE"
  shows "\<exists>s. blk_inv Map.empty {} s \<and> disk s = d \<and> logs s = l \<and> held s = [] \<and> dwrites s = []"
proof -
  let ?s = "(boot_state 0 0 0 zero_symbols d)\<lparr>curproc := Some 0, logs := l\<rparr>"
  have "calm ?s" "sized ?s" using len by (auto simp: calm_def boot_state_def sized_def)
  moreover have "LBcache \<notin> set (held ?s)" "bufs ?s = replicate NBUF zero_buf" "disk ?s = d" "held ?s = []" "dwrites ?s = []" "logs ?s = l"
    by (simp_all add: boot_state_def)
  ultimately obtain t where "blk_inv Map.empty {} t" "disk t = d" "dwrites t = []" "bio_rest t = bio_rest ?s"
    using binit_blk[of ?s] assms(1) by auto
  then show ?thesis using bio_rest_fields(1,10)[of t ?s] \<open>held ?s = []\<close> \<open>logs ?s = l\<close> by auto
qed

section \<open>The contract, stated for one block\<close>

text \<open>
  \<open>binit\<close> on the zeroed buffer array returns with every buffer on the list, most recently linked
  first, nothing cached, held or pinned, and every block reading as on the disk.
\<close>

theorem binit_ready:
  assumes "calm s" "LBcache \<notin> set (held s)" "sized s" "bufs s = replicate NBUF zero_buf" "\<And>bn. length (disk s bn) = BSIZE"
  shows "\<exists>t. binit s = Ret () t \<and> blk_inv Map.empty {} t \<and> lru t (rev [0..<NBUF]) \<and> view t = disk s"
proof -
  obtain t where t: "binit s = Ret () t" "blk_inv Map.empty {} t" "lru t (rev [0..<NBUF])" "disk t = disk s"
    using binit_blk[OF assms] by blast
  moreover have "view t = disk s" using bc.vw_disk[OF t(2)] t(4) by auto
  ultimately show ?thesis by blast
qed

theorem binit_ready_witness:
  "\<exists>t. binit ((boot_state 0 0 0 zero_symbols (\<lambda>_. replicate BSIZE 7))\<lparr>curproc := Some 0\<rparr>) = Ret () t \<and>
     blk_inv Map.empty {} t \<and> lru t (rev [0..<NBUF]) \<and> view t 3 = replicate BSIZE 7"
proof -
  let ?s = "(boot_state 0 0 0 zero_symbols (\<lambda>_. replicate BSIZE 7))\<lparr>curproc := Some 0\<rparr>"
  have "calm ?s" "sized ?s" by (auto simp: calm_def boot_state_def sized_def)
  then have "\<exists>t. binit ?s = Ret () t \<and> blk_inv Map.empty {} t \<and> lru t (rev [0..<NBUF]) \<and> view t = disk ?s"
    by (intro binit_ready) (simp_all add: boot_state_def)
  then show ?thesis by (auto simp: boot_state_def)
qed

text \<open>
  (C4) \<open>bread\<close> returns a locked buffer that was not held before and holds the current contents of the
  block: what was last written to it through the cache, whether that is still in a buffer or on the disk.  No
  block changes its contents by being read or by the eviction this causes.
\<close>

theorem bread_current:
  assumes inv: "blk_inv H Q s" and nh: "bn \<notin> ran H" and room: "card (dom H) + card Q < NBUF"
  shows "\<exists>b t. bread ROOTDEV bn s = Ret b t \<and> H b = None \<and> blk_inv (H(b \<mapsto> bn)) Q t \<and>
    b_data (bufs t ! b) = view s bn \<and> sl_locked (b_lock (bufs t ! b)) \<and> view t = view s \<and> disk t = disk s"
proof -
  obtain b t where t: "bread ROOTDEV bn s = Ret b t" "H b = None" "blk_inv (H(b \<mapsto> bn)) Q t" "view t = view s" "disk t = disk s"
    using bread_blk[OF inv nh] room by blast
  have h: "b < NBUF" "b_data (bufs t ! b) = view t bn" using blk_held[OF t(3), of b bn] by simp_all
  obtain P where "bio_inv (dom (H(b \<mapsto> bn))) P t" using blk_invE[OF t(3)] by metis
  then have "sl_locked (b_lock (bufs t ! b))" using bio_inv_buf[OF _ h(1)] by (fastforce simp: buf_ok_def)
  then show ?thesis using t h by auto
qed

theorem bread_current_witness:
  "\<exists>s b t. blk_inv Map.empty {} s \<and> bread ROOTDEV 3 s = Ret b t \<and> b_data (bufs t ! b) = replicate BSIZE 7"
proof -
  obtain s where s: "blk_inv Map.empty {} s" "disk s = (\<lambda>_. replicate BSIZE 7)"
    using fresh_cache[of "\<lambda>_. replicate BSIZE 7" "logs (boot_state 0 0 0 zero_symbols (\<lambda>_. []))"] by (auto simp: boot_state_def)
  moreover have "view s 3 = disk s 3" using bc.vw_disk[OF s(1)] by simp
  ultimately show ?thesis using bread_current[OF s(1), of 3] by auto
qed

text \<open>
  (C10) Replacement.  The pointer-chasing \<open>bget\<close> computes the list-level policy: it takes the buffer that caches
  the block if there is one, otherwise the unreferenced buffer that was released longest ago (the last
  one of the list), and panics exactly if every buffer is referenced.
\<close>

theorem bget_is_lru:
  assumes inv: "blk_inv Map.empty Q s" and l: "lru s xs" "set xs = {0..<NBUF}"
  shows "bget ROOTDEV bn s =
     (case List.find (caches s ROOTDEV bn) xs of
        Some b \<Rightarrow> Ret b (take_hit b s)
      | None \<Rightarrow> (case lru_victim s xs of Some b \<Rightarrow> Ret b (take_miss ROOTDEV bn b s) | None \<Rightarrow> Panic ''bget: no buffers''))"
proof -
  obtain P where P: "bio_inv (dom (Map.empty :: nat \<rightharpoonup> uint)) P s" using blk_invE[OF inv] by metis
  have "LBcache \<notin> set (held s)" "length (bufs s) = NBUF" "calm s" using bio_inv_basic[OF P] by simp_all
  moreover have "\<not> sl_locked (b_lock (bufs s ! b))" if "b < NBUF" for b using bio_inv_buf[OF P that] by (simp add: buf_ok_def)
  ultimately show ?thesis by (intro bget_eq[OF l]) simp_all
qed

theorem bget_is_lru_witness:
  "\<exists>s t. blk_inv Map.empty {} s \<and> lru s (rev [0..<NBUF]) \<and> bget ROOTDEV 3 s = Ret 0 t"
proof -
  let ?s = "(boot_state 0 0 0 zero_symbols (\<lambda>_. replicate BSIZE 7))\<lparr>curproc := Some 0\<rparr>"
  have "calm ?s" "sized ?s" by (auto simp: calm_def boot_state_def sized_def)
  then obtain s where s: "blk_inv Map.empty {} s" "lru s (rev [0..<NBUF])" "bufs s = replicate NBUF zero_buf"
    using binit_blk[of ?s] by (auto simp: boot_state_def)
  have "List.find (caches s ROOTDEV 3) (rev [0..<NBUF]) = None"
    using s(3) by (auto simp: find_None_iff caches_def zero_buf_def)
  moreover have "lru_victim s (rev [0..<NBUF]) = Some 0"
    using s(3) by (simp add: lru_victim_def upt_conv_Cons zero_buf_def del: upt_Suc)
  ultimately have "bget ROOTDEV 3 s = Ret 0 (take_miss ROOTDEV 3 0 s)"
    using bget_is_lru[OF s(1,2), of 3] by (simp only: set_rev set_upt option.case simp_thms)
  then show ?thesis using s(1,2) by blast
qed

end
