(* ===== verification/Xv6_Log.thy ===== *)
theory Xv6_Log
  imports Xv6_Blocks
begin

text \<open>
  \<^verbatim>\<open>kernel/log.c\<close>: the redo log.  \<open>logs\<close> is the in-memory \<open>struct log\<close>; the on-disk header is
  encoded in the bytes of block \<open>lg_start\<close>: the count at offset 0 and the block numbers from
  offset 4 on.

  The theory gives the exact sequence of disk writes of \<open>commit\<close>, and shows that \<open>log_write\<close> pins a block and
  records it once and that \<open>end_op\<close> and \<open>log_write\<close> keep the invariant that ties the in-memory header
  to the pinned buffers.  Theory \<open>Xv6_Crash\<close> draws the consequences for crashes.
\<close>

section \<open>Operations\<close>

definition upd_log :: "(logst \<Rightarrow> logst) \<Rightarrow> kstate \<Rightarrow> kstate" where
  "upd_log f s = s\<lparr>logs := f (logs s)\<rparr>"

text \<open>\<open>memmove(dst->data, src->data, BSIZE)\<close> between two buffers.\<close>

definition copy_data :: "nat \<Rightarrow> nat \<Rightarrow> kstate \<Rightarrow> kstate" where
  "copy_data dst src s =
     set_data dst (splice (b_data (bufs s ! dst)) 0 (take BSIZE (b_data (bufs s ! src)))) s"

definition install_trans_body :: "bool \<Rightarrow> nat \<Rightarrow> unit kernel" where
  "install_trans_body recovering tail = bindK (getK logs) (\<lambda>lg.
     bindK (bread (lg_dev lg) (lg_start lg + of_nat tail + 1)) (\<lambda>lbuf.
     bindK (bread (lg_dev lg) (lh_block lg ! tail)) (\<lambda>dbuf.
     thenK (modK (copy_data dbuf lbuf))
    (thenK (bwrite dbuf)
    (thenK (whenK (\<not> recovering) (bunpin dbuf))
    (thenK (brelse lbuf)
           (brelse dbuf)))))))"

definition install_trans :: "bool \<Rightarrow> unit kernel" where
  "install_trans recovering = bindK (getK (\<lambda>s. lh_n (logs s))) (\<lambda>n.
     forK [0..<nat n] (install_trans_body recovering))"

definition read_head_loop :: "bytes \<Rightarrow> nat \<Rightarrow> uint list \<Rightarrow> uint list" where
  "read_head_loop d n blocks = fold (\<lambda>i bs. bs[i := get32 d (4 + 4 * i)]) [0..<n] blocks"

definition read_head :: "unit kernel" where
  "read_head = bindK (getK logs) (\<lambda>lg.
     bindK (bread (lg_dev lg) (lg_start lg)) (\<lambda>b.
     bindK (getK (\<lambda>s. b_data (bufs s ! b))) (\<lambda>d.
     thenK (modK (upd_log (\<lambda>l. l\<lparr>lh_n := sint (get32 d 0)\<rparr>)))
    (thenK (if sint (get32 d 0) > int LOGSIZE then undefK
            else modK (upd_log (\<lambda>l. l\<lparr>lh_block := read_head_loop d (nat (lh_n l)) (lh_block l)\<rparr>)))
           (brelse b)))))"

definition put_header :: "bytes \<Rightarrow> int \<Rightarrow> uint list \<Rightarrow> bytes" where
  "put_header d n blocks =
     fold (\<lambda>i d. put32 d (4 + 4 * i) (blocks ! i)) [0..<nat n] (put32 d 0 (word_of_int n))"

definition write_head :: "unit kernel" where
  "write_head = bindK (getK logs) (\<lambda>lg.
     bindK (bread (lg_dev lg) (lg_start lg)) (\<lambda>b.
     thenK (modK (\<lambda>s. set_data b (put_header (b_data (bufs s ! b)) (lh_n (logs s)) (lh_block (logs s))) s))
    (thenK (bwrite b)
           (brelse b))))"

definition recover_from_log :: "unit kernel" where
  "recover_from_log =
     thenK read_head
    (thenK (install_trans True)
    (thenK (modK (upd_log (\<lambda>l. l\<lparr>lh_n := 0\<rparr>)))
           write_head))"

definition initlog :: "uint \<Rightarrow> superblock \<Rightarrow> unit kernel" where
  "initlog dev sbp =
     thenK (whenK (4 + 4 * LOGSIZE \<ge> BSIZE) (panicK ''initlog: too big logheader''))
    (thenK (modK (upd_log (\<lambda>l. l\<lparr>lg_start := sb_logstart sbp, lg_size := sint (sb_nlog sbp), lg_dev := dev\<rparr>)))
           recover_from_log)"

text \<open>When \<open>begin_op\<close> sleeps it continues, after \<open>sleep_resume\<close>, with \<open>begin_op_loop\<close>.\<close>

definition begin_op_loop :: "unit kernel" where
  "begin_op_loop = bindK (getK logs) (\<lambda>lg.
     if lg_committing lg then sleep ChLog LLog
     else if lh_n lg + (lg_outstanding lg + 1) * int MAXOPBLOCKS > int LOGSIZE then sleep ChLog LLog
     else thenK (modK (upd_log (\<lambda>l. l\<lparr>lg_outstanding := lg_outstanding l + 1\<rparr>))) (release LLog))"

definition begin_op :: "unit kernel" where
  "begin_op = thenK (acquire LLog) begin_op_loop"

definition write_log_body :: "nat \<Rightarrow> unit kernel" where
  "write_log_body tail = bindK (getK logs) (\<lambda>lg.
     bindK (bread (lg_dev lg) (lg_start lg + of_nat tail + 1)) (\<lambda>to.
     bindK (bread (lg_dev lg) (lh_block lg ! tail)) (\<lambda>from.
     thenK (modK (copy_data to from))
    (thenK (bwrite to)
    (thenK (brelse from)
           (brelse to))))))"

definition write_log :: "unit kernel" where
  "write_log = bindK (getK (\<lambda>s. lh_n (logs s))) (\<lambda>n. forK [0..<nat n] write_log_body)"

definition commit :: "unit kernel" where
  "commit = bindK (getK (\<lambda>s. lh_n (logs s))) (\<lambda>n.
     whenK (n > 0)
       (thenK write_log
       (thenK write_head
       (thenK (install_trans False)
       (thenK (modK (upd_log (\<lambda>l. l\<lparr>lh_n := 0\<rparr>)))
              write_head)))))"

definition end_op :: "unit kernel" where
  "end_op =
     thenK (acquire LLog)
    (thenK (modK (upd_log (\<lambda>l. l\<lparr>lg_outstanding := lg_outstanding l - 1\<rparr>)))
    (bindK (getK logs) (\<lambda>lg.
     if lg_committing lg then panicK ''log.committing''
     else if lg_outstanding lg = 0 then
       thenK (modK (upd_log (\<lambda>l. l\<lparr>lg_committing := True\<rparr>)))
      (thenK (release LLog)
      (thenK commit
      (thenK (acquire LLog)
      (thenK (modK (upd_log (\<lambda>l. l\<lparr>lg_committing := False\<rparr>)))
      (thenK (wakeup ChLog)
             (release LLog))))))
     else thenK (wakeup ChLog) (release LLog))))"

function log_slot :: "nat \<Rightarrow> nat \<Rightarrow> uint list \<Rightarrow> uint \<Rightarrow> nat" where
  "log_slot i n blocks bn = (if i < n then if blocks ! i = bn then i else log_slot (i + 1) n blocks bn else i)"
  by auto
termination by (relation "measure (\<lambda>(i, n, _). n - i)") auto

declare log_slot.simps [simp del]

definition log_write :: "nat \<Rightarrow> unit kernel" where
  "log_write b =
     thenK (acquire LLog)
    (bindK (getK logs) (\<lambda>lg.
     if lh_n lg \<ge> int LOGSIZE \<or> lh_n lg \<ge> lg_size lg - 1 then panicK ''too big a transaction''
     else if lg_outstanding lg < 1 then panicK ''log_write outside of trans''
     else bindK (getK (\<lambda>s. b_blockno (bufs s ! b))) (\<lambda>bn.
       let i = log_slot 0 (nat (lh_n lg)) (lh_block lg) bn in
       thenK (modK (upd_log (\<lambda>l. l\<lparr>lh_block := (lh_block l)[i := bn]\<rparr>)))
      (thenK (whenK (int i = lh_n lg)
               (thenK (bpin b) (modK (upd_log (\<lambda>l. l\<lparr>lh_n := lh_n l + 1\<rparr>)))))
             (release LLog)))))"

section \<open>Sequences of disk writes\<close>

definition apply_writes :: "(uint \<times> bytes) list \<Rightarrow> (uint \<Rightarrow> bytes) \<Rightarrow> uint \<Rightarrow> bytes" where
  "apply_writes ws d = fold (\<lambda>(bn, v) d. d(bn := v)) ws d"

lemma apply_writes_simps [simp]:
  "apply_writes [] d = d"
  "apply_writes ((bn, v) # ws) d = apply_writes ws (d(bn := v))"
  "apply_writes (ws @ us) d = apply_writes us (apply_writes ws d)"
  by (simp_all add: apply_writes_def)

lemma apply_writes_other: "bn \<notin> fst ` set ws \<Longrightarrow> apply_writes ws d bn = d bn"
  by (induction ws arbitrary: d) auto

lemma apply_writes_idx:
  "distinct (map f is) \<Longrightarrow> i \<in> set is \<Longrightarrow> apply_writes (map (\<lambda>i. (f i, g i)) is) d (f i) = g i"
proof (induction "is" arbitrary: d)
  case (Cons j js)
  show ?case
  proof (cases "i \<in> set js")
    case False
    then have "i = j" "f i \<notin> fst ` set (map (\<lambda>i. (f i, g i)) js)" using Cons.prems by auto
    then show ?thesis using apply_writes_other[of "f i" "map (\<lambda>i. (f i, g i)) js"] by simp
  qed (use Cons in simp)
qed simp

definition wrotes :: "(uint \<times> bytes) list \<Rightarrow> kstate \<Rightarrow> kstate \<Rightarrow> bool" where
  "wrotes ws s t \<longleftrightarrow> view t = apply_writes ws (view s) \<and> disk t = apply_writes ws (disk s) \<and>
     dwrites t = dwrites s @ ws \<and> bio_rest t = bio_rest s"

lemma wrotes_one: "bc.wrote bn d s t \<Longrightarrow> wrotes [(bn, d)] s t"
  by (simp add: bc.wrote_def wrotes_def)

lemma wrotes_Nil [simp]: "wrotes [] s s"
  by (simp add: wrotes_def)

lemma wrotes_trans: "wrotes ws s t \<Longrightarrow> wrotes us t u \<Longrightarrow> wrotes (ws @ us) s u"
  by (simp add: wrotes_def)

lemma copy_data_eq:
  "length (b_data (bufs t ! to)) = BSIZE \<Longrightarrow> length (b_data (bufs t ! from)) = BSIZE \<Longrightarrow>
   copy_data to from t = set_data to (b_data (bufs t ! from)) t"
  by (simp add: copy_data_def splice_def)

section \<open>The header block\<close>

lemma put_header_len:
  "length d = BSIZE \<Longrightarrow> nat n \<le> LOGSIZE \<Longrightarrow> length (put_header d n bl) = BSIZE"
proof -
  assume d: "length d = BSIZE" and n: "nat n \<le> LOGSIZE"
  have "k \<le> LOGSIZE \<Longrightarrow> length (fold (\<lambda>i d. put32 d (4 + 4 * i) (bl ! i)) [0..<k] (put32 d 0 w)) = BSIZE" for k w
    by (induction k) (use d in simp_all)
  then show ?thesis using n by (simp add: put_header_def)
qed

lemma put_header_get:
  assumes d: "length d = BSIZE" and n: "nat n \<le> LOGSIZE"
  shows "get32 (put_header d n bl) 0 = word_of_int n"
    and "i < nat n \<Longrightarrow> get32 (put_header d n bl) (4 + 4 * i) = bl ! i"
proof -
  let ?f = "\<lambda>k. fold (\<lambda>i d. put32 d (4 + 4 * i) (bl ! i)) [0..<k] (put32 d 0 (word_of_int n))"
  have len: "k \<le> LOGSIZE \<Longrightarrow> length (?f k) = BSIZE" for k
    by (induction k) (use d in simp_all)
  have "k \<le> LOGSIZE \<Longrightarrow> get32 (?f k) 0 = word_of_int n \<and> (\<forall>i<k. get32 (?f k) (4 + 4 * i) = bl ! i)" for k
  proof (induction k)
    case (Suc k)
    then have l: "length (?f k) = BSIZE" and IH: "get32 (?f k) 0 = word_of_int n" "\<forall>i<k. get32 (?f k) (4 + 4 * i) = bl ! i"
      using len[of k] by simp_all
    have "get32 (put32 (?f k) (4 + 4 * k) (bl ! k)) (4 + 4 * i) = bl ! i" if "i < Suc k" for i
      using that IH l Suc.prems by (cases "i = k") (simp_all add: get32_put32_other)
    then show ?case using IH l Suc.prems by (simp add: get32_put32_other)
  qed (use d in simp)
  from this[of "nat n"] n show "get32 (put_header d n bl) 0 = word_of_int n"
    and "i < nat n \<Longrightarrow> get32 (put_header d n bl) (4 + 4 * i) = bl ! i"
    by (simp_all add: put_header_def)
qed

section \<open>The transaction and the log area\<close>

definition logged :: "logst \<Rightarrow> uint list" where
  "logged l = take (nat (lh_n l)) (lh_block l)"

definition log_addr :: "logst \<Rightarrow> nat \<Rightarrow> uint" where
  "log_addr l i = lg_start l + of_nat i + 1"

definition log_area :: "logst \<Rightarrow> uint set" where
  "log_area l = (\<lambda>i. lg_start l + of_nat i) ` {0..<nat (lg_size l)}"

definition log_ok :: "logst \<Rightarrow> bool" where
  "log_ok l \<longleftrightarrow> lg_dev l = ROOTDEV \<and> length (lh_block l) = LOGSIZE \<and> 0 \<le> lh_n l \<and> lh_n l < lg_size l \<and>
     lg_size l \<le> int NBUF \<and> distinct (logged l) \<and> set (logged l) \<inter> log_area l = {}"

lemma log_okD:
  assumes "log_ok l"
  shows "lg_dev l = ROOTDEV" "length (lh_block l) = LOGSIZE" "length (logged l) = nat (lh_n l)"
    "nat (lh_n l) < nat (lg_size l)" "nat (lg_size l) \<le> NBUF" "0 \<le> lh_n l"
    "distinct (logged l)" "set (logged l) \<inter> log_area l = {}"
  using assms by (auto simp: log_ok_def logged_def)

lemma of_nat_inj32: "i < 2 ^ 32 \<Longrightarrow> j < 2 ^ 32 \<Longrightarrow> (of_nat i :: uint) = of_nat j \<longleftrightarrow> i = j"
  by (auto dest: arg_cong[of _ _ unat] simp: unat_of_nat take_bit_nat_eq_self)

lemma log_addr_area: "Suc i < nat (lg_size l) \<Longrightarrow> log_addr l i \<in> log_area l"
  unfolding log_area_def log_addr_def by (rule image_eqI[of _ _ "Suc i"]) simp_all

lemma log_start_area: "0 < lg_size l \<Longrightarrow> lg_start l \<in> log_area l"
  unfolding log_area_def by (rule image_eqI[of _ _ 0]) simp_all

lemma log_addr_inj: "i < 2 ^ 32 \<Longrightarrow> j < 2 ^ 32 \<Longrightarrow> log_addr l i = log_addr l j \<longleftrightarrow> i = j"
  by (simp add: log_addr_def of_nat_inj32)

lemma log_addr_start: "Suc i < 2 ^ 32 \<Longrightarrow> log_addr l i \<noteq> lg_start l"
  using of_nat_inj32[of "Suc i" 0] by (simp add: log_addr_def add.assoc add.commute[of 1])

lemma log_addr_distinct: "n \<le> NBUF \<Longrightarrow> distinct (map (log_addr l) [0..<n])"
  by (auto simp: distinct_map inj_on_def log_addr_inj)

section \<open>The loops\<close>

definition out_writes :: "logst \<Rightarrow> (uint \<Rightarrow> bytes) \<Rightarrow> nat \<Rightarrow> (uint \<times> bytes) list" where
  "out_writes l v n = map (\<lambda>i. (log_addr l i, v (lh_block l ! i))) [0..<n]"

definition home_writes :: "logst \<Rightarrow> (uint \<Rightarrow> bytes) \<Rightarrow> nat \<Rightarrow> (uint \<times> bytes) list" where
  "home_writes l v n = map (\<lambda>i. (lh_block l ! i, v (log_addr l i))) [0..<n]"

lemma logged_nth: "log_ok l \<Longrightarrow> i < nat (lh_n l) \<Longrightarrow> logged l ! i = lh_block l ! i"
  by (simp add: logged_def)

lemma logged_mem:
  assumes "log_ok l" "i < nat (lh_n l)"
  shows "lh_block l ! i \<in> set (logged l)" "lh_block l ! i \<notin> log_area l"
proof -
  show m: "lh_block l ! i \<in> set (logged l)"
    using assms log_okD(3)[OF assms(1)] nth_mem[of i "logged l"] logged_nth[OF assms] by simp
  then show "lh_block l ! i \<notin> log_area l" using log_okD(8)[OF assms(1)] by auto
qed

lemma card_logged: "log_ok l \<Longrightarrow> card (set (logged l)) = nat (lh_n l)"
  using log_okD(3,7) distinct_card[of "logged l"] by simp

lemma wrotes_logs: "wrotes ws s t \<Longrightarrow> logs t = logs s"
  by (rule bio_rest_fields(10)) (simp add: wrotes_def)

lemma out_writes_view:
  assumes ok: "log_ok l" and "n \<le> nat (lh_n l)" "i < nat (lh_n l)"
  shows "apply_writes (out_writes l v n) d (lh_block l ! i) = d (lh_block l ! i)"
proof (rule apply_writes_other)
  have "log_addr l j \<in> log_area l" if "j < n" for j
    using that assms(2) log_okD(4)[OF ok] by (intro log_addr_area) linarith
  then show "lh_block l ! i \<notin> fst ` set (out_writes l v n)"
    using logged_mem(2)[OF ok assms(3)] by (auto simp: out_writes_def)
qed

lemma write_log_loop:
  assumes ok: "log_ok (logs s)" and inv: "blk_inv Map.empty (set (logged (logs s))) s" and n: "n \<le> nat (lh_n (logs s))"
  shows "\<exists>t. forK [0..<n] write_log_body s = Ret () t \<and> blk_inv Map.empty (set (logged (logs s))) t \<and>
     wrotes (out_writes (logs s) (view s) n) s t"
  using n
proof (induction n)
  case 0
  then show ?case using inv by (simp add: out_writes_def)
next
  case (Suc n)
  let ?l = "logs s" and ?Q = "set (logged (logs s))"
  obtain t where t: "forK [0..<n] write_log_body s = Ret () t" "blk_inv Map.empty ?Q t"
    "wrotes (out_writes ?l (view s) n) s t" using Suc.IH[OF Suc_leD[OF Suc.prems]] by blast
  have l: "logs t = ?l" using wrotes_logs[OF t(3)] .
  have i: "n < nat (lh_n ?l)" using Suc.prems by simp
  note src = logged_mem[OF ok i]
  have dst: "log_addr ?l n \<in> log_area ?l" using i log_okD(4)[OF ok] by (intro log_addr_area) linarith
  have ne: "lh_block ?l ! n \<noteq> log_addr ?l n" using src(2) dst by metis
  have room: "card ?Q < NBUF" using card_logged[OF ok] log_okD(4,5)[OF ok] by linarith
  obtain u where u: "bindK (bread ROOTDEV (log_addr ?l n)) (\<lambda>to. bindK (bread ROOTDEV (lh_block ?l ! n)) (\<lambda>from.
       thenK (modK (copy_data to from)) (thenK (bwrite to) (thenK (brelse from) (brelse to))))) t = Ret () u"
    "blk_inv Map.empty ?Q u" "bc.wrote (log_addr ?l n) (view t (lh_block ?l ! n)) t u"
    using bc.copy_out[OF t(2) room src(1) ne, where upd = copy_data, OF copy_data_eq] by blast
  have v: "view t (lh_block ?l ! n) = view s (lh_block ?l ! n)"
    using t(3) out_writes_view[OF ok _ i, of n] i by (simp add: wrotes_def)
  have "write_log_body n t = Ret () u"
    using u(1) unfolding write_log_body_def bindK_apply getK_apply bindO.simps l log_okD(1)[OF ok] log_addr_def .
  moreover have "wrotes (out_writes ?l (view s) (Suc n)) s u"
    using wrotes_trans[OF t(3) wrotes_one[OF u(3)]] v by (simp add: out_writes_def)
  ultimately show ?case using t(1) u(2) by (intro exI[of _ u]) (simp add: forK_append)
qed

text \<open>
  Installing the log: the home blocks are pinned when a transaction commits (\<open>Q\<close> is the whole
  transaction) and unpinned during recovery (\<open>Q\<close> is empty).
\<close>

lemma home_writes_view:
  assumes len: "\<And>j. j < n \<Longrightarrow> lh_block l ! j \<notin> log_area l" and i: "Suc i < nat (lg_size l)"
  shows "apply_writes (home_writes l v n) d (log_addr l i) = d (log_addr l i)"
proof (rule apply_writes_other)
  show "log_addr l i \<notin> fst ` set (home_writes l v n)"
    using len log_addr_area[OF i] by (auto simp: home_writes_def)
qed

lemma home_writes_Suc:
  "home_writes l v (Suc n) = home_writes l v n @ [(lh_block l ! n, v (log_addr l n))]"
  by (simp add: home_writes_def)

lemma install_loop:
  assumes dev: "lg_dev (logs s) = ROOTDEV" and size: "N < nat (lg_size (logs s))" "nat (lg_size (logs s)) \<le> NBUF"
    and home: "\<And>j. j < N \<Longrightarrow> lh_block (logs s) ! j \<notin> log_area (logs s)"
    and inv: "blk_inv Map.empty Q s"
    and Q: "Q = (if rc then {} else set (take N (lh_block (logs s))))" and N: "N \<le> length (lh_block (logs s))"
    and dist: "\<not> rc \<Longrightarrow> distinct (take N (lh_block (logs s)))"
    and n: "n \<le> N"
  shows "\<exists>t. forK [0..<n] (install_trans_body rc) s = Ret () t \<and>
     blk_inv Map.empty (Q - set (take n (lh_block (logs s)))) t \<and> wrotes (home_writes (logs s) (view s) n) s t"
  using n
proof (induction n)
  case 0
  then show ?case using inv by (simp add: home_writes_def)
next
  case (Suc n)
  let ?l = "logs s" and ?Q = "Q - set (take n (lh_block (logs s)))" and ?d = "lh_block (logs s) ! n" and ?a = "log_addr (logs s) n"
  obtain t where t: "forK [0..<n] (install_trans_body rc) s = Ret () t" "blk_inv Map.empty ?Q t"
    "wrotes (home_writes ?l (view s) n) s t" using Suc.IH[OF Suc_leD[OF Suc.prems]] by blast
  have l: "logs t = ?l" using wrotes_logs[OF t(3)] .
  have a: "?a \<in> log_area ?l" using Suc.prems size by (intro log_addr_area) linarith
  have nl: "n < N" using Suc.prems by simp
  have ne: "?a \<noteq> ?d" using a home[OF nl] by metis
  have tk: "take (Suc n) (lh_block ?l) = take n (lh_block ?l) @ [?d]" using nl N by (simp add: take_Suc_conv_app_nth)
  have "?d \<notin> set (take n (lh_block ?l))" if "\<not> rc"
  proof -
    have "distinct (take (Suc n) (take N (lh_block ?l)))" using dist[OF that] by (rule distinct_take)
    then have "distinct (take (Suc n) (lh_block ?l))" using nl by (simp add: min_def)
    then show ?thesis unfolding tk by simp
  qed
  moreover have "?d \<in> set (take N (lh_block ?l))" using nl N by (auto simp: in_set_conv_nth intro!: exI[of _ n])
  ultimately have pin: "\<not> rc \<longleftrightarrow> ?d \<in> ?Q" using Q by auto
  have cQ: "card Q \<le> N" using Q N card_length[of "take N (lh_block ?l)"] by (auto split: if_splits)
  have "card ?Q \<le> card Q" using bc.fin[OF inv] by (intro card_mono) auto
  then have cl: "card ?Q < NBUF" using cQ size by linarith
  have room: "?d \<in> ?Q \<and> card ?Q < NBUF \<or> Suc (card ?Q) < NBUF"
  proof (cases rc)
    case True
    then have "?Q = {}" using Q by simp
    then have "card ?Q = 0" by (simp only: card.empty)
    then have "Suc (card ?Q) < NBUF" unfolding NBUF_def MAXOPBLOCKS_def by linarith
    then show ?thesis ..
  next
    case False
    then show ?thesis using pin cl by blast
  qed
  have "set (take N (lh_block ?l)) \<inter> log_area ?l = {}"
    using home N by (auto simp: in_set_conv_nth)
  then have src: "?a \<notin> ?Q" using a Q by (auto split: if_splits)
  obtain u where u: "bindK (bread ROOTDEV ?a) (\<lambda>from. bindK (bread ROOTDEV ?d) (\<lambda>to.
       thenK (modK (copy_data to from)) (thenK (bwrite to) (thenK (whenK (\<not> rc) (bunpin to)) (thenK (brelse from) (brelse to)))))) t = Ret () u"
    "blk_inv Map.empty (?Q - {?d}) u" "bc.wrote ?d (view t ?a) t u"
    using bc.copy_home[OF t(2) room src ne _ pin, where upd = copy_data, OF copy_data_eq] by blast
  have v: "view t ?a = view s ?a"
    using t(3) home_writes_view[of n ?l n] home nl size Suc.prems by (simp add: wrotes_def)
  have "install_trans_body rc n t = Ret () u"
    using u(1) unfolding install_trans_body_def bindK_apply getK_apply bindO.simps l dev log_addr_def .
  moreover have "wrotes (home_writes ?l (view s) (Suc n)) s u"
    using wrotes_trans[OF t(3) wrotes_one[OF u(3)]] v by (simp add: home_writes_Suc)
  moreover have "?Q - {?d} = Q - set (take (Suc n) (lh_block ?l))" unfolding tk by auto
  ultimately show ?case using t(1) u(2) by (intro exI[of _ u]) (simp add: forK_append)
qed

lemma write_head_spec:
  assumes dev: "lg_dev (logs s) = ROOTDEV" and n: "nat (lh_n (logs s)) \<le> LOGSIZE"
    and inv: "blk_inv Map.empty Q s" and room: "card Q < NBUF"
  shows "\<exists>t. write_head s = Ret () t \<and> blk_inv Map.empty Q t \<and>
     wrotes [(lg_start (logs s), put_header (view s (lg_start (logs s))) (lh_n (logs s)) (lh_block (logs s)))] s t"
proof -
  let ?f = "\<lambda>d. put_header d (lh_n (logs s)) (lh_block (logs s))" and ?st = "lg_start (logs s)"
  let ?upd = "\<lambda>b t. set_data b (put_header (b_data (bufs t ! b)) (lh_n (logs t)) (lh_block (logs t))) t"
  have "length (?f (view s ?st)) = BSIZE" by (rule put_header_len[OF view_len_blk[OF inv] n])
  moreover have "?upd b t = set_data b (?f (b_data (bufs t ! b))) t" if "bio_rest t = bio_rest s" for b t
    using bio_rest_fields(10)[OF that] by simp
  ultimately obtain t where "bindK (bread ROOTDEV ?st) (\<lambda>b. thenK (modK (?upd b)) (thenK (bwrite b) (brelse b))) s = Ret () t"
     "blk_inv Map.empty Q t" "bc.wrote ?st (?f (view s ?st)) s t"
    using bc.update_block[OF inv room, where f = ?f and upd = ?upd] by blast
  then show ?thesis
    by (intro exI[of _ t]) (simp only: write_head_def bindK_apply getK_apply bindO.simps dev wrotes_one simp_thms)
qed

section \<open>Commit\<close>

lemma logs_frame [simp]:
  "mypid (s\<lparr>logs := l\<rparr>) = mypid s" "caches (s\<lparr>logs := l\<rparr>) = caches s"
  "calm (s\<lparr>logs := l\<rparr>) = calm s" "bcache_inv (s\<lparr>logs := l\<rparr>) = bcache_inv s"
  "pinned_blocks P (s\<lparr>logs := l\<rparr>) = pinned_blocks P s"
  by (simp_all add: mypid_def caches_def calm_def bcache_inv_def lru_def pinned_blocks_def fun_eq_iff split: option.split)

lemma view_logs [simp]: "view (s\<lparr>logs := l\<rparr>) = view s"
  by (rule view_transfer) simp_all

lemma blk_inv_logs [simp]: "blk_inv H Q (s\<lparr>logs := l\<rparr>) = blk_inv H Q s"
  by (simp add: blk_inv_def bio_inv_def)

lemma bio_rest_logs [simp]: "bio_rest (s\<lparr>logs := l\<rparr>) = (bio_rest s)\<lparr>logs := l\<rparr>"
  by (simp add: bio_rest_def)

definition commit_writes :: "logst \<Rightarrow> (uint \<Rightarrow> bytes) \<Rightarrow> (uint \<times> bytes) list" where
  "commit_writes l v = (let n = nat (lh_n l); h = put_header (v (lg_start l)) (lh_n l) (lh_block l) in
     out_writes l v n @ [(lg_start l, h)] @ map (\<lambda>i. (lh_block l ! i, v (lh_block l ! i))) [0..<n] @
     [(lg_start l, put_header h 0 (lh_block l))])"

lemma out_writes_start:
  "n \<le> NBUF \<Longrightarrow> apply_writes (out_writes l v n) d (lg_start l) = d (lg_start l)"
proof (rule apply_writes_other)
  assume "n \<le> NBUF"
  then have "log_addr l i \<noteq> lg_start l" if "i < n" for i using that by (intro log_addr_start) simp
  then show "lg_start l \<notin> fst ` set (out_writes l v n)" by (force simp: out_writes_def)
qed

lemma out_writes_addr:
  "n \<le> NBUF \<Longrightarrow> i < n \<Longrightarrow> apply_writes (out_writes l v n) d (log_addr l i) = v (lh_block l ! i)"
  unfolding out_writes_def by (rule apply_writes_idx) (simp_all add: log_addr_distinct)

lemma commit_spec:
  assumes ok: "log_ok (logs s)" and inv: "blk_inv Map.empty (set (logged (logs s))) s" and n: "0 < lh_n (logs s)"
  shows "\<exists>t. commit s = Ret () t \<and> blk_inv Map.empty {} t \<and> dwrites t = dwrites s @ commit_writes (logs s) (view s) \<and>
     disk t = apply_writes (commit_writes (logs s) (view s)) (disk s) \<and>
     view t = apply_writes (commit_writes (logs s) (view s)) (view s) \<and>
     bio_rest t = (bio_rest s)\<lparr>logs := (logs s)\<lparr>lh_n := 0\<rparr>\<rparr>"
proof -
  let ?l = "logs s" and ?n = "nat (lh_n (logs s))" and ?Q = "set (logged (logs s))" and ?st = "lg_start (logs s)"
  note okD = log_okD[OF ok]
  have nB: "?n \<le> NBUF" using okD(4,5) by linarith
  moreover have "NBUF = LOGSIZE" by simp
  ultimately have nB: "?n \<le> NBUF" "?n \<le> LOGSIZE" "?n \<le> length (lh_block ?l)" using okD(2) by metis+
  have room: "card ?Q < NBUF" using card_logged[OF ok] okD(4,5) by linarith
  let ?h = "put_header (view s ?st) (lh_n ?l) (lh_block ?l)"
  obtain t1 where 1: "forK [0..<?n] write_log_body s = Ret () t1" "blk_inv Map.empty ?Q t1" "wrotes (out_writes ?l (view s) ?n) s t1"
    using write_log_loop[OF ok inv order_refl] by blast
  have l1: "logs t1 = ?l" by (rule wrotes_logs[OF 1(3)])
  have st1: "view t1 ?st = view s ?st" using 1(3) out_writes_start[OF nB(1)] by (simp add: wrotes_def)
  obtain t2 where 2: "write_head t1 = Ret () t2" "blk_inv Map.empty ?Q t2" "wrotes [(?st, ?h)] t1 t2"
    using write_head_spec[of t1, OF _ _ 1(2) room] okD(1) nB(2) unfolding l1 st1 by blast
  have l2: "logs t2 = ?l" using wrotes_logs[OF 2(3)] l1 by simp
  have w2: "wrotes (out_writes ?l (view s) ?n @ [(?st, ?h)]) s t2" by (rule wrotes_trans[OF 1(3) 2(3)])
  have hv: "home_writes ?l (view t2) ?n = map (\<lambda>i. (lh_block ?l ! i, view s (lh_block ?l ! i))) [0..<?n]"
    unfolding home_writes_def
  proof (rule map_cong[OF refl])
    fix i assume "i \<in> set [0..<?n]"
    then have i: "i < ?n" by simp
    then have "log_addr ?l i \<noteq> ?st" using nB(1) by (intro log_addr_start) simp
    then show "(lh_block ?l ! i, view t2 (log_addr ?l i)) = (lh_block ?l ! i, view s (lh_block ?l ! i))"
      using w2 out_writes_addr[OF nB(1) i] by (simp add: wrotes_def)
  qed
  have Qt: "?Q = set (take ?n (lh_block ?l))" by (simp add: logged_def)
  obtain t3 where 3: "forK [0..<?n] (install_trans_body False) t2 = Ret () t3" "blk_inv Map.empty {} t3"
    "wrotes (home_writes ?l (view t2) ?n) t2 t3"
    using install_loop[of t2 ?n ?Q False ?n] okD logged_mem(2)[OF ok] 2(2) nB(3) Qt unfolding l2 by (auto simp: logged_def)
  have l3: "logs t3 = ?l" using wrotes_logs[OF 3(3)] l2 by simp
  let ?t3 = "t3\<lparr>logs := ?l\<lparr>lh_n := 0\<rparr>\<rparr>"
  have home: "?st \<notin> fst ` set (home_writes ?l (view t2) ?n)"
    using logged_mem(2)[OF ok] log_start_area[of ?l] n okD(4) by (auto simp: home_writes_def)
  have st3: "view ?t3 ?st = ?h"
    using 3(3) apply_writes_other[OF home] w2 by (simp add: wrotes_def)
  obtain t4 where 4: "write_head ?t3 = Ret () t4" "blk_inv Map.empty {} t4" "wrotes [(?st, put_header ?h 0 (lh_block ?l))] ?t3 t4"
    using write_head_spec[of ?t3 "{}"] okD(1) 3(2) st3 by auto
  have w3: "wrotes (out_writes ?l (view s) ?n @ [(?st, ?h)] @ home_writes ?l (view t2) ?n) s t3"
    using wrotes_trans[OF w2 3(3)] by simp
  have "commit s = Ret () t4"
    using n 1(1) 2(1) 3(1) 4(1) l1 l2 l3 by (simp add: commit_def write_log_def install_trans_def upd_log_def)
  moreover have "commit_writes ?l (view s) = (out_writes ?l (view s) ?n @ [(?st, ?h)] @ home_writes ?l (view t2) ?n) @
      [(?st, put_header ?h 0 (lh_block ?l))]" by (simp add: commit_writes_def Let_def hv)
  ultimately show ?thesis using 4(2,3) w3 unfolding wrotes_def by (intro exI[of _ t4]) simp
qed

section \<open>The end of an operation\<close>

text \<open>
  The state of the log between operations of the running process: the transaction so far is
  pinned in the cache and nothing of it is on the disk.
\<close>

definition header_n :: "bytes \<Rightarrow> int" where
  "header_n d = sint (get32 d 0)"

definition clean_log :: "logst \<Rightarrow> (uint \<Rightarrow> bytes) \<Rightarrow> bool" where
  "clean_log l d \<longleftrightarrow> header_n (d (lg_start l)) = 0"

definition log_inv :: "kstate \<Rightarrow> bool" where
  "log_inv s \<longleftrightarrow> log_ok (logs s) \<and> blk_inv Map.empty (set (logged (logs s))) s \<and> LLog \<notin> set (held s) \<and>
     clean_log (logs s) (disk s)"

lemma blk_inv_calm: "blk_inv H Q s \<Longrightarrow> calm s"
  by (auto simp: blk_inv_def bio_inv_def)

lemma blk_inv_woken: 
  assumes "blk_inv H Q s" shows "blk_inv H Q (woken ch s)"
proof -
  obtain P where P: "bio_inv (dom H) P s" "pinned_blocks P s = Q" "\<forall>b bn. H b = Some bn \<longrightarrow> b_blockno (bufs s ! b) = bn"
    using assms by (auto simp: blk_inv_def)
  have "\<exists>xs. lru (woken ch s) xs \<and> set xs = {0..<NBUF}" using bio_inv_lru[OF P(1)] by (simp add: lru_def)
  then have "bio_inv (dom H) P (woken ch s)" by (intro bio_inv_transfer[OF P(1)]) simp_all
  then show ?thesis using P(2,3) by (auto simp: blk_inv_def pinned_blocks_def)
qed

lemma view_woken [simp]: "view (woken ch s) = view s"
  by (rule view_transfer) simp_all

lemma woken_held: "woken ch (s\<lparr>held := h\<rparr>) = (woken ch s)\<lparr>held := h\<rparr>"
  by (simp add: woken_ptr_def)

lemma end_op_last_eq:
  assumes free: "LLog \<notin> set (held s)" and op: "lg_outstanding (logs s) = 1" "\<not> lg_committing (logs s)"
    and c: "commit (s\<lparr>logs := (logs s)\<lparr>lg_outstanding := 0, lg_committing := True\<rparr>\<rparr>) = Ret () t"
    and t: "held t = held s" "calm t"
  shows "end_op s = Ret () (woken ChLog (t\<lparr>logs := (logs t)\<lparr>lg_committing := False\<rparr>\<rparr>))"
proof -
  let ?u = "t\<lparr>held := LLog # held t, logs := (logs t)\<lparr>lg_committing := False\<rparr>\<rparr>"
  have s1: "s\<lparr>held := held s, logs := l\<rparr> = s\<lparr>logs := l\<rparr>" for l by simp
  have "proc_locks_free ?u" "length (procs ?u) = NPROC" using t(2) by (auto simp: calm_def proc_locks_free_def)
  then have "wakeup ChLog ?u = Ret () (woken ChLog ?u)" by (rule wakeup_eq)
  moreover have "(woken ChLog ?u)\<lparr>held := held t\<rparr> = woken ChLog (t\<lparr>logs := (logs t)\<lparr>lg_committing := False\<rparr>\<rparr>)"
    by (simp add: woken_ptr_def)
  ultimately show ?thesis
    using free op c t by (simp add: end_op_def upd_log_def s1)
qed

lemma log_addr_upd [simp]:
  "log_ok (l\<lparr>lg_outstanding := a, lg_committing := c\<rparr>) = log_ok l" "logged (l\<lparr>lg_outstanding := a, lg_committing := c\<rparr>) = logged l"
  "commit_writes (l\<lparr>lg_outstanding := a, lg_committing := c\<rparr>) = commit_writes l"
  by (simp_all add: log_ok_def logged_def log_area_def commit_writes_def out_writes_def log_addr_def Let_def fun_eq_iff)

lemma end_op_commits:
  assumes inv: "log_inv s" and op: "lg_outstanding (logs s) = 1" "\<not> lg_committing (logs s)" and n: "0 < lh_n (logs s)"
  shows "\<exists>t. end_op s = Ret () t \<and> blk_inv Map.empty {} t \<and> dwrites t = dwrites s @ commit_writes (logs s) (view s) \<and>
     disk t = apply_writes (commit_writes (logs s) (view s)) (disk s) \<and>
     view t = apply_writes (commit_writes (logs s) (view s)) (view s) \<and> held t = held s \<and>
     logs t = (logs s)\<lparr>lg_outstanding := 0, lg_committing := False, lh_n := 0\<rparr>"
proof -
  let ?l = "(logs s)\<lparr>lg_outstanding := 0, lg_committing := True\<rparr>"
  have i: "log_ok (logs s)" "blk_inv Map.empty (set (logged (logs s))) s" "LLog \<notin> set (held s)" using inv by (simp_all add: log_inv_def)
  obtain t where t: "commit (s\<lparr>logs := ?l\<rparr>) = Ret () t" "blk_inv Map.empty {} t" "dwrites t = dwrites s @ commit_writes (logs s) (view s)"
     "disk t = apply_writes (commit_writes (logs s) (view s)) (disk s)"
     "view t = apply_writes (commit_writes (logs s) (view s)) (view s)"
     "bio_rest t = (bio_rest s)\<lparr>logs := ?l\<lparr>lh_n := 0\<rparr>\<rparr>"
    using commit_spec[of "s\<lparr>logs := ?l\<rparr>"] i n by auto
  have h: "held t = held s" "logs t = ?l\<lparr>lh_n := 0\<rparr>" using arg_cong[OF t(6), of held] arg_cong[OF t(6), of logs] by simp_all
  have e: "end_op s = Ret () (woken ChLog (t\<lparr>logs := (logs t)\<lparr>lg_committing := False\<rparr>\<rparr>))"
    by (rule end_op_last_eq[OF i(3) op t(1) h(1) blk_inv_calm[OF t(2)]])
  show ?thesis
    unfolding e by (rule exI, rule conjI[OF refl]) (use t(2,3,4,5) h in \<open>simp add: blk_inv_woken\<close>)
qed

section \<open>Recording a block in the transaction\<close>

lemma log_slot_spec:
  "i \<le> n \<Longrightarrow> i \<le> log_slot i n bl bn \<and> log_slot i n bl bn \<le> n \<and> (log_slot i n bl bn < n \<longrightarrow> bl ! log_slot i n bl bn = bn) \<and>
     (\<forall>k. i \<le> k \<and> k < log_slot i n bl bn \<longrightarrow> bl ! k \<noteq> bn)"
proof (induction i n bl bn rule: log_slot.induct)
  case (1 i n bl bn)
  show ?case
  proof (cases "i < n \<and> bl ! i \<noteq> bn")
    case True
    then have e: "log_slot i n bl bn = log_slot (i + 1) n bl bn" by (subst log_slot.simps) simp
    have "bl ! k \<noteq> bn" if "i \<le> k" "k < log_slot (i + 1) n bl bn" for k
      using that 1 True by (cases "k = i") auto
    then show ?thesis using 1 True unfolding e by auto
  next
    case False
    then have "log_slot i n bl bn = i" by (subst log_slot.simps) auto
    then show ?thesis using False 1 by auto
  qed
qed

lemma log_slot_cases [consumes 1, case_names present absent]:
  assumes "n \<le> length bl"
  obtains (present) i where "log_slot 0 n bl bn = i" "i < n" "bl ! i = bn" "bn \<in> set (take n bl)"
    | (absent) "log_slot 0 n bl bn = n" "bn \<notin> set (take n bl)"
proof -
  let ?i = "log_slot 0 n bl bn"
  note sp = log_slot_spec[of 0 n bl bn]
  show thesis
  proof (cases "?i < n")
    case True
    then have "bl ! ?i = bn" using sp by simp
    moreover have "bl ! ?i \<in> set (take n bl)" using True assms by (auto simp: in_set_conv_nth intro!: exI[of _ ?i])
    ultimately show thesis using present[of ?i] True by auto
  next
    case False
    then have i: "?i = n" using sp by simp
    moreover have "bn \<notin> set (take n bl)" using sp assms unfolding i by (auto simp: in_set_conv_nth)
    ultimately show thesis using absent by blast
  qed
qed

lemma log_write_spec:
  assumes ok: "log_ok (logs s)" and inv: "blk_inv H (set (logged (logs s))) s" and b: "H b = Some bn"
    and free: "LLog \<notin> set (held s)" and op: "lg_outstanding (logs s) \<ge> 1" and room: "lh_n (logs s) < lg_size (logs s) - 1"
    and home: "bn \<notin> log_area (logs s)"
  shows "\<exists>t. log_write b s = Ret () t \<and> log_ok (logs t) \<and> blk_inv H (set (logged (logs t))) t \<and>
     set (logged (logs t)) = insert bn (set (logged (logs s))) \<and>
     lh_n (logs t) = lh_n (logs s) + (if bn \<in> set (logged (logs s)) then 0 else 1) \<and>
     view t = view s \<and> disk t = disk s \<and> dwrites t = dwrites s \<and>
     bio_rest t = (bio_rest s)\<lparr>logs := (logs s)\<lparr>lh_n := lh_n (logs t), lh_block := lh_block (logs t)\<rparr>\<rparr>"
proof -
  let ?l = "logs s" and ?n = "nat (lh_n (logs s))"
  note okD = log_okD[OF ok]
  have bn: "b_blockno (bufs s ! b) = bn" by (rule blk_held(4)[OF inv b])
  have "NBUF = LOGSIZE" by simp
  then have nl: "?n < LOGSIZE" "?n \<le> length (lh_block ?l)" using okD(2,4,5) by linarith+
  have ng: "\<not> lh_n ?l \<ge> int LOGSIZE" "\<not> lh_n ?l \<ge> lg_size ?l - 1" using nl(1) room by linarith+
  from nl(2) show ?thesis
  proof (cases rule: log_slot_cases[of ?n "lh_block ?l" bn])
    case (present i)
    have same: "(lh_block ?l)[i := bn] = lh_block ?l" using present(3) list_update_id[of "lh_block ?l" i] by simp
    have "(int i = lh_n ?l) = False" using present(2) by auto
    then have "log_write b s = Ret () s"
      using present(1,2) free op ng same bn okD(6) by (simp add: log_write_def upd_log_def del: LOGSIZE_def)
    then show ?thesis using ok inv present(4) by (intro exI[of _ s]) (auto simp: logged_def bio_rest_def)
  next
    case absent
    let ?l1 = "?l\<lparr>lh_block := (lh_block ?l)[?n := bn]\<rparr>" and ?l2 = "?l\<lparr>lh_n := lh_n ?l + 1, lh_block := (lh_block ?l)[?n := bn]\<rparr>"
    have q: "bn \<notin> set (logged ?l)" using absent(2) by (simp add: logged_def)
    let ?s1 = "s\<lparr>held := LLog # held s, logs := ?l1\<rparr>"
    have "blk_inv H (set (logged ?l)) (s\<lparr>logs := ?l1\<rparr>)" using inv by simp
    from bpin_blk[OF this b q] obtain t where t: "bpin b (s\<lparr>logs := ?l1\<rparr>) = Ret () t" "blk_inv H (insert bn (set (logged ?l))) t"
      "view t = view s" "disk t = disk s" "dwrites t = dwrites s" "bio_rest t = (bio_rest s)\<lparr>logs := ?l1\<rparr>" by auto
    have lt: "logs t = ?l1" "held t = held s" using arg_cong[OF t(6), of logs] arg_cong[OF t(6), of held] by simp_all
    have "LBcache \<notin> set (held s)" using inv by (auto simp: blk_inv_def bio_inv_def)
    then have pin: "bpin b ?s1 = Ret () (t\<lparr>held := LLog # held s\<rparr>)"
      using t(1) by (auto simp: bpin_def upd_buf_def)
    have run: "log_write b s = Ret () (t\<lparr>logs := ?l2\<rparr>)"
      using absent(1) free op ng bn okD(6) pin lt by (simp add: log_write_def upd_log_def del: LOGSIZE_def)
    have lg: "logged ?l2 = logged ?l @ [bn]"
      using nl(1) okD(2,6) by (simp add: logged_def nat_add_distrib take_Suc_conv_app_nth)
    then have "log_ok ?l2" using ok q home room nl by (auto simp: log_ok_def log_area_def)
    then show ?thesis using run lg q t(2-6) by (intro exI[of _ "t\<lparr>logs := ?l2\<rparr>"]) simp
  qed
qed

text \<open>
  The idiom of the file system: read a block, change it, \<open>log_write\<close> it and release it.  The change
  is visible to the kernel and becomes part of the transaction, and the disk stays as it was.
\<close>

definition in_op :: "uint \<Rightarrow> kstate \<Rightarrow> bool" where
  "in_op bn s \<longleftrightarrow> log_inv s \<and> lg_outstanding (logs s) \<ge> 1 \<and> lh_n (logs s) < lg_size (logs s) - 1 \<and> bn \<notin> log_area (logs s)"

definition log_rest :: "kstate \<Rightarrow> kstate" where
  "log_rest s = (bio_rest s)\<lparr>logs := (logs s)\<lparr>lh_n := 0, lh_block := []\<rparr>\<rparr>"

lemma log_area_upd: "log_area (l\<lparr>lh_n := n, lh_block := bl\<rparr>) = log_area l"
  by (simp add: log_area_def)

lemma logged_update:
  assumes op: "in_op bn s" and f: "length (f (view s bn)) = BSIZE"
    and upd: "\<And>b t. bio_rest t = bio_rest s \<Longrightarrow> upd b t = set_data b (f (b_data (bufs t ! b))) t"
  shows "\<exists>t. bindK (bread ROOTDEV bn) (\<lambda>b. thenK (modK (upd b)) (thenK (log_write b) (brelse b))) s = Ret () t \<and>
     log_inv t \<and> view t = (view s)(bn := f (view s bn)) \<and> disk t = disk s \<and> dwrites t = dwrites s \<and>
     set (logged (logs t)) = insert bn (set (logged (logs s))) \<and> log_rest t = log_rest s \<and>
     lh_n (logs t) = lh_n (logs s) + (if bn \<in> set (logged (logs s)) then 0 else 1)"
proof -
  let ?Q = "set (logged (logs s))"
  have ok: "log_ok (logs s)" and inv: "blk_inv Map.empty ?Q s" and free: "LLog \<notin> set (held s)" and clean: "clean_log (logs s) (disk s)"
    and o: "lg_outstanding (logs s) \<ge> 1" and room: "lh_n (logs s) < lg_size (logs s) - 1" and home: "bn \<notin> log_area (logs s)"
    using op by (simp_all add: in_op_def log_inv_def)
  have "card ?Q < NBUF" using card_logged[OF ok] log_okD(4,5)[OF ok] by linarith
  then obtain b t1 where 1: "bread ROOTDEV bn s = Ret b t1" "blk_inv (Map.empty(b \<mapsto> bn)) ?Q t1" "view t1 = view s" "disk t1 = disk s"
    "dwrites t1 = dwrites s" "bio_rest t1 = bio_rest s" using bc.rd[OF inv, of bn] by auto
  let ?t2 = "set_data b (f (view s bn)) t1"
  have 2: "blk_inv (Map.empty(b \<mapsto> bn)) ?Q ?t2" "view ?t2 = (view s)(bn := f (view s bn))" "disk ?t2 = disk s"
    "dwrites ?t2 = dwrites s" "bio_rest ?t2 = bio_rest s"
    using set_data_blk[OF 1(2), of b bn "f (view s bn)"] f 1 by auto
  have u: "upd b t1 = ?t2" using upd[OF 1(6)] bc.dat[OF 1(2), of b bn] 1(3) by simp
  have l2: "logs ?t2 = logs s" "held ?t2 = held s" by (rule bio_rest_fields[OF 2(5)])+
  obtain t3 where 3: "log_write b ?t2 = Ret () t3" "log_ok (logs t3)" "blk_inv (Map.empty(b \<mapsto> bn)) (set (logged (logs t3))) t3"
    "set (logged (logs t3)) = insert bn ?Q" "lh_n (logs t3) = lh_n (logs s) + (if bn \<in> ?Q then 0 else 1)"
    "view t3 = view ?t2" "disk t3 = disk s" "dwrites t3 = dwrites s"
    "bio_rest t3 = (bio_rest s)\<lparr>logs := (logs s)\<lparr>lh_n := lh_n (logs t3), lh_block := lh_block (logs t3)\<rparr>\<rparr>"
    using log_write_spec[of ?t2 "Map.empty(b \<mapsto> bn)" b bn] ok 2 free o room home unfolding l2 by auto
  obtain t4 where 4: "brelse b t3 = Ret () t4" "blk_inv Map.empty (set (logged (logs t3))) t4" "view t4 = view t3" "disk t4 = disk t3"
    "dwrites t4 = dwrites t3" "bio_rest t4 = bio_rest t3"
    using bc.rel[OF 3(3), of b bn] 3(4) by (auto simp: fun_upd_idem)
  have l4: "logs t4 = logs t3" "held t4 = held t3" by (rule bio_rest_fields[OF 4(6)])+
  have l3: "logs t3 = (logs s)\<lparr>lh_n := lh_n (logs t3), lh_block := lh_block (logs t3)\<rparr>" "held t3 = held s"
    using arg_cong[OF 3(9), of logs] arg_cong[OF 3(9), of held] by simp_all
  have st: "lg_start (logs t3) = lg_start (logs s)" using arg_cong[OF l3(1), of lg_start] by simp
  have "(logs t3)\<lparr>lh_n := 0, lh_block := []\<rparr> = (logs s)\<lparr>lh_n := 0, lh_block := []\<rparr>" by (subst l3(1)) simp
  then have r: "log_rest t4 = log_rest s" using 4(6) 3(9) l4(1) by (simp add: log_rest_def)
  have "log_inv t4" using 3(2,7) 4(2,4) l4 l3(2) free clean st by (simp add: log_inv_def clean_log_def)
  then show ?thesis using 1(1) u 3 4 2 l4 r by (intro exI[of _ t4]) (simp add: fun_eq_iff)
qed

end
