(* ===== verification/Xv6_Crash.thy ===== *)
theory Xv6_Crash
  imports Xv6_Log
begin

text \<open>
  Recovery and crash safety of the log (\<^verbatim>\<open>kernel/log.c\<close>).  \<open>initlog_spec\<close> is what recovery does to an
  arbitrary disk; a crash leaves the disk with a prefix of the writes of a commit, and the main
  theorem shows that recovery then yields all or none of the transaction.
\<close>

section \<open>Recovery\<close>

lemma sint_of_int_small: "0 \<le> k \<Longrightarrow> k < 2 ^ 31 \<Longrightarrow> sint (word_of_int k :: uint) = k"
  by (simp add: int_word_sint mod_pos_pos_trivial)

text \<open>The header that a block holds, if its count is in range.\<close>

definition read_header :: "bytes \<Rightarrow> logst \<Rightarrow> logst" where
  "read_header d l = l\<lparr>lh_n := header_n d, lh_block := read_head_loop d (nat (header_n d)) (lh_block l)\<rparr>"

lemma read_head_loop_eq:
  "n \<le> length bl \<Longrightarrow> read_head_loop d n bl = map (\<lambda>i. get32 d (4 + 4 * i)) [0..<n] @ drop n bl"
  unfolding read_head_loop_def using fold_update_nth[of n bl "\<lambda>i _. get32 d (4 + 4 * i)"] by simp

lemma read_head_spec:
  assumes dev: "lg_dev (logs s) = ROOTDEV" and inv: "blk_inv Map.empty {} s"
    and n: "header_n (view s (lg_start (logs s))) \<le> int LOGSIZE"
  shows "\<exists>t. read_head s = Ret () t \<and> blk_inv Map.empty {} t \<and> view t = view s \<and> disk t = disk s \<and> dwrites t = dwrites s \<and>
     bio_rest t = (bio_rest s)\<lparr>logs := read_header (view s (lg_start (logs s))) (logs s)\<rparr>"
proof -
  let ?st = "lg_start (logs s)" and ?d = "view s (lg_start (logs s))"
  obtain b t1 where 1: "bread ROOTDEV ?st s = Ret b t1" "blk_inv (Map.empty(b \<mapsto> ?st)) {} t1" "view t1 = view s" "disk t1 = disk s"
    "dwrites t1 = dwrites s" "bio_rest t1 = bio_rest s" using bc.rd[OF inv, of ?st] by auto
  have d: "b_data (bufs t1 ! b) = ?d" using bc.dat[OF 1(2), of b ?st] 1(3) by simp
  have l1: "logs t1 = logs s" by (rule bio_rest_fields(10)[OF 1(6)])
  let ?t2 = "t1\<lparr>logs := read_header ?d (logs s)\<rparr>"
  have "view s ?st = disk s ?st" using bc.vw_disk[OF inv, of ?st] by simp
  then obtain t3 where 3: "brelse b ?t2 = Ret () t3" "blk_inv Map.empty {} t3" "view t3 = view s" "disk t3 = disk s"
    "dwrites t3 = dwrites s" "bio_rest t3 = bio_rest ?t2"
    using bc.rel[of "Map.empty(b \<mapsto> ?st)" "{}" ?t2 b ?st] 1 by (auto simp: fun_upd_idem)
  have "read_head s = Ret () t3"
    using 1(1) d 3(1) n dev l1
    by (simp add: read_head_def upd_log_def read_header_def header_n_def)
  then show ?thesis using 3 1(6) by (intro exI[of _ t3]) simp
qed

lemma initlog_spec:
  fixes s sbp
  defines "l \<equiv> read_header (disk s (sb_logstart sbp)) ((logs s)\<lparr>lg_start := sb_logstart sbp, lg_size := sint (sb_nlog sbp), lg_dev := ROOTDEV\<rparr>)"
  assumes inv: "blk_inv Map.empty {} s" and len: "length (lh_block (logs s)) = LOGSIZE"
    and n: "header_n (disk s (sb_logstart sbp)) < sint (sb_nlog sbp)" and sz: "0 < sint (sb_nlog sbp)" "sint (sb_nlog sbp) \<le> int NBUF"
    and home: "\<And>i. i < nat (lh_n l) \<Longrightarrow> lh_block l ! i \<notin> log_area l"
  shows "\<exists>t. initlog ROOTDEV sbp s = Ret () t \<and> blk_inv Map.empty {} t \<and> view t = disk t \<and>
     disk t = apply_writes (home_writes l (disk s) (nat (lh_n l)) @ [(lg_start l, put_header (disk s (lg_start l)) 0 (lh_block l))]) (disk s) \<and>
     bio_rest t = (bio_rest s)\<lparr>logs := l\<lparr>lh_n := 0\<rparr>\<rparr>"
proof -
  let ?l0 = "(logs s)\<lparr>lg_start := sb_logstart sbp, lg_size := sint (sb_nlog sbp), lg_dev := ROOTDEV\<rparr>"
  let ?s0 = "s\<lparr>logs := ?l0\<rparr>" and ?st = "sb_logstart sbp"
  have vd: "view s = disk s" using bc.vw_disk[OF inv] by auto
  have l: "lg_start l = ?st" "lg_size l = sint (sb_nlog sbp)" "lg_dev l = ROOTDEV" "lh_n l = header_n (disk s ?st)"
    by (simp_all add: l_def read_header_def)
  have nl: "header_n (disk s ?st) \<le> int LOGSIZE" "nat (header_n (disk s ?st)) \<le> LOGSIZE" using n sz(2) by simp_all
  have lb: "length (lh_block l) = LOGSIZE" using len nl(2) by (simp add: l_def read_header_def read_head_loop_eq)
  obtain t1 where 1: "read_head ?s0 = Ret () t1" "blk_inv Map.empty {} t1" "view t1 = disk s" "disk t1 = disk s"
    "bio_rest t1 = (bio_rest s)\<lparr>logs := l\<rparr>"
    using read_head_spec[of ?s0] inv nl(1) vd unfolding l_def by auto
  have l1: "logs t1 = l" using arg_cong[OF 1(5), of logs] by simp
  let ?n = "nat (lh_n l)"
  have "?n < nat (lg_size l)" "nat (lg_size l) \<le> NBUF" "?n \<le> length (lh_block l)" using l n sz nl(2) lb by simp_all
  then obtain t2 where 2: "forK [0..<?n] (install_trans_body True) t1 = Ret () t2" "blk_inv Map.empty {} t2"
    "wrotes (home_writes l (disk s) ?n) t1 t2"
    using install_loop[of t1 ?n "{}" True ?n] l(3) home 1(2) unfolding l1 1(3) by auto
  have l2: "logs t2 = l" using wrotes_logs[OF 2(3)] l1 by simp
  let ?t2 = "t2\<lparr>logs := l\<lparr>lh_n := 0\<rparr>\<rparr>"
  have "?st \<notin> fst ` set (home_writes l (disk s) ?n)"
    using home log_start_area[of l] sz(1) l(1,2) by (auto simp: home_writes_def)
  then have st2: "view t2 ?st = disk s ?st" using 2(3) 1(3) apply_writes_other by (simp add: wrotes_def)
  obtain t3 where 3: "write_head ?t2 = Ret () t3" "blk_inv Map.empty {} t3" "wrotes [(?st, put_header (disk s ?st) 0 (lh_block l))] ?t2 t3"
    using write_head_spec[of ?t2 "{}"] 2(2) l(1,3) st2 by auto
  have "initlog ROOTDEV sbp s = Ret () t3"
    using 1(1) 2(1) 3(1) l1 l2 by (simp add: initlog_def recover_from_log_def install_trans_def upd_log_def)
  moreover have "view t3 = disk t3" using bc.vw_disk[OF 3(2)] by auto
  moreover have "bio_rest t2 = bio_rest t1" using 2(3) by (simp add: wrotes_def)
  ultimately show ?thesis using 3(2,3) 2(3) 1(4,5) l(1) unfolding wrotes_def by (intro exI[of _ t3]) simp
qed

section \<open>Crash safety\<close>

text \<open>What reaches the blocks outside the log when the transaction is installed.\<close>

lemma install_home:
  assumes ok: "log_ok l" and inv: "blk_inv Map.empty (set (logged l)) s"
    and out: "\<And>bn. bn \<notin> set (logged l) \<Longrightarrow> bn \<notin> log_area l \<Longrightarrow> d bn = disk s bn" and bn: "bn \<notin> log_area l"
  shows "apply_writes (map (\<lambda>i. (lh_block l ! i, view s (lh_block l ! i))) [0..<nat (lh_n l)]) d bn = view s bn"
proof (cases "bn \<in> set (logged l)")
  case True
  have e: "map (\<lambda>i. lh_block l ! i) [0..<nat (lh_n l)] = logged l"
    using log_okD(3)[OF ok] by (intro nth_equalityI) (simp_all add: logged_nth[OF ok])
  obtain i where i: "i < nat (lh_n l)" "bn = lh_block l ! i"
    using True log_okD(3)[OF ok] logged_nth[OF ok] by (metis in_set_conv_nth)
  show ?thesis unfolding i(2)
    by (rule apply_writes_idx) (use e i log_okD(7)[OF ok] in simp_all)
next
  case False
  then have "bn \<notin> fst ` set (map (\<lambda>i. (lh_block l ! i, view s (lh_block l ! i))) [0..<nat (lh_n l)])"
    using logged_mem(1)[OF ok] by auto
  then show ?thesis using apply_writes_other out[OF False bn] bc.vw_disk[OF inv False] by simp
qed

lemma out_writes_area:
  assumes ok: "log_ok l" and n: "n \<le> nat (lh_n l)" and bn: "bn \<notin> log_area l"
  shows "apply_writes (out_writes l v n) d bn = d bn"
proof (rule apply_writes_other)
  have "log_addr l j \<in> log_area l" if "j < n" for j
    using that n log_okD(4)[OF ok] by (intro log_addr_area) linarith
  then show "bn \<notin> fst ` set (out_writes l v n)" using bn by (auto simp: out_writes_def)
qed

text \<open>The three kinds of disk a crash can leave.\<close>

lemma crash_cases:
  fixes l v
  defines "n \<equiv> nat (lh_n l)" and "h \<equiv> put_header (v (lg_start l)) (lh_n l) (lh_block l)"
    and "M \<equiv> map (\<lambda>i. (lh_block l ! i, v (lh_block l ! i))) [0..<nat (lh_n l)]"
  obtains (before) j where "j \<le> n" "take k (commit_writes l v) = out_writes l v j"
  | (committed) j where "take k (commit_writes l v) = out_writes l v n @ [(lg_start l, h)] @ take j M"
  | (cleared) "take k (commit_writes l v) = out_writes l v n @ [(lg_start l, h)] @ M @ [(lg_start l, put_header h 0 (lh_block l))]"
proof -
  have c: "commit_writes l v = out_writes l v n @ [(lg_start l, h)] @ M @ [(lg_start l, put_header h 0 (lh_block l))]"
    by (simp add: commit_writes_def n_def h_def M_def Let_def)
  have lo: "length (out_writes l v n) = n" "length M = n" by (simp_all add: out_writes_def M_def n_def)
  consider "k \<le> n" | j where "k = n + 1 + j" "j \<le> n" | "2 * n + 2 \<le> k"
  proof -
    have "k \<le> n \<or> (\<exists>j. k = n + 1 + j \<and> j \<le> n) \<or> 2 * n + 2 \<le> k" by presburger
    then show thesis using that by blast
  qed
  then show thesis
  proof cases
    case 1
    then have "take k (commit_writes l v) = out_writes l v k"
      using lo by (simp add: c out_writes_def take_map min_def)
    then show thesis using before 1 by blast
  next
    case 2
    then show thesis using committed lo by (simp add: c)
  next
    case 3
    then show thesis using cleared lo by (simp add: c)
  qed
qed

text \<open>
  A state in which the kernel has come up again on a disk \<open>d\<close>: nothing cached, and a superblock that
  names the same log.
\<close>

definition rebooted :: "superblock \<Rightarrow> logst \<Rightarrow> (uint \<Rightarrow> bytes) \<Rightarrow> kstate \<Rightarrow> bool" where
  "rebooted sbp l d s \<longleftrightarrow> blk_inv Map.empty {} s \<and> disk s = d \<and> length (lh_block (logs s)) = LOGSIZE \<and>
     sb_logstart sbp = lg_start l \<and> sint (sb_nlog sbp) = lg_size l"

lemma rebootedD:
  assumes "rebooted sbp l d s"
  shows "blk_inv Map.empty {} s" "disk s = d" "length (lh_block (logs s)) = LOGSIZE" "sb_logstart sbp = lg_start l"
    "sint (sb_nlog sbp) = lg_size l" "length (d (lg_start l)) = BSIZE"
proof -
  show "length (d (lg_start l)) = BSIZE"
    using assms bc.vw_len[of Map.empty "{}" s "lg_start l"] bc.vw_disk[of Map.empty "{}" s "lg_start l"] by (auto simp: rebooted_def)
qed (use assms in \<open>simp_all add: rebooted_def\<close>)

lemma header_cleared: "length d = BSIZE \<Longrightarrow> header_n (put_header d 0 bl) = 0"
  using put_header_get(1)[of d 0 bl] by (simp add: header_n_def)

lemma area_read_header [simp]: "log_area (read_header d l') = log_area l'"
  by (simp add: log_area_def read_header_def)

lemma recover_clean:
  assumes ok: "log_ok l" and re: "rebooted sbp l d s" and clean: "clean_log l d"
  shows "\<exists>t. initlog ROOTDEV sbp s = Ret () t \<and> blk_inv Map.empty {} t \<and> clean_log l (disk t) \<and>
     (\<forall>bn. bn \<notin> log_area l \<longrightarrow> disk t bn = d bn)"
proof -
  note r = rebootedD[OF re] and okD = log_okD[OF ok]
  let ?l = "read_header (disk s (sb_logstart sbp)) ((logs s)\<lparr>lg_start := sb_logstart sbp, lg_size := sint (sb_nlog sbp), lg_dev := ROOTDEV\<rparr>)"
  have n0: "lh_n ?l = 0" "lg_start ?l = lg_start l" using clean r(2,4) by (simp_all add: read_header_def clean_log_def)
  have sz: "0 < lg_size l" "lg_size l \<le> int NBUF" using okD(4,5,6) by simp_all
  have hn: "header_n (disk s (sb_logstart sbp)) = 0" using clean r(2,4) by (simp add: clean_log_def)
  obtain t where t: "initlog ROOTDEV sbp s = Ret () t" "blk_inv Map.empty {} t"
     "disk t = apply_writes (home_writes ?l (disk s) (nat (lh_n ?l)) @ [(lg_start ?l, put_header (disk s (lg_start ?l)) 0 (lh_block ?l))]) (disk s)"
    using initlog_spec[OF r(1,3), of sbp] sz hn n0(1) unfolding r(5) by auto
  have d: "disk t = d(lg_start l := put_header (d (lg_start l)) 0 (lh_block ?l))"
    using t(3) r(2) n0 by (simp add: home_writes_def)
  have "clean_log l (disk t)" using header_cleared[OF r(6)] by (simp add: d clean_log_def)
  moreover have "disk t bn = d bn" if "bn \<notin> log_area l" for bn
    using that log_start_area[of l] sz(1) by (auto simp: d)
  ultimately show ?thesis using t(1,2) by blast
qed

lemma recover_committed:
  assumes ok: "log_ok l" and inv: "blk_inv Map.empty (set (logged l)) s" and re: "rebooted sbp l d r"
    and hd: "d (lg_start l) = put_header v (lh_n l) (lh_block l)" "length v = BSIZE"
    and data: "\<And>i. i < nat (lh_n l) \<Longrightarrow> d (log_addr l i) = view s (lh_block l ! i)"
    and out: "\<And>bn. bn \<notin> set (logged l) \<Longrightarrow> bn \<notin> log_area l \<Longrightarrow> d bn = disk s bn"
  shows "\<exists>t. initlog ROOTDEV sbp r = Ret () t \<and> blk_inv Map.empty {} t \<and> clean_log l (disk t) \<and>
     (\<forall>bn. bn \<notin> log_area l \<longrightarrow> disk t bn = view s bn)"
proof -
  note r = rebootedD[OF re] and okD = log_okD[OF ok]
  let ?l0 = "(logs r)\<lparr>lg_start := sb_logstart sbp, lg_size := sint (sb_nlog sbp), lg_dev := ROOTDEV\<rparr>"
  let ?l = "read_header (disk r (sb_logstart sbp)) ?l0" and ?n = "nat (lh_n l)"
  have sz: "0 < lg_size l" "lg_size l \<le> int NBUF" using okD(4,5,6) by simp_all
  have "NBUF = LOGSIZE" by simp
  then have nl: "?n \<le> LOGSIZE" using okD(4,5) by linarith
  have small: "lh_n l \<le> 30" using nl by simp
  have hn: "header_n (disk r (sb_logstart sbp)) = lh_n l"
    using put_header_get(1)[OF hd(2) nl] hd(1) r(2,4) small okD(6) by (simp add: header_n_def sint_of_int_small)
  have lh: "lh_n ?l = lh_n l" "lg_start ?l = lg_start l" "log_addr ?l = log_addr l" "log_area ?l = log_area l"
    using hn r(4,5) by (simp_all add: read_header_def log_addr_def log_area_def fun_eq_iff)
  have bl: "lh_block ?l ! i = lh_block l ! i" if "i < ?n" for i
    using that hn r(2,3,4) nl put_header_get(2)[OF hd(2) nl that] hd(1)
    by (simp add: read_header_def read_head_loop_eq nth_append)
  have n: "header_n (disk r (sb_logstart sbp)) < sint (sb_nlog sbp)" using hn r(5) okD(4,6) by simp
  have "lh_block ?l ! i \<notin> log_area ?l" if "i < nat (lh_n ?l)" for i
    using that bl[of i] logged_mem(2)[OF ok, of i] unfolding lh by simp
  then obtain t where t: "initlog ROOTDEV sbp r = Ret () t" "blk_inv Map.empty {} t"
     "disk t = apply_writes (home_writes ?l (disk r) (nat (lh_n ?l)) @ [(lg_start ?l, put_header (disk r (lg_start ?l)) 0 (lh_block ?l))]) (disk r)"
    using initlog_spec[OF r(1,3) n] sz r(5) by auto
  have "home_writes ?l (disk r) ?n = map (\<lambda>i. (lh_block l ! i, view s (lh_block l ! i))) [0..<?n]"
    unfolding home_writes_def lh by (rule map_cong[OF refl]) (use bl data r(2) in simp)
  then have d: "disk t = (apply_writes (map (\<lambda>i. (lh_block l ! i, view s (lh_block l ! i))) [0..<?n]) d)
      (lg_start l := put_header (d (lg_start l)) 0 (lh_block ?l))"
    using t(3) r(2) lh by simp
  have "clean_log l (disk t)" using header_cleared[OF r(6)] by (simp add: d clean_log_def)
  moreover have "disk t bn = view s bn" if bn: "bn \<notin> log_area l" for bn
    using install_home[OF ok inv, of d bn] out bn log_start_area[of l] sz(1) by (auto simp: d)
  ultimately show ?thesis using t(1,2) by blast
qed

section \<open>States that satisfy the hypotheses\<close>

definition zero_disk :: "uint \<Rightarrow> bytes" where
  "zero_disk bn = replicate BSIZE 0"

definition test_log :: logst where
  "test_log = \<lparr>lg_start = 2, lg_size = 30, lg_outstanding = 1, lg_committing = False, lg_dev = ROOTDEV, lh_n = 0, lh_block = replicate LOGSIZE 0\<rparr>"

definition ones :: bytes where
  "ones = replicate BSIZE 1"

lemma test_log_area: "log_area test_log = {2..31}"
proof -
  have "bn \<in> log_area test_log \<longleftrightarrow> 2 \<le> bn \<and> bn \<le> 31" for bn
  proof
    assume "bn \<in> log_area test_log"
    then obtain i where "i < 30" "bn = 2 + of_nat i" by (auto simp: log_area_def test_log_def)
    then show "2 \<le> bn \<and> bn \<le> 31"
      by (simp add: word_le_nat_alt unat_word_ariths unat_of_nat take_bit_nat_eq_self)
  next
    assume b: "2 \<le> bn \<and> bn \<le> 31"
    then have u: "2 \<le> unat bn" "unat bn \<le> 31" by (simp_all add: word_le_nat_alt)
    then have "bn = 2 + of_nat (unat bn - 2)" "unat bn - 2 < 30" by (simp add: of_nat_diff) (use u in linarith)
    then show "bn \<in> log_area test_log"
      unfolding log_area_def test_log_def by (intro image_eqI[of _ _ "unat bn - 2"]) simp_all
  qed
  then show ?thesis by (intro set_eqI) (simp only: atLeastAtMost_iff)
qed

text \<open>One operation has changed block 50; the disk is still all zero.\<close>

lemma test_transaction:
  "\<exists>s. log_inv s \<and> lg_outstanding (logs s) = 1 \<and> \<not> lg_committing (logs s) \<and> 0 < lh_n (logs s) \<and> disk s = zero_disk \<and>
     view s = zero_disk(50 := ones) \<and> lg_start (logs s) = 2 \<and> lg_size (logs s) = 30"
proof -
  obtain s0 where s0: "blk_inv Map.empty {} s0" "disk s0 = zero_disk" "logs s0 = test_log" "held s0 = []"
    using fresh_cache[of zero_disk test_log] by (auto simp: zero_disk_def test_log_def)
  have "log_ok test_log" "logged test_log = []" by (simp_all add: log_ok_def logged_def test_log_def)
  moreover have "clean_log test_log zero_disk"
    by (simp add: clean_log_def header_n_def zero_disk_def get32_def slice_def word_of_replicate_0)
  ultimately have "in_op 50 s0"
    using s0 by (simp add: in_op_def log_inv_def test_log_area) (simp add: test_log_def)
  from logged_update[OF this, of "\<lambda>_. ones" "\<lambda>b. set_data b ones"]
  obtain t where t: "log_inv t" "view t = (view s0)(50 := ones)" "disk t = zero_disk" "log_rest t = log_rest s0"
     "lh_n (logs t) = lh_n (logs s0) + (if 50 \<in> set (logged (logs s0)) then 0 else 1)"
    using s0(2) by (auto simp: ones_def)
  have v: "view s0 = zero_disk" using bc.vw_disk[OF s0(1)] s0(2) by auto
  have "(logs t)\<lparr>lh_n := 0, lh_block := []\<rparr> = (logs s0)\<lparr>lh_n := 0, lh_block := []\<rparr>"
    using arg_cong[OF t(4), of logs] by (simp add: log_rest_def)
  from arg_cong[OF this, of lg_outstanding] arg_cong[OF this, of lg_committing] arg_cong[OF this, of lg_start] arg_cong[OF this, of lg_size]
  show ?thesis using t v s0(3) \<open>logged test_log = []\<close> by (intro exI[of _ t]) (simp add: test_log_def)
qed

section \<open>Crash safety of an operation\<close>

lemma commit_done_disk:
  assumes ok: "log_ok (logs s)" and inv: "blk_inv Map.empty (set (logged (logs s))) s" and bn: "bn \<notin> log_area (logs s)"
  shows "apply_writes (commit_writes (logs s) (view s)) (disk s) bn = view s bn"
    and "apply_writes (commit_writes (logs s) (view s)) (view s) bn = view s bn"
proof -
  let ?l = "logs s" and ?n = "nat (lh_n (logs s))"
  have ne: "bn \<noteq> lg_start ?l" using log_start_area[of ?l] bn log_okD(4)[OF ok] by auto
  let ?M = "map (\<lambda>i. (lh_block ?l ! i, view s (lh_block ?l ! i))) [0..<?n]"
  have sa: "lg_start ?l \<in> log_area ?l" using log_start_area[of ?l] log_okD(4)[OF ok] by simp
  have key: "apply_writes ?M ((apply_writes (out_writes ?l (view s) ?n) d)(lg_start ?l := h)) bn = view s bn"
    if d: "\<And>x. x \<notin> set (logged ?l) \<Longrightarrow> d x = disk s x" for d h
  proof (rule install_home[OF ok inv _ bn])
    fix x assume x: "x \<notin> set (logged ?l)" "x \<notin> log_area ?l"
    then have "x \<noteq> lg_start ?l" using sa by metis
    then show "((apply_writes (out_writes ?l (view s) ?n) d)(lg_start ?l := h)) x = disk s x"
      using out_writes_area[OF ok order_refl x(2)] d[OF x(1)] by simp
  qed
  show "apply_writes (commit_writes ?l (view s)) (disk s) bn = view s bn"
    using key[of "disk s"] ne by (simp add: commit_writes_def Let_def)
  show "apply_writes (commit_writes ?l (view s)) (view s) bn = view s bn"
    using key[of "view s"] bc.vw_disk[OF inv] ne by (simp add: commit_writes_def Let_def)
qed

text \<open>
  (C1) Crash atomicity of the log.  The last outstanding operation calls \<open>end_op\<close>, and the machine
  stops after an arbitrary number \<open>k\<close> of the disk writes this causes.  When the kernel comes up again,
  \<open>initlog\<close> returns with an empty log, and outside the log area the disk is as it was before \<open>end_op\<close>, or as
  the whole transaction left it: never a part of it.
\<close>

theorem end_op_crash_atomic:
  assumes inv: "log_inv s" and op: "lg_outstanding (logs s) = 1" "\<not> lg_committing (logs s)" "0 < lh_n (logs s)"
    and run: "end_op s = Ret () t"
    and crash: "rebooted sbp (logs s) (apply_writes (take k (drop (length (dwrites s)) (dwrites t))) (disk s)) r"
  shows "\<exists>u. initlog ROOTDEV sbp r = Ret () u \<and> clean_log (logs s) (disk u) \<and>
    ((\<forall>bn. bn \<notin> log_area (logs s) \<longrightarrow> disk u bn = disk s bn) \<or> (\<forall>bn. bn \<notin> log_area (logs s) \<longrightarrow> disk u bn = view s bn))"
proof -
  let ?l = "logs s" and ?n = "nat (lh_n (logs s))" and ?v = "view s" and ?st = "lg_start (logs s)"
  have ok: "log_ok ?l" and blk: "blk_inv Map.empty (set (logged ?l)) s" and clean: "clean_log ?l (disk s)"
    using inv by (simp_all add: log_inv_def)
  have nB: "?n \<le> NBUF" using log_okD(4,5)[OF ok] by linarith
  have W: "drop (length (dwrites s)) (dwrites t) = commit_writes ?l ?v" using end_op_commits[OF inv op] run by auto
  have sa: "?st \<in> log_area ?l" using log_start_area[of ?l] log_okD(4)[OF ok] by simp
  have len: "length (?v ?st) = BSIZE" by (rule view_len_blk[OF blk])
  note area = out_writes_area[OF ok]
  show ?thesis using crash unfolding W
  proof (cases rule: crash_cases[of ?l k ?v])
    case (before j)
    have "clean_log ?l (apply_writes (take k (commit_writes ?l ?v)) (disk s))"
      using clean before nB by (simp add: clean_log_def out_writes_start)
    from recover_clean[OF ok crash[unfolded W] this] show ?thesis using area before by auto
  next
    case (committed j)
    let ?M = "map (\<lambda>i. (lh_block ?l ! i, ?v (lh_block ?l ! i))) [0..<?n]"
    let ?d = "apply_writes (take k (commit_writes ?l ?v)) (disk s)"
    have M: "fst ` set (take j ?M) \<subseteq> set (logged ?l)"
      using logged_mem(1)[OF ok] set_take_subset[of j ?M] by fastforce
    have skip: "?d bn = ((apply_writes (out_writes ?l ?v ?n) (disk s))(?st := put_header (?v ?st) (lh_n ?l) (lh_block ?l))) bn"
      if "bn \<notin> set (logged ?l)" for bn
    proof -
      have "bn \<notin> fst ` set (take j ?M)" using that M by blast
      then show ?thesis unfolding committed apply_writes_simps by (rule apply_writes_other)
    qed
    have st: "?d ?st = put_header (?v ?st) (lh_n ?l) (lh_block ?l)" using skip[of ?st] sa log_okD(8)[OF ok] by auto
    have data: "?d (log_addr ?l i) = ?v (lh_block ?l ! i)" if i: "i < ?n" for i
    proof -
      have "log_addr ?l i \<in> log_area ?l" using i log_okD(4)[OF ok] by (intro log_addr_area) linarith
      then have "log_addr ?l i \<notin> set (logged ?l)" using log_okD(8)[OF ok] by auto
      moreover have "log_addr ?l i \<noteq> ?st" using i nB by (intro log_addr_start) simp
      ultimately show ?thesis using skip out_writes_addr[OF nB i] by simp
    qed
    have out: "?d bn = disk s bn" if "bn \<notin> set (logged ?l)" "bn \<notin> log_area ?l" for bn
      using skip[OF that(1)] area[OF order_refl that(2)] that(2) sa by auto
    show ?thesis using recover_committed[OF ok blk crash[unfolded W] st len data out] by blast
  next
    case cleared
    then have all: "take k (commit_writes ?l ?v) = commit_writes ?l ?v" by (simp add: commit_writes_def Let_def)
    have "clean_log ?l (apply_writes (commit_writes ?l ?v) (disk s))"
      using header_cleared[OF put_header_len[OF len]] nB by (simp add: clean_log_def commit_writes_def Let_def)
    from recover_clean[OF ok crash[unfolded W all] this] show ?thesis using commit_done_disk(1)[OF ok blk] by auto
  qed
qed

lemma apply_writes_len:
  "(\<And>w. w \<in> set ws \<Longrightarrow> length (snd w) = n) \<Longrightarrow> (\<And>bn. length (d bn) = n) \<Longrightarrow> length (apply_writes ws d bn) = n"
proof (induction ws arbitrary: d)
  case (Cons w ws)
  obtain a b where w: "w = (a, b)" by (cases w)
  have "length (apply_writes ws (d(a := b)) bn) = n"
    using Cons.prems(1)[of w] Cons.prems w by (intro Cons.IH) simp_all
  then show ?case by (simp add: w)
qed simp

theorem end_op_crash_atomic_witness:
  "\<exists>s t sbp r u. log_inv s \<and> end_op s = Ret () t \<and> disk s 50 = replicate BSIZE 0 \<and> view s 50 = replicate BSIZE 1 \<and>
     rebooted sbp (logs s) (apply_writes (take 2 (drop (length (dwrites s)) (dwrites t))) (disk s)) r \<and>
     initlog ROOTDEV sbp r = Ret () u \<and> clean_log (logs s) (disk u) \<and>
     ((\<forall>bn. bn \<notin> log_area (logs s) \<longrightarrow> disk u bn = disk s bn) \<or> (\<forall>bn. bn \<notin> log_area (logs s) \<longrightarrow> disk u bn = view s bn))"
proof -
  obtain s where s: "log_inv s" "lg_outstanding (logs s) = 1" "\<not> lg_committing (logs s)" "0 < lh_n (logs s)" "disk s = zero_disk"
     "view s = zero_disk(50 := ones)" "lg_start (logs s) = 2" "lg_size (logs s) = 30" using test_transaction by blast
  obtain t where t: "end_op s = Ret () t" "dwrites t = dwrites s @ commit_writes (logs s) (view s)"
    using end_op_commits[OF s(1-4)] by blast
  let ?d = "apply_writes (take 2 (drop (length (dwrites s)) (dwrites t))) (disk s)"
  let ?sbp = "\<lparr>sb_magic = 0, sb_size = 0, sb_nblocks = 0, sb_ninodes = 0, sb_nlog = 30, sb_logstart = 2, sb_inodestart = 0, sb_bmapstart = 0\<rparr>"
  have blk: "blk_inv Map.empty (set (logged (logs s))) s" and ok: "log_ok (logs s)" using s(1) by (simp_all add: log_inv_def)
  have len: "length (view s bn) = BSIZE" for bn by (rule view_len_blk[OF blk])
  have "NBUF = LOGSIZE" by simp
  then have nl: "nat (lh_n (logs s)) \<le> LOGSIZE" using log_okD(4,5)[OF ok] by linarith
  have W: "length (snd w) = BSIZE" if "w \<in> set (commit_writes (logs s) (view s))" for w
    using that len put_header_len[OF len nl] put_header_len[OF put_header_len[OF len nl], of 0]
    by (auto simp: commit_writes_def out_writes_def Let_def)
  have "length (?d bn) = BSIZE" for bn
    using W t(2) s(5) by (intro apply_writes_len) (auto simp: zero_disk_def dest: in_set_takeD)
  then obtain r where r: "blk_inv Map.empty {} r" "disk r = ?d" "logs r = test_log"
    using fresh_cache[of ?d test_log] by (auto simp: test_log_def)
  then have re: "rebooted ?sbp (logs s) ?d r" using s(7,8) by (simp add: rebooted_def test_log_def)
  obtain u where "initlog ROOTDEV ?sbp r = Ret () u \<and> clean_log (logs s) (disk u) \<and>
    ((\<forall>bn. bn \<notin> log_area (logs s) \<longrightarrow> disk u bn = disk s bn) \<or> (\<forall>bn. bn \<notin> log_area (logs s) \<longrightarrow> disk u bn = view s bn))"
    using end_op_crash_atomic[OF s(1-4) t(1) re] by blast
  then show ?thesis using s(1,5,6) t(1) re unfolding zero_disk_def ones_def by (intro exI[of _ s] exI[of _ t] exI[of _ ?sbp] exI[of _ r] exI[of _ u]) simp
qed

text \<open>
  (C2) Durability.  When the last outstanding operation ends, \<open>end_op\<close> returns with the log empty again
  and every block outside the log area on the disk as the operations left it.
\<close>

theorem end_op_durable:
  assumes inv: "log_inv s" and op: "lg_outstanding (logs s) = 1" "\<not> lg_committing (logs s)" "0 < lh_n (logs s)"
  shows "\<exists>t. end_op s = Ret () t \<and> log_inv t \<and> lh_n (logs t) = 0 \<and> lg_outstanding (logs t) = 0 \<and>
    (\<forall>bn. bn \<notin> log_area (logs s) \<longrightarrow> disk t bn = view s bn \<and> view t bn = view s bn)"
proof -
  have ok: "log_ok (logs s)" and blk: "blk_inv Map.empty (set (logged (logs s))) s" and free: "LLog \<notin> set (held s)"
    using inv by (simp_all add: log_inv_def)
  obtain t where t: "end_op s = Ret () t" "blk_inv Map.empty {} t"
     "disk t = apply_writes (commit_writes (logs s) (view s)) (disk s)" "view t = apply_writes (commit_writes (logs s) (view s)) (view s)"
     "held t = held s" "logs t = (logs s)\<lparr>lg_outstanding := 0, lg_committing := False, lh_n := 0\<rparr>"
    using end_op_commits[OF inv op] by blast
  have "NBUF = LOGSIZE" by simp
  then have "nat (lh_n (logs s)) \<le> LOGSIZE" using log_okD(4,5)[OF ok] by linarith
  then have "clean_log (logs t) (disk t)"
    using header_cleared[OF put_header_len[OF view_len_blk[OF blk]]] t(3,6) by (simp add: clean_log_def commit_writes_def Let_def)
  moreover have "log_ok (logs t)" "logged (logs t) = []" using ok op(3) t(6) by (auto simp: log_ok_def logged_def)
  ultimately have "log_inv t" using t(2,5) free by (simp add: log_inv_def)
  then show ?thesis using t(1,3,4,6) commit_done_disk[OF ok blk] by (intro exI[of _ t]) simp
qed

theorem end_op_durable_witness:
  "\<exists>s t. disk s 50 = replicate BSIZE 0 \<and> view s 50 = replicate BSIZE 1 \<and> end_op s = Ret () t \<and> log_inv t \<and> disk t 50 = replicate BSIZE 1"
proof -
  obtain s where s: "log_inv s" "lg_outstanding (logs s) = 1" "\<not> lg_committing (logs s)" "0 < lh_n (logs s)" "disk s = zero_disk"
     "view s = zero_disk(50 := ones)" "lg_start (logs s) = 2" "lg_size (logs s) = 30" using test_transaction by blast
  have "log_area (logs s) = log_area test_log" using s(7,8) by (simp add: log_area_def test_log_def)
  then have "50 \<notin> log_area (logs s)" by (simp add: test_log_area)
  then obtain t where "end_op s = Ret () t" "log_inv t" "disk t 50 = view s 50" using end_op_durable[OF s(1-4)] by blast
  then show ?thesis using s(5,6) by (intro exI[of _ s] exI[of _ t]) (simp add: zero_disk_def ones_def)
qed

end
