(* ===== verification/Xv6_Kalloc.thy ===== *)
theory Xv6_Kalloc
  imports Xv6_Kstate
begin

text \<open>
  \<^verbatim>\<open>kernel/kalloc.c\<close>: the physical page allocator.  The free list is threaded through the free
  pages themselves, as in the code: the first eight bytes of a free page hold the address of the
  next one.  The abstraction is the list of free pages, \<open>kmem_free\<close>.
\<close>

section \<open>Page rounding (kernel/riscv.h)\<close>

definition PGROUNDUP :: "uint64 \<Rightarrow> uint64" where
  "PGROUNDUP sz = (sz + PGSIZE - 1) AND NOT (PGSIZE - 1)"

definition PGROUNDDOWN :: "uint64 \<Rightarrow> uint64" where
  "PGROUNDDOWN a = a AND NOT (PGSIZE - 1)"

lemma PGMASK: "PGSIZE - 1 = mask 12"
  by (simp add: mask_eq_exp_minus_1)

lemma PGROUNDDOWN_eq: "PGROUNDDOWN a = push_bit 12 (drop_bit 12 a)"
  unfolding PGROUNDDOWN_def PGMASK
  by (rule bit_word_eqI) (auto simp: bit_simps)

lemma unat_push_drop: "unat (push_bit 12 (drop_bit 12 (a::uint64))) = unat a div 4096 * 4096"
proof -
  have "unat (push_bit 12 (drop_bit 12 a)) = take_bit 64 (push_bit 12 (drop_bit 12 (unat a)))"
    using unsigned_less[of a, where 'a = nat]
    by (simp add: unsigned_push_bit_eq unsigned_drop_bit_eq take_bit_nat_eq_self)
  then have "unat (push_bit 12 (drop_bit 12 a)) = take_bit 64 (unat a div 4096 * 4096)"
    by (simp only: push_bit_eq_mult drop_bit_eq_div) simp
  moreover have "unat a div 4096 * 4096 < 2 ^ 64"
    using unsigned_less[of a, where 'a = nat] div_times_less_eq_dividend[of "unat a" 4096] by simp
  ultimately show ?thesis by (simp add: take_bit_nat_eq_self)
qed

lemma unat_PGROUNDDOWN: "unat (PGROUNDDOWN a) = unat a div 4096 * 4096"
  by (simp add: PGROUNDDOWN_eq unat_push_drop)

lemma aligned_PGROUNDDOWN [simp]: "aligned 12 (PGROUNDDOWN a)"
  by (simp add: aligned_def unat_PGROUNDDOWN)

lemma PGROUNDUP_eq: "PGROUNDUP sz = PGROUNDDOWN (sz + 4095)"
  by (simp add: PGROUNDUP_def PGROUNDDOWN_def add.commute)

lemma aligned_PGROUNDUP [simp]: "aligned 12 (PGROUNDUP a)"
  by (simp add: PGROUNDUP_eq)

lemma unat_PGROUNDUP:
  assumes "unat a + 4095 < 2 ^ 64"
  shows "unat (PGROUNDUP a) = (unat a + 4095) div 4096 * 4096"
proof -
  have "unat (a + 4095) = unat a + 4095"
    using assms by (simp add: unat_word_ariths)
  then show ?thesis by (simp add: PGROUNDUP_eq unat_PGROUNDDOWN)
qed

lemma mod_PGSIZE_0_iff: "a mod PGSIZE = 0 \<longleftrightarrow> aligned 12 a"
  by (simp add: aligned_def word_unat_eq_iff unat_mod mod_eq_0_iff_dvd)

section \<open>Operations\<close>

definition kfree :: "uint64 \<Rightarrow> unit kernel" where
  "kfree pa = bindK (getK k_end) (\<lambda>end.
     if pa mod PGSIZE \<noteq> 0 \<or> pa < end \<or> pa \<ge> PHYSTOP then panicK ''kfree''
     else thenK (modK (\<lambda>s. s\<lparr>mem := memset (mem s) pa 1 (unat PGSIZE)\<rparr>))
         (thenK (acquire LKmem)
         (thenK (modK (\<lambda>s. s\<lparr>mem := store64 (mem s) pa (freelist s)\<rparr>))
         (thenK (modK (\<lambda>s. s\<lparr>freelist := pa\<rparr>))
         (release LKmem)))))"

definition kalloc :: "uint64 kernel" where
  "kalloc =
     thenK (acquire LKmem)
     (bindK (getK freelist) (\<lambda>r.
      thenK (whenK (r \<noteq> 0) (modK (\<lambda>s. s\<lparr>freelist := load64 (mem s) r\<rparr>)))
     (thenK (release LKmem)
     (thenK (whenK (r \<noteq> 0) (modK (\<lambda>s. s\<lparr>mem := memset (mem s) r 5 (unat PGSIZE)\<rparr>)))
     (retK r)))))"

text \<open>The loop of \<open>freerange\<close>; each round needs one unit of fuel.\<close>

fun freerange_loop :: "nat \<Rightarrow> uint64 \<Rightarrow> uint64 \<Rightarrow> unit kernel" where
  "freerange_loop 0 p pa_end = (\<lambda>s. Spin)"
| "freerange_loop (Suc fuel) p pa_end =
     (if p + PGSIZE \<le> pa_end then thenK (kfree p) (freerange_loop fuel (p + PGSIZE) pa_end)
      else retK ())"

definition freerange :: "uint64 \<Rightarrow> uint64 \<Rightarrow> unit kernel" where
  "freerange pa_start pa_end =
     freerange_loop (unat pa_end div 4096 + 1) (PGROUNDUP pa_start) pa_end"

definition kinit :: "unit kernel" where
  "kinit = bindK (getK k_end) (\<lambda>end. freerange end PHYSTOP)"

section \<open>The free list\<close>

fun free_chain :: "memory \<Rightarrow> uint64 \<Rightarrow> uint64 list \<Rightarrow> bool" where
  "free_chain m r [] \<longleftrightarrow> r = 0"
| "free_chain m r (p # ps) \<longleftrightarrow> r = p \<and> p \<noteq> 0 \<and> free_chain m (load64 m p) ps"

definition page_ok :: "kstate \<Rightarrow> uint64 \<Rightarrow> bool" where
  "page_ok s p \<longleftrightarrow> aligned 12 p \<and> k_end s \<le> p \<and> p < PHYSTOP"

definition kmem_free :: "kstate \<Rightarrow> uint64 list \<Rightarrow> bool" where
  "kmem_free s ps \<longleftrightarrow> 0 < k_end s \<and> free_chain (mem s) (freelist s) ps \<and> distinct ps \<and>
     (\<forall>p\<in>set ps. page_ok s p)"

lemma page_ok_nonzero: "0 < k_end s \<Longrightarrow> page_ok s p \<Longrightarrow> p \<noteq> 0"
  by (auto simp: page_ok_def)

lemma free_chain_unique: "free_chain m r ps \<Longrightarrow> free_chain m r qs \<Longrightarrow> ps = qs"
proof (induction ps arbitrary: r qs)
  case Nil
  then show ?case by (cases qs) auto
next
  case (Cons p ps)
  then show ?case by (cases qs) auto
qed

lemma free_chain_store:
  assumes "aligned 12 a" and "length bs \<le> 4096"
    and "\<forall>p\<in>set ps. aligned 12 p \<and> p \<noteq> a"
  shows "free_chain (store_bytes m a bs) r ps = free_chain m r ps"
  using assms(3)
proof (induction ps arbitrary: r)
  case (Cons p ps)
  have "disjoint a (length bs) p 8"
    using assms(1,2) Cons.prems by (intro aligned_disjoint[where k = 12]) auto
  then show ?case using Cons by (simp add: load64_store_disjoint)
qed simp

lemma free_chain_store64:
  "aligned 12 a \<Longrightarrow> \<forall>p\<in>set ps. aligned 12 p \<and> p \<noteq> a \<Longrightarrow>
   free_chain (store64 m a v) r ps = free_chain m r ps"
  by (simp add: store64_def free_chain_store)

lemma memset_page: "memset m a c 4096 = store_bytes m a (replicate 4096 c)"
  by (simp add: memset_eq)

section \<open>Behaviour of the operations\<close>

definition kfree_post :: "uint64 \<Rightarrow> kstate \<Rightarrow> kstate" where
  "kfree_post p s = s\<lparr>mem := store64 (store_bytes (mem s) p (replicate 4096 1)) p (freelist s),
     freelist := p\<rparr>"

definition kalloc_post :: "kstate \<Rightarrow> kstate" where
  "kalloc_post s = s\<lparr>mem := store_bytes (mem s) (freelist s) (replicate 4096 5),
     freelist := load64 (mem s) (freelist s)\<rparr>"

lemma kfree_eq:
  assumes "LKmem \<notin> set (held s)" and "page_ok s p"
  shows "kfree p s = Ret () (kfree_post p s)"
proof -
  have "p mod PGSIZE = 0" "\<not> p < k_end s" "\<not> p \<ge> PHYSTOP"
    using assms(2) mod_PGSIZE_0_iff[of p] by (auto simp: page_ok_def not_less not_le)
  then show ?thesis
    using assms(1) by (simp add: kfree_def kfree_post_def memset_page)
qed

lemma kalloc_eq:
  assumes "LKmem \<notin> set (held s)"
  shows "kalloc s = (if freelist s = 0 then Ret 0 s else Ret (freelist s) (kalloc_post s))"
  using assms by (simp add: kalloc_def kalloc_post_def memset_page)

lemma kmem_free_kfree_post:
  assumes free: "kmem_free s ps" and ok: "page_ok s p" and new: "p \<notin> set ps"
  shows "kmem_free (kfree_post p s) (p # ps)"
proof -
  have al: "aligned 12 p" using ok by (simp add: page_ok_def)
  have oth: "\<forall>q\<in>set ps. aligned 12 q \<and> q \<noteq> p"
    using free new by (auto simp: kmem_free_def page_ok_def)
  have nz: "p \<noteq> 0" using page_ok_nonzero[OF _ ok] free by (simp add: kmem_free_def)
  have "free_chain (mem (kfree_post p s)) (freelist s) ps"
    using free al oth by (simp add: kfree_post_def free_chain_store64 free_chain_store kmem_free_def)
  then show ?thesis
    using free ok new nz by (auto simp: kfree_post_def kmem_free_def page_ok_def)
qed

lemma kmem_free_kalloc_post:
  assumes free: "kmem_free s (p # ps)"
  shows "freelist s = p" and "p \<noteq> 0" and "kmem_free (kalloc_post s) ps"
proof -
  show fp: "freelist s = p" and "p \<noteq> 0" using free by (simp_all add: kmem_free_def)
  have al: "aligned 12 p" using free by (simp add: kmem_free_def page_ok_def)
  have oth: "\<forall>q\<in>set ps. aligned 12 q \<and> q \<noteq> p"
    using free by (auto simp: kmem_free_def page_ok_def)
  have "free_chain (mem (kalloc_post s)) (load64 (mem s) p) ps"
    using free al oth fp by (simp add: kalloc_post_def free_chain_store kmem_free_def)
  then show "kmem_free (kalloc_post s) ps"
    using free fp by (auto simp: kalloc_post_def kmem_free_def page_ok_def)
qed

lemma kmem_free_Nil: "kmem_free s [] \<Longrightarrow> freelist s = 0"
  by (simp add: kmem_free_def)

lemma kalloc_Nil: "LKmem \<notin> set (held s) \<Longrightarrow> kmem_free s [] \<Longrightarrow> kalloc s = Ret 0 s"
  by (simp add: kalloc_eq kmem_free_def)

lemma kalloc_Cons:
  "LKmem \<notin> set (held s) \<Longrightarrow> kmem_free s (p # ps) \<Longrightarrow> kalloc s = Ret p (kalloc_post s)"
  using kmem_free_kalloc_post[of s p ps] by (simp add: kalloc_eq)

lemma kalloc_post_frame [simp]:
  "held (kalloc_post s) = held s" "k_end (kalloc_post s) = k_end s" "procs (kalloc_post s) = procs s"
  "curproc (kalloc_post s) = curproc s" "k_trampoline (kalloc_post s) = k_trampoline s"
  by (simp_all add: kalloc_post_def)

lemma kfree_post_frame [simp]:
  "held (kfree_post p s) = held s" "k_end (kfree_post p s) = k_end s" "procs (kfree_post p s) = procs s"
  "curproc (kfree_post p s) = curproc s" "k_trampoline (kfree_post p s) = k_trampoline s"
  by (simp_all add: kfree_post_def)

lemma page_ok_cong: "k_end t = k_end s \<Longrightarrow> page_ok t = page_ok s"
  by (simp add: page_ok_def fun_eq_iff)

lemma mem_kfree_post_out:
  "4096 \<le> unat (x - p) \<Longrightarrow> mem (kfree_post p s) x = mem s x"
  by (simp add: kfree_post_def store64_def store_bytes_out)

lemma mem_kalloc_post:
  "mem (kalloc_post s) x = (if unat (x - freelist s) < 4096 then 5 else mem s x)"
  by (simp add: kalloc_post_def store_bytes_def)

section \<open>Boot: freerange and kinit\<close>

lemma aligned_add_page:
  assumes "aligned 12 p" and "unat p + 4096 < 2 ^ 64"
  shows "aligned 12 (p + PGSIZE)" and "unat (p + PGSIZE) = unat p + 4096"
proof -
  show u: "unat (p + PGSIZE) = unat p + 4096"
    using assms(2) by (simp add: unat_word_ariths)
  have "4096 dvd unat p + 4096" using assms(1) by (simp add: aligned_def)
  then show "aligned 12 (p + PGSIZE)" unfolding aligned_def u by simp
qed

text \<open>
  From a page-aligned \<open>p\<close> the loop frees exactly the pages between \<open>p\<close> and \<open>PHYSTOP\<close>, and the
  fuel given by \<open>freerange\<close> is enough.
\<close>

lemma freerange_loop_frees:
  assumes "kmem_free s ps" and "LKmem \<notin> set (held s)" and "aligned 12 p" and "k_end s \<le> p"
    and "unat p \<le> unat PHYSTOP" and "\<forall>q\<in>set ps. q < p"
    and "(unat PHYSTOP - unat p) div 4096 < fuel"
  shows "\<exists>t qs. freerange_loop fuel p PHYSTOP s = Ret () t \<and> kmem_free t qs \<and> k_end t = k_end s \<and>
     held t = held s \<and> set qs = set ps \<union> {q. aligned 12 q \<and> p \<le> q \<and> q < PHYSTOP}"
  using assms
proof (induction fuel arbitrary: s ps p)
  case 0
  then show ?case by simp
next
  case (Suc fuel)
  have stop: "unat PHYSTOP = 2281701376" by simp
  show ?case
  proof (cases "p + PGSIZE \<le> PHYSTOP")
    case True
    have lt: "unat p + 4096 < 2 ^ 64" using Suc.prems(5) stop by simp
    note step = aligned_add_page[OF Suc.prems(3) lt]
    have le: "unat p + 4096 \<le> unat PHYSTOP"
      using True step(2) by (simp add: word_le_nat_alt)
    have ok: "page_ok s p"
      using Suc.prems(3,4) le by (simp add: page_ok_def word_less_nat_alt)
    have new: "p \<notin> set ps" using Suc.prems(6) by auto
    let ?s = "kfree_post p s"
    have fr: "kmem_free ?s (p # ps)" using Suc.prems(1) ok new by (rule kmem_free_kfree_post)
    have "p < p + PGSIZE" using step(2) by (simp add: word_less_nat_alt)
    then have "k_end s \<le> p + PGSIZE" "\<forall>q\<in>set (p # ps). q < p + PGSIZE"
      using Suc.prems(4,6) by auto
    moreover have "(unat PHYSTOP - unat (p + PGSIZE)) div 4096 < fuel"
      using Suc.prems(7) le unfolding step(2) stop by simp
    ultimately obtain t qs where run: "freerange_loop fuel (p + PGSIZE) PHYSTOP ?s = Ret () t"
      and t: "kmem_free t qs" "k_end t = k_end ?s" "held t = held ?s"
      and qs: "set qs = set (p # ps) \<union> {q. aligned 12 q \<and> p + PGSIZE \<le> q \<and> q < PHYSTOP}"
      using Suc.IH[OF fr _ step(1)] Suc.prems(2) le step(2) by force
    have "q = p \<or> p + PGSIZE \<le> q" if q: "aligned 12 q" "p \<le> q" for q
    proof -
      obtain a b where ab: "unat p = 4096 * a" "unat q = 4096 * b"
        using Suc.prems(3) q(1) by (auto simp: aligned_def dvd_def)
      have "unat p \<le> unat q" using q(2) by (simp add: word_le_nat_alt)
      then show ?thesis
        unfolding word_le_nat_alt step(2) word_unat_eq_iff ab by auto
    qed
    moreover have "p < PHYSTOP" using ok by (simp add: page_ok_def)
    moreover have "p \<le> q" if "p + PGSIZE \<le> q" for q
      using that \<open>p < p + PGSIZE\<close> by simp
    ultimately have "set qs = set ps \<union> {q. aligned 12 q \<and> p \<le> q \<and> q < PHYSTOP}"
      unfolding qs using Suc.prems(3) by auto
    then show ?thesis
      using run t True kfree_eq[OF Suc.prems(2) ok] by auto
  next
    case False
    have lt: "unat p + 4096 < 2 ^ 64" using Suc.prems(5) stop by simp
    have "unat PHYSTOP < unat p + 4096"
      using False aligned_add_page(2)[OF Suc.prems(3) lt] by (simp add: word_le_nat_alt)
    moreover have "4096 dvd unat q \<Longrightarrow> unat p \<le> unat q \<Longrightarrow> unat q < unat PHYSTOP \<Longrightarrow> False" for q :: uint64
      using calculation Suc.prems(3) unfolding stop aligned_def by (auto simp: dvd_def)
    ultimately have "{q. aligned 12 q \<and> p \<le> q \<and> q < PHYSTOP} = {}"
      by (auto simp: aligned_def word_le_nat_alt word_less_nat_alt)
    then show ?thesis using False Suc.prems by auto
  qed
qed

lemma kinit_frees_all:
  assumes "freelist s = 0" and "LKmem \<notin> set (held s)" and "0 < k_end s" and "k_end s \<le> PHYSTOP"
  shows "\<exists>t ps. kinit s = Ret () t \<and> kmem_free t ps \<and> set ps = {p. page_ok s p}"
proof -
  have stop: "unat PHYSTOP = 2281701376" by simp
  have e: "unat (k_end s) \<le> unat PHYSTOP" using assms(4) by (simp only: word_le_nat_alt)
  then have up: "unat (PGROUNDUP (k_end s)) = (unat (k_end s) + 4095) div 4096 * 4096"
    unfolding stop by (intro unat_PGROUNDUP) simp
  have le: "k_end s \<le> PGROUNDUP (k_end s)" unfolding word_le_nat_alt up by simp
  have top: "unat (PGROUNDUP (k_end s)) \<le> unat PHYSTOP" using e unfolding up stop by simp
  have empty: "kmem_free s []" using assms(1,3) by (simp add: kmem_free_def)
  have fuel: "(unat PHYSTOP - unat (PGROUNDUP (k_end s))) div 4096 < unat PHYSTOP div 4096 + 1"
    using div_le_mono[of "unat PHYSTOP - unat (PGROUNDUP (k_end s))" "unat PHYSTOP" 4096]
    by (simp del: PHYSTOP_def)
  obtain t ps where "freerange (k_end s) PHYSTOP s = Ret () t" "kmem_free t ps"
    and ps: "set ps = {q. aligned 12 q \<and> PGROUNDUP (k_end s) \<le> q \<and> q < PHYSTOP}"
    using freerange_loop_frees[OF empty assms(2) aligned_PGROUNDUP le top _ fuel]
    unfolding freerange_def by auto
  moreover have "set ps = {p. page_ok s p}"
  proof -
    have "PGROUNDUP (k_end s) \<le> q" if q: "aligned 12 q" "k_end s \<le> q" for q
    proof -
      obtain b where b: "unat q = 4096 * b" using q(1) by (auto simp: aligned_def dvd_def)
      have "unat (k_end s) \<le> 4096 * b" using q(2) b by (simp add: word_le_nat_alt)
      then have "(unat (k_end s) + 4095) div 4096 \<le> b" by simp
      then show ?thesis unfolding word_le_nat_alt up b by simp
    qed
    then show ?thesis unfolding ps page_ok_def using le by auto
  qed
  ultimately show ?thesis by (auto simp: kinit_def)
qed

section \<open>The allocator as an interface\<close>

text \<open>
  What the rest of the kernel relies on: an allocator hands out a page that was free, and takes
  back a page that was not.  \<open>alloc_run\<close> is a client: any sequence of requests and returns, with
  the pages the clients currently hold.
\<close>

datatype 'p request = Alloc | Free 'p

fun alloc_run :: "('s \<Rightarrow> 'p option \<times> 's) \<Rightarrow> ('p \<Rightarrow> 's \<Rightarrow> 's) \<Rightarrow> 'p request list \<Rightarrow> 's \<times> 'p set \<Rightarrow> 's \<times> 'p set" where
  "alloc_run al fr [] c = c"
| "alloc_run al fr (Alloc # rs) (s, live) =
     (case al s of (None, t) \<Rightarrow> alloc_run al fr rs (t, live)
      | (Some p, t) \<Rightarrow> alloc_run al fr rs (t, insert p live))"
| "alloc_run al fr (Free p # rs) (s, live) =
     (if p \<in> live then alloc_run al fr rs (fr p s, live - {p}) else alloc_run al fr rs (s, live))"

locale page_allocator =
  fixes alloc :: "'s \<Rightarrow> 'p option \<times> 's"
    and dealloc :: "'p \<Rightarrow> 's \<Rightarrow> 's"
    and free_pages :: "'s \<Rightarrow> 'p set"
    and page :: "'s \<Rightarrow> 'p \<Rightarrow> bool"
    and inv :: "'s \<Rightarrow> bool"
  assumes alloc_empty: "inv s \<Longrightarrow> free_pages s = {} \<Longrightarrow> alloc s = (None, s)"
    and alloc_page: "inv s \<Longrightarrow> free_pages s \<noteq> {} \<Longrightarrow>
      \<exists>p t. alloc s = (Some p, t) \<and> p \<in> free_pages s \<and> free_pages t = free_pages s - {p} \<and>
        inv t \<and> page t = page s"
    and dealloc_page: "inv s \<Longrightarrow> page s p \<Longrightarrow> p \<notin> free_pages s \<Longrightarrow>
      inv (dealloc p s) \<and> free_pages (dealloc p s) = insert p (free_pages s) \<and> page (dealloc p s) = page s"
    and free_are_pages: "inv s \<Longrightarrow> p \<in> free_pages s \<Longrightarrow> page s p"
begin

lemma run_conserves:
  "inv s \<Longrightarrow> free_pages s \<inter> live = {} \<Longrightarrow> \<forall>p\<in>live. page s p \<Longrightarrow>
   alloc_run alloc dealloc rs (s, live) = (t, live') \<Longrightarrow>
   inv t \<and> free_pages t \<inter> live' = {} \<and> free_pages t \<union> live' = free_pages s \<union> live"
proof (induction rs arbitrary: s live)
  case Nil
  then show ?case by simp
next
  case (Cons r rs)
  show ?case
  proof (cases r)
    case Alloc
    show ?thesis
    proof (cases "free_pages s = {}")
      case True
      then show ?thesis using Cons Alloc alloc_empty[OF Cons.prems(1)] by simp
    next
      case False
      then obtain p u where a: "alloc s = (Some p, u)" "p \<in> free_pages s"
        "free_pages u = free_pages s - {p}" "inv u" "page u = page s"
        using alloc_page Cons.prems(1) by blast
      have "inv t \<and> free_pages t \<inter> live' = {} \<and> free_pages t \<union> live' = free_pages u \<union> insert p live"
        by (rule Cons.IH) (use Cons.prems Alloc a free_are_pages in auto)
      then show ?thesis using a by auto
    qed
  next
    case (Free p)
    show ?thesis
    proof (cases "p \<in> live")
      case True
      then have d: "inv (dealloc p s)" "free_pages (dealloc p s) = insert p (free_pages s)"
        "page (dealloc p s) = page s"
        using dealloc_page Cons.prems by auto
      have "inv t \<and> free_pages t \<inter> live' = {} \<and>
          free_pages t \<union> live' = free_pages (dealloc p s) \<union> (live - {p})"
        by (rule Cons.IH) (use Cons.prems Free True d in auto)
      then show ?thesis using d True by auto
    next
      case False
      then show ?thesis using Cons Free by simp
    qed
  qed
qed

end

definition kalloc_page :: "kstate \<Rightarrow> uint64 option \<times> kstate" where
  "kalloc_page s = (case kalloc s of Ret r t \<Rightarrow> (if r = 0 then None else Some r, t) | _ \<Rightarrow> (None, s))"

definition kfree_page :: "uint64 \<Rightarrow> kstate \<Rightarrow> kstate" where
  "kfree_page p s = (case kfree p s of Ret _ t \<Rightarrow> t | _ \<Rightarrow> s)"

definition free_set :: "kstate \<Rightarrow> uint64 set" where
  "free_set s = {p. \<exists>ps. kmem_free s ps \<and> p \<in> set ps}"

definition kmem_inv :: "kstate \<Rightarrow> bool" where
  "kmem_inv s \<longleftrightarrow> LKmem \<notin> set (held s) \<and> (\<exists>ps. kmem_free s ps)"

lemma free_set_eq: "kmem_free s ps \<Longrightarrow> free_set s = set ps"
  unfolding free_set_def by (auto simp: kmem_free_def dest: free_chain_unique)

lemma kmem_invE:
  assumes "kmem_inv s"
  obtains ps where "kmem_free s ps" "free_set s = set ps" "LKmem \<notin> set (held s)"
  using assms free_set_eq unfolding kmem_inv_def by blast

interpretation kpages: page_allocator kalloc_page kfree_page free_set page_ok kmem_inv
proof
  fix s p
  assume inv: "kmem_inv s"
  obtain ps where ps: "kmem_free s ps" "free_set s = set ps" and lk: "LKmem \<notin> set (held s)"
    using inv by (rule kmem_invE)
  show "kalloc_page s = (None, s)" if "free_set s = {}"
    using that ps lk by (simp add: kalloc_page_def kalloc_Nil)
  show "\<exists>p t. kalloc_page s = (Some p, t) \<and> p \<in> free_set s \<and> free_set t = free_set s - {p} \<and>
      kmem_inv t \<and> page_ok t = page_ok s" if ne: "free_set s \<noteq> {}"
  proof -
    obtain q qs where q: "ps = q # qs" using ne ps by (cases ps) auto
    note post = kmem_free_kalloc_post[OF ps(1)[unfolded q]]
    have "kalloc_page s = (Some q, kalloc_post s)"
      using kalloc_Cons[OF lk ps(1)[unfolded q]] post(2) by (simp add: kalloc_page_def)
    moreover have "distinct (q # qs)" using ps(1) q by (simp add: kmem_free_def)
    ultimately show ?thesis
      using post(3) free_set_eq[OF post(3)] ps(2) q lk page_ok_cong[of "kalloc_post s" s]
      by (auto simp: kmem_inv_def)
  qed
  show "page_ok s p" if "p \<in> free_set s"
    using that ps by (auto simp: kmem_free_def)
  show "kmem_inv (kfree_page p s) \<and> free_set (kfree_page p s) = insert p (free_set s) \<and>
      page_ok (kfree_page p s) = page_ok s" if "page_ok s p" "p \<notin> free_set s"
  proof -
    have "kmem_free (kfree_post p s) (p # ps)" using that ps by (intro kmem_free_kfree_post) auto
    then show ?thesis
      using that lk ps free_set_eq[of "kfree_post p s" "p # ps"] page_ok_cong[of "kfree_post p s" s]
      by (auto simp: kfree_page_def kfree_eq kmem_inv_def)
  qed
qed

section \<open>Properties\<close>

text \<open>
  (C3) Allocator safety over any history: from a well-formed free list, whatever sequence of
  \<open>kalloc\<close> and \<open>kfree\<close> calls the clients make (returning only pages they hold), no page is ever
  both free and in use, and no page is lost or invented.
\<close>

theorem kalloc_history_safe:
  assumes "kmem_inv s" and "free_set s \<inter> live = {}" and "\<forall>p\<in>live. page_ok s p"
    and "alloc_run kalloc_page kfree_page rs (s, live) = (t, live')"
  shows "kmem_inv t \<and> free_set t \<inter> live' = {} \<and> free_set t \<union> live' = free_set s \<union> live"
  using assms by (rule kpages.run_conserves)

theorem kalloc_history_safe_witness:
  "let s = boot_state 0x87ffe000 0x80008000 0x80007000 zero_symbols (\<lambda>_. []); p = 0x87fff000 in
   \<exists>t live'. alloc_run kalloc_page kfree_page [Alloc, Free p, Alloc] (s, {p}) = (t, live') \<and>
     kmem_inv t \<and> free_set t \<inter> live' = {} \<and> free_set t \<union> live' = {p}"
proof -
  let ?s = "boot_state 0x87ffe000 0x80008000 0x80007000 zero_symbols (\<lambda>_. [])"
  obtain t live' where run:
    "alloc_run kalloc_page kfree_page [Alloc, Free 0x87fff000, Alloc] (?s, {0x87fff000}) = (t, live')"
    by (cases "alloc_run kalloc_page kfree_page [Alloc, Free 0x87fff000, Alloc] (?s, {0x87fff000})")
  have free: "kmem_free ?s []" by (simp add: boot_state_def kmem_free_def)
  have "kmem_inv ?s" using free by (auto simp: kmem_inv_def boot_state_def)
  moreover have "free_set ?s = {}" using free_set_eq[OF free] by simp
  moreover have "page_ok ?s 0x87fff000" by (simp add: boot_state_def page_ok_def aligned_def)
  ultimately have "kmem_inv t \<and> free_set t \<inter> live' = {} \<and> free_set t \<union> live' = {0x87fff000}"
    using kalloc_history_safe[OF _ _ _ run] by simp
  then show ?thesis using run by (simp only: Let_def) blast
qed

text \<open>
  (C13) At boot \<open>kinit\<close> returns, and leaves on the free list exactly the page-aligned addresses from
  \<open>end\<close> up to \<open>PHYSTOP\<close>, each once.
\<close>

theorem kinit_all_pages:
  assumes "freelist s = 0" and "LKmem \<notin> set (held s)" and "0 < k_end s" and "k_end s \<le> PHYSTOP"
  shows "\<exists>t ps. kinit s = Ret () t \<and> kmem_free t ps \<and> distinct ps \<and> set ps = {p. page_ok s p}"
proof -
  obtain t ps where "kinit s = Ret () t" "kmem_free t ps" "set ps = {p. page_ok s p}"
    using kinit_frees_all[OF assms] by blast
  then show ?thesis by (auto simp: kmem_free_def)
qed

theorem kinit_all_pages_witness:
  "\<exists>t ps. kinit (boot_state 0x87fff000 0x80008000 0x80007000 zero_symbols (\<lambda>_. [])) = Ret () t \<and> kmem_free t ps \<and>
     distinct ps \<and> set ps = {p. page_ok (boot_state 0x87fff000 0x80008000 0x80007000 zero_symbols (\<lambda>_. [])) p}"
  by (rule kinit_all_pages) (simp_all add: boot_state_def)

text \<open>
  (C14) \<open>kfree\<close> rejects, with a panic and before touching memory, exactly the addresses that are not
  page-aligned or lie outside \<open>end..PHYSTOP\<close>; a valid page goes back to the front of the list, so
  that the next \<open>kalloc\<close> returns it, filled with the junk byte 5.
\<close>

theorem kfree_then_kalloc:
  assumes "LKmem \<notin> set (held s)"
  shows "(\<not> page_ok s p \<longrightarrow> kfree p s = Panic ''kfree'') \<and>
    (page_ok s p \<and> kmem_free s ps \<and> p \<notin> set ps \<longrightarrow>
      (\<exists>u t. kfree p s = Ret () u \<and> kmem_free u (p # ps) \<and> kalloc u = Ret p t \<and> kmem_free t ps \<and>
        load_bytes (mem t) p 4096 = replicate 4096 5))"
proof (intro conjI impI)
  assume "\<not> page_ok s p"
  then show "kfree p s = Panic ''kfree''"
    using mod_PGSIZE_0_iff[of p] by (auto simp: page_ok_def kfree_def not_le not_less)
next
  assume h: "page_ok s p \<and> kmem_free s ps \<and> p \<notin> set ps"
  have fr: "kmem_free (kfree_post p s) (p # ps)" using h by (intro kmem_free_kfree_post) auto
  have "kfree p s = Ret () (kfree_post p s)" using assms h by (intro kfree_eq) auto
  moreover have "kalloc (kfree_post p s) = Ret p (kalloc_post (kfree_post p s))"
    using assms by (intro kalloc_Cons[OF _ fr]) simp
  moreover have "load_bytes (mem (kalloc_post (kfree_post p s))) p 4096 = replicate 4096 5"
    by (simp add: kalloc_post_def kfree_post_def)
  ultimately show "\<exists>u t. kfree p s = Ret () u \<and> kmem_free u (p # ps) \<and> kalloc u = Ret p t \<and>
      kmem_free t ps \<and> load_bytes (mem t) p 4096 = replicate 4096 5"
    using fr kmem_free_kalloc_post(3)[OF fr] by blast
qed

theorem kfree_then_kalloc_witness:
  "let s = boot_state 0x87ffe000 0x80008000 0x80007000 zero_symbols (\<lambda>_. []); p = 0x87fff000 in
   \<exists>u t. kfree p s = Ret () u \<and> kmem_free u [p] \<and> kalloc u = Ret p t \<and> kmem_free t [] \<and>
     load_bytes (mem t) p 4096 = replicate 4096 5"
proof -
  let ?s = "boot_state 0x87ffe000 0x80008000 0x80007000 zero_symbols (\<lambda>_. [])"
  have "LKmem \<notin> set (held ?s)" "page_ok ?s 0x87fff000" "kmem_free ?s []"
    by (simp_all add: boot_state_def page_ok_def kmem_free_def aligned_def)
  then show ?thesis using kfree_then_kalloc[of ?s "0x87fff000" "[]"] by simp
qed

end
