(* ===== verification/Xv6_Vm.thy ===== *)
theory Xv6_Vm
  imports Xv6_Kalloc Xv6_Sched
begin

text \<open>
  \<^verbatim>\<open>kernel/vm.c\<close>: Sv39 page tables.  A page table is the physical address of its root page; PTEs
  are read and written in the byte-addressed memory.  Loops over addresses carry fuel for the
  number of pages between their start and end modulo \<open>2 ^ 64\<close>, which is the number of rounds
  after which the loop variable reaches the end.

  \<open>copyout\<close>, \<open>copyin\<close> and \<open>copyinstr\<close> exchange bytes with a kernel object that does not overlap
  user memory: the source is a list of bytes, and the bytes stored at \<open>dst\<close> are returned.
\<close>

section \<open>PTEs (kernel/riscv.h)\<close>

definition PTE_V :: uint64 where "PTE_V = 1"
definition PTE_R :: uint64 where "PTE_R = 2"
definition PTE_W :: uint64 where "PTE_W = 4"
definition PTE_X :: uint64 where "PTE_X = 8"
definition PTE_U :: uint64 where "PTE_U = 16"

lemmas PTE_bits = PTE_V_def PTE_R_def PTE_W_def PTE_X_def PTE_U_def

definition PA2PTE :: "uint64 \<Rightarrow> uint64" where
  "PA2PTE pa = push_bit 10 (drop_bit 12 pa)"

definition PTE2PA :: "uint64 \<Rightarrow> uint64" where
  "PTE2PA pte = push_bit 12 (drop_bit 10 pte)"

definition PTE_FLAGS :: "uint64 \<Rightarrow> uint64" where
  "PTE_FLAGS pte = pte AND 0x3FF"

definition PX :: "nat \<Rightarrow> uint64 \<Rightarrow> uint64" where
  "PX level va = drop_bit (12 + 9 * level) va AND 0x1FF"

definition MAKE_SATP :: "uint64 \<Rightarrow> uint64" where
  "MAKE_SATP pagetable = push_bit 60 8 OR drop_bit 12 pagetable"

definition UART0 :: uint64 where "UART0 = 0x10000000"
definition VIRTIO0 :: uint64 where "VIRTIO0 = 0x10001000"
definition PLIC :: uint64 where "PLIC = 0x0c000000"

section \<open>Operations\<close>

definition memset_at :: "uint64 \<Rightarrow> uchar \<Rightarrow> nat \<Rightarrow> unit kernel" where
  "memset_at a c n = modK (\<lambda>s. s\<lparr>mem := memset (mem s) a c n\<rparr>)"

definition read_pte :: "uint64 \<Rightarrow> uint64 kernel" where
  "read_pte a = getK (\<lambda>s. load64 (mem s) a)"

definition write_pte :: "uint64 \<Rightarrow> uint64 \<Rightarrow> unit kernel" where
  "write_pte a v = modK (\<lambda>s. s\<lparr>mem := store64 (mem s) a v\<rparr>)"

text \<open>The loop of \<open>walk\<close> from level \<open>level\<close> down; the result 0 is a null pointer.\<close>

fun walk_loop :: "nat \<Rightarrow> uint64 \<Rightarrow> bool \<Rightarrow> uint64 \<Rightarrow> uint64 kernel" where
  "walk_loop 0 va alloc pagetable = retK (pagetable + 8 * PX 0 va)"
| "walk_loop (Suc level) va alloc pagetable =
     (let a = pagetable + 8 * PX (Suc level) va in
      bindK (read_pte a) (\<lambda>pte.
        if pte AND PTE_V \<noteq> 0 then walk_loop level va alloc (PTE2PA pte)
        else if \<not> alloc then retK 0
        else bindK kalloc (\<lambda>new.
          if new = 0 then retK 0
          else thenK (memset_at new 0 (unat PGSIZE))
              (thenK (write_pte a (PA2PTE new OR PTE_V))
                     (walk_loop level va alloc new)))))"

definition walk :: "uint64 \<Rightarrow> uint64 \<Rightarrow> bool \<Rightarrow> uint64 kernel" where
  "walk pagetable va alloc =
     (if va \<ge> MAXVA then panicK ''walk'' else walk_loop 2 va alloc pagetable)"

definition walkaddr :: "uint64 \<Rightarrow> uint64 \<Rightarrow> uint64 kernel" where
  "walkaddr pagetable va =
     (if va \<ge> MAXVA then retK 0
      else bindK (walk pagetable va False) (\<lambda>a.
        if a = 0 then retK 0
        else bindK (read_pte a) (\<lambda>pte.
          if pte AND PTE_V = 0 then retK 0
          else if pte AND PTE_U = 0 then retK 0
          else retK (PTE2PA pte))))"

fun mappages_loop :: "nat \<Rightarrow> uint64 \<Rightarrow> uint64 \<Rightarrow> uint64 \<Rightarrow> uint64 \<Rightarrow> uint64 \<Rightarrow> int kernel" where
  "mappages_loop 0 pagetable a lst pa perm = (\<lambda>s. Spin)"
| "mappages_loop (Suc fuel) pagetable a lst pa perm =
     bindK (walk pagetable a True) (\<lambda>p.
       if p = 0 then retK (- 1)
       else bindK (read_pte p) (\<lambda>pte.
         if pte AND PTE_V \<noteq> 0 then panicK ''mappages: remap''
         else thenK (write_pte p (PA2PTE pa OR perm OR PTE_V))
           (if a = lst then retK 0
            else mappages_loop fuel pagetable (a + PGSIZE) lst (pa + PGSIZE) perm)))"

definition mappages :: "uint64 \<Rightarrow> uint64 \<Rightarrow> uint64 \<Rightarrow> uint64 \<Rightarrow> uint64 \<Rightarrow> int kernel" where
  "mappages pagetable va sz pa perm =
     (if sz = 0 then panicK ''mappages: size''
      else let a = PGROUNDDOWN va; lst = PGROUNDDOWN (va + sz - 1) in
        mappages_loop (unat (lst - a) div 4096 + 1) pagetable a lst pa perm)"

definition kvmmap :: "uint64 \<Rightarrow> uint64 \<Rightarrow> uint64 \<Rightarrow> uint64 \<Rightarrow> uint64 \<Rightarrow> unit kernel" where
  "kvmmap kpgtbl va pa sz perm = bindK (mappages kpgtbl va sz pa perm) (\<lambda>r.
     if r \<noteq> 0 then panicK ''kvmmap'' else retK ())"

fun uvmunmap_loop :: "nat \<Rightarrow> uint64 \<Rightarrow> uint64 \<Rightarrow> uint64 \<Rightarrow> bool \<Rightarrow> unit kernel" where
  "uvmunmap_loop 0 pagetable a lst do_free = (\<lambda>s. Spin)"
| "uvmunmap_loop (Suc fuel) pagetable a lst do_free =
     (if a < lst then
        bindK (walk pagetable a False) (\<lambda>p.
          if p = 0 then panicK ''uvmunmap: walk''
          else bindK (read_pte p) (\<lambda>pte.
            if pte AND PTE_V = 0 then panicK ''uvmunmap: not mapped''
            else if PTE_FLAGS pte = PTE_V then panicK ''uvmunmap: not a leaf''
            else thenK (whenK do_free (kfree (PTE2PA pte)))
                (thenK (write_pte p 0)
                       (uvmunmap_loop fuel pagetable (a + PGSIZE) lst do_free))))
      else retK ())"

definition uvmunmap :: "uint64 \<Rightarrow> uint64 \<Rightarrow> uint64 \<Rightarrow> bool \<Rightarrow> unit kernel" where
  "uvmunmap pagetable va npages do_free =
     (if va mod PGSIZE \<noteq> 0 then panicK ''uvmunmap: not aligned''
      else uvmunmap_loop (unat (npages * PGSIZE) div 4096 + 1) pagetable va (va + npages * PGSIZE) do_free)"

definition uvmcreate :: "uint64 kernel" where
  "uvmcreate = bindK kalloc (\<lambda>pagetable.
     if pagetable = 0 then retK 0
     else thenK (memset_at pagetable 0 (unat PGSIZE)) (retK pagetable))"

text \<open>\<open>uvmfirst\<close> does not check the result of \<open>kalloc\<close>: without memory it writes at address 0.\<close>

definition uvmfirst :: "uint64 \<Rightarrow> bytes \<Rightarrow> unit kernel" where
  "uvmfirst pagetable src =
     (if of_nat (length src) \<ge> PGSIZE then panicK ''uvmfirst: more than a page''
      else bindK kalloc (\<lambda>new.
        thenK (memset_at new 0 (unat PGSIZE))
        (bindK (mappages pagetable 0 PGSIZE new (PTE_W OR PTE_R OR PTE_X OR PTE_U)) (\<lambda>_.
         modK (\<lambda>s. s\<lparr>mem := store_bytes (mem s) new src\<rparr>)))))"

definition uvmdealloc :: "uint64 \<Rightarrow> uint64 \<Rightarrow> uint64 \<Rightarrow> uint64 kernel" where
  "uvmdealloc pagetable oldsz newsz =
     (if newsz \<ge> oldsz then retK oldsz
      else thenK
        (whenK (PGROUNDUP newsz < PGROUNDUP oldsz)
          (let npages = (PGROUNDUP oldsz - PGROUNDUP newsz) div PGSIZE in
           uvmunmap pagetable (PGROUNDUP newsz) (scast (ucast npages :: 32 word)) True))
        (retK newsz))"

fun uvmalloc_loop :: "nat \<Rightarrow> uint64 \<Rightarrow> uint64 \<Rightarrow> uint64 \<Rightarrow> uint64 \<Rightarrow> uint64 \<Rightarrow> uint64 kernel" where
  "uvmalloc_loop 0 pagetable a oldsz newsz xperm = (\<lambda>s. Spin)"
| "uvmalloc_loop (Suc fuel) pagetable a oldsz newsz xperm =
     (if a < newsz then
        bindK kalloc (\<lambda>new.
          if new = 0 then bindK (uvmdealloc pagetable a oldsz) (\<lambda>_. retK 0)
          else thenK (memset_at new 0 (unat PGSIZE))
            (bindK (mappages pagetable a PGSIZE new (PTE_R OR PTE_U OR xperm)) (\<lambda>r.
              if r \<noteq> 0 then thenK (kfree new) (bindK (uvmdealloc pagetable a oldsz) (\<lambda>_. retK 0))
              else uvmalloc_loop fuel pagetable (a + PGSIZE) oldsz newsz xperm)))
      else retK newsz)"

definition uvmalloc :: "uint64 \<Rightarrow> uint64 \<Rightarrow> uint64 \<Rightarrow> uint64 \<Rightarrow> uint64 kernel" where
  "uvmalloc pagetable oldsz newsz xperm =
     (if newsz < oldsz then retK oldsz
      else let o1 = PGROUNDUP oldsz in
        uvmalloc_loop (unat (newsz - o1) div 4096 + 2) pagetable o1 o1 newsz xperm)"

text \<open>
  Recursion of \<open>freewalk\<close>: \<open>depth\<close> bounds the number of levels below the table, which is 3 for a
  well-formed Sv39 tree.
\<close>

fun freewalk :: "nat \<Rightarrow> uint64 \<Rightarrow> unit kernel" where
  "freewalk 0 pagetable = (\<lambda>s. Spin)"
| "freewalk (Suc depth) pagetable =
     thenK
      (forK [0..<512] (\<lambda>i.
         let a = pagetable + 8 * of_nat i in
         bindK (read_pte a) (\<lambda>pte.
           if pte AND PTE_V \<noteq> 0 \<and> pte AND (PTE_R OR PTE_W OR PTE_X) = 0 then
             thenK (freewalk depth (PTE2PA pte)) (write_pte a 0)
           else whenK (pte AND PTE_V \<noteq> 0) (panicK ''freewalk: leaf''))))
      (kfree pagetable)"

definition uvmfree :: "uint64 \<Rightarrow> uint64 \<Rightarrow> unit kernel" where
  "uvmfree pagetable sz =
     thenK (whenK (sz > 0) (uvmunmap pagetable 0 (PGROUNDUP sz div PGSIZE) True))
           (freewalk 3 pagetable)"

fun uvmcopy_loop :: "nat \<Rightarrow> uint64 \<Rightarrow> uint64 \<Rightarrow> uint64 \<Rightarrow> uint64 \<Rightarrow> int kernel" where
  "uvmcopy_loop 0 old new i sz = (\<lambda>s. Spin)"
| "uvmcopy_loop (Suc fuel) old new i sz =
     (if i < sz then
        bindK (walk old i False) (\<lambda>p.
          if p = 0 then panicK ''uvmcopy: pte should exist''
          else bindK (read_pte p) (\<lambda>pte.
            if pte AND PTE_V = 0 then panicK ''uvmcopy: page not present''
            else bindK kalloc (\<lambda>pg.
              if pg = 0 then thenK (uvmunmap new 0 (i div PGSIZE) True) (retK (- 1))
              else thenK (modK (\<lambda>s. s\<lparr>mem := memmove (mem s) pg (PTE2PA pte) (unat PGSIZE)\<rparr>))
                (bindK (mappages new i PGSIZE pg (PTE_FLAGS pte)) (\<lambda>r.
                  if r \<noteq> 0 then thenK (kfree pg) (thenK (uvmunmap new 0 (i div PGSIZE) True) (retK (- 1)))
                  else uvmcopy_loop fuel old new (i + PGSIZE) sz)))))
      else retK 0)"

definition uvmcopy :: "uint64 \<Rightarrow> uint64 \<Rightarrow> uint64 \<Rightarrow> int kernel" where
  "uvmcopy old new sz = uvmcopy_loop (unat sz div 4096 + 2) old new 0 sz"

definition uvmclear :: "uint64 \<Rightarrow> uint64 \<Rightarrow> unit kernel" where
  "uvmclear pagetable va = bindK (walk pagetable va False) (\<lambda>p.
     if p = 0 then panicK ''uvmclear''
     else bindK (read_pte p) (\<lambda>pte. write_pte p (pte AND NOT PTE_U)))"

text \<open>Every round of the copying loops moves at least one byte.\<close>

fun copyout_loop :: "nat \<Rightarrow> uint64 \<Rightarrow> uint64 \<Rightarrow> bytes \<Rightarrow> int kernel" where
  "copyout_loop 0 pagetable dstva src = (if src = [] then retK 0 else (\<lambda>s. Spin))"
| "copyout_loop (Suc fuel) pagetable dstva src =
     (if src = [] then retK 0
      else let va0 = PGROUNDDOWN dstva in
        bindK (walkaddr pagetable va0) (\<lambda>pa0.
          if pa0 = 0 then retK (- 1)
          else let n = min (unat (PGSIZE - (dstva - va0))) (length src) in
            thenK (modK (\<lambda>s. s\<lparr>mem := store_bytes (mem s) (pa0 + (dstva - va0)) (take n src)\<rparr>))
                  (copyout_loop fuel pagetable (va0 + PGSIZE) (drop n src))))"

definition copyout :: "uint64 \<Rightarrow> uint64 \<Rightarrow> bytes \<Rightarrow> int kernel" where
  "copyout pagetable dstva src = copyout_loop (length src) pagetable dstva src"

fun copyin_loop :: "nat \<Rightarrow> uint64 \<Rightarrow> uint64 \<Rightarrow> nat \<Rightarrow> bytes \<Rightarrow> (int \<times> bytes) kernel" where
  "copyin_loop 0 pagetable srcva len dst = (if len = 0 then retK (0, dst) else (\<lambda>s. Spin))"
| "copyin_loop (Suc fuel) pagetable srcva len dst =
     (if len = 0 then retK (0, dst)
      else let va0 = PGROUNDDOWN srcva in
        bindK (walkaddr pagetable va0) (\<lambda>pa0.
          if pa0 = 0 then retK (- 1, dst)
          else let n = min (unat (PGSIZE - (srcva - va0))) len in
            bindK (getK (\<lambda>s. load_bytes (mem s) (pa0 + (srcva - va0)) n)) (\<lambda>bs.
              copyin_loop fuel pagetable (va0 + PGSIZE) (len - n) (dst @ bs))))"

definition copyin :: "uint64 \<Rightarrow> uint64 \<Rightarrow> nat \<Rightarrow> (int \<times> bytes) kernel" where
  "copyin pagetable srcva len = copyin_loop len pagetable srcva len []"

text \<open>The inner loop of \<open>copyinstr\<close>: the bytes stored, and whether the nul was among them.\<close>

fun str_prefix :: "bytes \<Rightarrow> bytes \<times> bool" where
  "str_prefix [] = ([], False)"
| "str_prefix (c # cs) = (if c = 0 then ([0], True) else let (bs, z) = str_prefix cs in (c # bs, z))"

fun copyinstr_loop :: "nat \<Rightarrow> uint64 \<Rightarrow> uint64 \<Rightarrow> nat \<Rightarrow> bytes \<Rightarrow> (int \<times> bytes) kernel" where
  "copyinstr_loop 0 pagetable srcva maxlen dst = (if maxlen = 0 then retK (- 1, dst) else (\<lambda>s. Spin))"
| "copyinstr_loop (Suc fuel) pagetable srcva maxlen dst =
     (if maxlen = 0 then retK (- 1, dst)
      else let va0 = PGROUNDDOWN srcva in
        bindK (walkaddr pagetable va0) (\<lambda>pa0.
          if pa0 = 0 then retK (- 1, dst)
          else let n = min (unat (PGSIZE - (srcva - va0))) maxlen in
            bindK (getK (\<lambda>s. str_prefix (load_bytes (mem s) (pa0 + (srcva - va0)) n))) (\<lambda>(bs, got_null).
              if got_null then retK (0, dst @ bs)
              else copyinstr_loop fuel pagetable (va0 + PGSIZE) (maxlen - n) (dst @ bs))))"

definition copyinstr :: "uint64 \<Rightarrow> uint64 \<Rightarrow> nat \<Rightarrow> (int \<times> bytes) kernel" where
  "copyinstr pagetable srcva maxlen = copyinstr_loop maxlen pagetable srcva maxlen []"

section \<open>The kernel page table\<close>

definition proc_mapstacks :: "uint64 \<Rightarrow> unit kernel" where
  "proc_mapstacks kpgtbl = forK [0..<NPROC] (\<lambda>p.
     bindK kalloc (\<lambda>pa.
       if pa = 0 then panicK ''kalloc''
       else kvmmap kpgtbl (KSTACK p) pa PGSIZE (PTE_R OR PTE_W)))"

definition kvmmake :: "uint64 kernel" where
  "kvmmake = bindK kalloc (\<lambda>kpgtbl.
     thenK (memset_at kpgtbl 0 (unat PGSIZE))
    (thenK (kvmmap kpgtbl UART0 UART0 PGSIZE (PTE_R OR PTE_W))
    (thenK (kvmmap kpgtbl VIRTIO0 VIRTIO0 PGSIZE (PTE_R OR PTE_W))
    (thenK (kvmmap kpgtbl PLIC PLIC 0x400000 (PTE_R OR PTE_W))
    (bindK (getK k_etext) (\<lambda>etext.
     thenK (kvmmap kpgtbl KERNBASE KERNBASE (etext - KERNBASE) (PTE_R OR PTE_X))
    (thenK (kvmmap kpgtbl etext etext (PHYSTOP - etext) (PTE_R OR PTE_W))
    (bindK (getK k_trampoline) (\<lambda>trampoline.
     thenK (kvmmap kpgtbl TRAMPOLINE trampoline PGSIZE (PTE_R OR PTE_X))
    (thenK (proc_mapstacks kpgtbl)
           (retK kpgtbl)))))))))))"

definition kvminit :: "unit kernel" where
  "kvminit = bindK kvmmake (\<lambda>pt. modK (\<lambda>s. s\<lparr>kernel_pagetable := pt\<rparr>))"

definition kvminithart :: "unit kernel" where
  "kvminithart = modK (\<lambda>s. s\<lparr>csr := (csr s)\<lparr>satp := MAKE_SATP (kernel_pagetable s)\<rparr>\<rparr>)"

section \<open>User or kernel addresses (kernel/proc.c)\<close>

text \<open>
  \<open>either_copyout\<close> and \<open>either_copyin\<close>.  A kernel address is either physical memory or a local
  variable of the caller; for a local destination the bytes are handed back to the caller, and a
  local source carries its contents, \<open>src\<close> being the offset into it.
\<close>

datatype copy_dst = UserDst | PhysDst | LocalDst
datatype copy_src = UserSrc | PhysSrc | LocalSrc bytes

definition my_pagetable :: "uint64 kernel" where
  "my_pagetable = bindK myproc (\<lambda>p. getK (\<lambda>s. p_pagetable (procs s ! p)))"

definition either_copyout :: "copy_dst \<Rightarrow> uint64 \<Rightarrow> bytes \<Rightarrow> (int \<times> bytes) kernel" where
  "either_copyout user_dst dst src = (case user_dst of
       UserDst \<Rightarrow> bindK my_pagetable (\<lambda>pt. bindK (copyout pt dst src) (\<lambda>r. retK (r, [])))
     | PhysDst \<Rightarrow> thenK (modK (\<lambda>s. s\<lparr>mem := store_bytes (mem s) dst src\<rparr>)) (retK (0, []))
     | LocalDst \<Rightarrow> retK (0, src))"

definition either_copyin :: "copy_src \<Rightarrow> uint64 \<Rightarrow> nat \<Rightarrow> (int \<times> bytes) kernel" where
  "either_copyin user_src src len = (case user_src of
       UserSrc \<Rightarrow> bindK my_pagetable (\<lambda>pt. copyin pt src len)
     | PhysSrc \<Rightarrow> getK (\<lambda>s. (0, load_bytes (mem s) src len))
     | LocalSrc bs \<Rightarrow> retK (0, slice bs (unat src) len))"

end
