(* ===== verification/Xv6_Ring.thy ===== *)
theory Xv6_Ring
  imports Xv6_Prelude
begin

text \<open>
  The ring buffers of the kernel (pipes, console input, UART output) keep two free-running
  counters of machine words and index an array with the counter modulo its size.  The contract
  below is that of a bounded FIFO queue; it holds for every counter value, including across the
  wrap-around of the counters, because the array size divides the range of the counter.
\<close>

definition ring_queue :: "'a list \<Rightarrow> 'w::len word \<Rightarrow> 'w word \<Rightarrow> 'w word \<Rightarrow> 'a list" where
  "ring_queue buf cap r w = map (\<lambda>k. buf ! (unat (r + of_nat k) mod unat cap)) [0..<unat (w - r)]"

lemma mod_add_inj:
  assumes "(a + i) mod n = (a + j) mod (n :: nat)" and "i < n" and "j < n"
  shows "i = j"
proof -
  have le: "i = j" if "i \<le> j" "(a + i) mod n = (a + j) mod n" "j < n" for i j
  proof -
    have "n dvd (a + j) - (a + i)" using that(1,2) mod_eq_dvd_iff_nat[of "a + i" "a + j" n] by simp
    then show ?thesis using that(1,3) by (auto dest: dvd_imp_le)
  qed
  show ?thesis using le[of i j] le[of j i] assms by (cases "i \<le> j") simp_all
qed

lemma length_ring_queue [simp]: "length (ring_queue buf cap r w) = unat (w - r)"
  by (simp add: ring_queue_def)

locale ring_buffer =
  fixes cap :: "'w::len word"
  assumes cap_pos: "0 < unat cap" and cap_dvd: "unat cap dvd 2 ^ LENGTH('w)"
begin

lemma unat_mod_add:
  "unat ((r :: 'w word) + of_nat k) mod unat cap = (unat r + k) mod unat cap"
proof -
  have "unat (r + of_nat k) = (unat r + unat (of_nat k :: 'w word)) mod 2 ^ LENGTH('w)"
    by (rule unat_word_ariths)
  also have "unat (of_nat k :: 'w word) = k mod 2 ^ LENGTH('w)"
    by (simp add: unat_of_nat take_bit_eq_mod)
  finally have "unat (r + of_nat k) = (unat r + k) mod 2 ^ LENGTH('w)"
    by (simp add: mod_simps)
  then show ?thesis using cap_dvd by (simp add: mod_mod_cancel)
qed

lemma cap_lt: "unat cap < 2 ^ LENGTH('w)"
  by (rule unsigned_less)

lemma push_room:
  assumes "unat (w - r :: 'w word) < unat cap"
  shows "unat (w + 1 - r) = unat (w - r) + 1"
proof -
  have "unat (w - r) + 1 < 2 ^ LENGTH('w)" using assms cap_lt by linarith
  then have "unat ((w - r) + 1) = unat (w - r) + 1" by (simp only: unat_plus_if' unat_1 if_True)
  moreover have "w + 1 - r = (w - r) + 1" by simp
  ultimately show ?thesis by (simp only:)
qed

text \<open>Appending at the write counter.\<close>

lemma push:
  assumes room: "unat (w - r) < unat cap" and len: "length buf = unat cap"
  shows "ring_queue (buf[unat w mod unat cap := c]) cap r (w + 1) = ring_queue buf cap r w @ [c]"
proof -
  note n = push_room[OF room]
  have w: "unat w mod unat cap = (unat r + unat (w - r)) mod unat cap"
    using unat_mod_add[of r "unat (w - r)"] by (simp add: algebra_simps)
  show ?thesis
  proof (rule nth_equalityI)
    fix k assume "k < length (ring_queue (buf[unat w mod unat cap := c]) cap r (w + 1))"
    then have k: "k < unat (w - r) + 1" using n by simp
    have lt: "unat w mod unat cap < length buf" using len cap_pos by simp
    show "ring_queue (buf[unat w mod unat cap := c]) cap r (w + 1) ! k = (ring_queue buf cap r w @ [c]) ! k"
    proof (cases "k = unat (w - r)")
      case True
      then show ?thesis using n w lt by (simp add: ring_queue_def nth_append unat_mod_add)
    next
      case False
      then have "(unat r + k) mod unat cap \<noteq> (unat r + unat (w - r)) mod unat cap"
        using mod_add_inj[of "unat r" k "unat cap" "unat (w - r)"] k room by auto
      then show ?thesis using False k n w lt by (simp add: ring_queue_def nth_append unat_mod_add)
    qed
  qed (simp add: n)
qed

text \<open>Taking from the read counter.\<close>

lemma pop:
  assumes "w \<noteq> r"
  shows "ring_queue buf cap r w = buf ! (unat r mod unat cap) # ring_queue buf cap (r + 1) w"
proof -
  have pos: "0 < unat (w - r)" using assms by (simp add: unat_gt_0)
  have n: "unat (w - (r + 1)) = unat (w - r) - 1"
    using pos unat_minus_one[of "w - r"] assms by (simp add: algebra_simps)
  obtain m where m: "unat (w - r) = Suc m" using pos by (cases "unat (w - r)") auto
  have "[0..<unat (w - r)] = 0 # map Suc [0..<unat (w - r) - 1]"
    unfolding m by (simp add: upt_conv_Cons map_Suc_upt del: upt_Suc)
  moreover have "r + of_nat (Suc k) = r + 1 + of_nat k" for k by simp
  ultimately show ?thesis unfolding ring_queue_def n by (simp add: comp_def add.assoc del: of_nat_Suc)
qed

lemma empty_iff: "ring_queue buf cap r w = [] \<longleftrightarrow> w = r"
  by (simp add: ring_queue_def unat_eq_zero)

lemma full_iff: "length (ring_queue buf cap r w) = unat cap \<longleftrightarrow> w = r + cap"
proof -
  have "unat (w - r) = unat cap \<longleftrightarrow> w - r = cap" by (rule word_unat_eq_iff[symmetric])
  also have "\<dots> \<longleftrightarrow> w = r + cap" by (auto simp: algebra_simps)
  finally show ?thesis by simp
qed

text \<open>Taking back at the write counter, and splitting a queue at a counter in between.\<close>

lemma unpush:
  assumes "w \<noteq> r"
  shows "ring_queue buf cap r w = ring_queue buf cap r (w - 1) @ [buf ! (unat (w - 1) mod unat cap)]"
proof -
  have "unat (w - 1 - r) = unat (w - r) - 1" using unat_minus_one[of "w - r"] assms by (simp add: algebra_simps)
  moreover obtain m where m: "unat (w - r) = Suc m" using assms by (cases "unat (w - r)") (auto simp: unat_eq_zero)
  moreover have "r + of_nat m = w - 1"
  proof -
    have "w - r = of_nat (unat (w - r))" by simp
    then have "w - r = of_nat m + 1" unfolding m by simp
    then have "w = of_nat m + 1 + r" by (simp only: diff_eq_eq)
    then show ?thesis by simp
  qed
  ultimately show ?thesis by (simp add: ring_queue_def)
qed

lemma split_at:
  assumes "unat (w - r) + unat (e - w) < 2 ^ LENGTH('w)"
  shows "ring_queue buf cap r e = ring_queue buf cap r w @ ring_queue buf cap w e"
proof -
  have "unat ((w - r) + (e - w)) = unat (w - r) + unat (e - w)" using assms by (simp only: unat_plus_if' if_True)
  then have n: "unat (e - r) = unat (w - r) + unat (e - w)" by simp
  have "map (\<lambda>k. buf ! (unat (r + of_nat k) mod unat cap)) [unat (w - r)..<unat (w - r) + unat (e - w)] =
      map (\<lambda>k. buf ! (unat (w + of_nat k) mod unat cap)) [0..<unat (e - w)]"
  proof (rule nth_equalityI, simp)
    fix k assume "k < length (map (\<lambda>k. buf ! (unat (r + of_nat k) mod unat cap)) [unat (w - r)..<unat (w - r) + unat (e - w)])"
    then have k: "k < unat (e - w)" by simp
    have "r + of_nat (unat (w - r) + k) = w + of_nat k" by simp
    then show "map (\<lambda>k. buf ! (unat (r + of_nat k) mod unat cap)) [unat (w - r)..<unat (w - r) + unat (e - w)] ! k =
      map (\<lambda>k. buf ! (unat (w + of_nat k) mod unat cap)) [0..<unat (e - w)] ! k" using k by (simp del: of_nat_add)
  qed
  then show ?thesis unfolding ring_queue_def n by (simp only: upt_add_eq_append[OF le0] map_append)
qed

lemma pop_room: "w \<noteq> r \<Longrightarrow> unat (w - (r + 1)) = unat (w - r) - 1"
  using unat_minus_one[of "w - r"] by (simp add: algebra_simps)

end

end
