(* ===== verification/Xv6_Uart.thy ===== *)
theory Xv6_Uart
  imports Xv6_Sched Xv6_Ring
begin

text \<open>
  \<^verbatim>\<open>kernel/uart.c\<close> except \<open>uartintr\<close> (theory \<open>Xv6_Console\<close>), and \<open>consputc\<close> of
  \<^verbatim>\<open>kernel/console.c\<close>.  Reading \<open>LSR\<close> consumes an element of \<open>hw_idle\<close>; bytes written to \<open>THR\<close>
  are appended to \<open>hw_thr\<close>.  \<open>push_off\<close> and \<open>pop_off\<close> have no effect on this CPU's view of the
  state and are left out.
\<close>

section \<open>Operations\<close>

definition UART_TX_BUF_SIZE :: nat where [simp]: "UART_TX_BUF_SIZE = 32"

definition upd_uart :: "(uartst \<Rightarrow> uartst) \<Rightarrow> kstate \<Rightarrow> kstate" where
  "upd_uart f s = s\<lparr>uart := f (uart s)\<rparr>"

definition WriteReg :: "nat \<Rightarrow> uchar \<Rightarrow> unit kernel" where
  "WriteReg reg v = modK (upd_uart (\<lambda>u. u\<lparr>hw_cfg := hw_cfg u @ [(reg, v)]\<rparr>))"

definition uartinit :: "unit kernel" where
  "uartinit =
     thenK (WriteReg 1 0x00)
    (thenK (WriteReg 3 0x80)
    (thenK (WriteReg 0 0x03)
    (thenK (WriteReg 1 0x00)
    (thenK (WriteReg 3 0x03)
    (thenK (WriteReg 2 (0x01 OR 0x06))
           (WriteReg 1 (0x02 OR 0x01)))))))"

text \<open>\<open>ReadReg(LSR) & LSR_TX_IDLE\<close>\<close>

definition lsr_tx_idle :: "bool kernel" where
  "lsr_tx_idle =
     bindK (getK (\<lambda>s. case hw_idle (uart s) of [] \<Rightarrow> True | b # _ \<Rightarrow> b)) (\<lambda>idle.
     thenK (modK (upd_uart (\<lambda>u. u\<lparr>hw_idle := tl (hw_idle u)\<rparr>))) (retK idle))"

definition write_thr :: "uchar \<Rightarrow> unit kernel" where
  "write_thr c = modK (upd_uart (\<lambda>u. u\<lparr>hw_thr := hw_thr u @ [c]\<rparr>))"

definition uartstart_step :: "unit kernel" where
  "uartstart_step = bindK (getK uart) (\<lambda>u.
     let c = tx_buf u ! (unat (tx_r u) mod UART_TX_BUF_SIZE) in
     thenK (modK (upd_uart (\<lambda>u. u\<lparr>tx_r := tx_r u + 1\<rparr>)))
    (thenK (wakeup ChUartR)
           (write_thr c)))"

fun uartstart_loop :: "nat \<Rightarrow> unit kernel" where
  "uartstart_loop 0 = (\<lambda>s. Spin)"
| "uartstart_loop (Suc fuel) = bindK (getK uart) (\<lambda>u.
     if tx_w u = tx_r u then retK ()
     else bindK lsr_tx_idle (\<lambda>idle.
       if \<not> idle then retK ()
       else thenK uartstart_step (uartstart_loop fuel)))"

text \<open>The loop ends after at most \<open>uart_tx_w - uart_tx_r\<close> transmissions.\<close>

definition uartstart :: "unit kernel" where
  "uartstart = bindK (getK (\<lambda>s. unat (tx_w (uart s) - tx_r (uart s)))) (\<lambda>n. uartstart_loop (n + 1))"

text \<open>When \<open>uartputc\<close> sleeps it continues, after \<open>sleep_resume\<close>, with \<open>uartputc_loop\<close>.\<close>

definition uartputc_loop :: "uchar \<Rightarrow> unit kernel" where
  "uartputc_loop c = bindK (getK uart) (\<lambda>u.
     if tx_w u = tx_r u + of_nat UART_TX_BUF_SIZE then sleep ChUartR LUart
     else thenK (modK (upd_uart (\<lambda>u. u\<lparr>tx_buf := (tx_buf u)[unat (tx_w u) mod UART_TX_BUF_SIZE := c]\<rparr>)))
         (thenK (modK (upd_uart (\<lambda>u. u\<lparr>tx_w := tx_w u + 1\<rparr>)))
         (thenK uartstart
                (release LUart))))"

definition uartputc :: "uchar \<Rightarrow> unit kernel" where
  "uartputc c =
     thenK (acquire LUart)
    (bindK (getK panicked) (\<lambda>p. if p then (\<lambda>s. Spin) else uartputc_loop c))"

fun tx_wait :: "bool list \<Rightarrow> bool list" where
  "tx_wait [] = []"
| "tx_wait (idle # rest) = (if idle then rest else tx_wait rest)"

definition uartputc_sync :: "uchar \<Rightarrow> unit kernel" where
  "uartputc_sync c = bindK (getK panicked) (\<lambda>p.
     if p then (\<lambda>s. Spin)
     else thenK (modK (upd_uart (\<lambda>u. u\<lparr>hw_idle := tx_wait (hw_idle u)\<rparr>)))
                (write_thr c))"

definition uartgetc :: "int kernel" where
  "uartgetc = bindK (getK (\<lambda>s. hw_rx (uart s))) (\<lambda>rx. case rx of
       [] \<Rightarrow> retK (- 1)
     | c # rest \<Rightarrow> thenK (modK (upd_uart (\<lambda>u. u\<lparr>hw_rx := rest\<rparr>))) (retK (uint c)))"

definition BACKSPACE :: int where "BACKSPACE = 0x100"

definition consputc :: "int \<Rightarrow> unit kernel" where
  "consputc c =
     (if c = BACKSPACE then
        thenK (uartputc_sync 8) (thenK (uartputc_sync 32) (uartputc_sync 8))
      else uartputc_sync (word_of_int c))"

section \<open>Behaviour\<close>

text \<open>\<open>uartputc_sync\<close> sends its byte and touches nothing but the device.\<close>

definition sent :: "bytes \<Rightarrow> nat \<Rightarrow> kstate \<Rightarrow> kstate" where
  "sent bs n s = upd_uart (\<lambda>u. u\<lparr>hw_idle := (tx_wait ^^ n) (hw_idle u), hw_thr := hw_thr u @ bs\<rparr>) s"

lemma sent_0 [simp]: "sent [] 0 s = s"
  by (simp add: sent_def upd_uart_def)

lemma sent_sent: "sent bs n (sent cs m s) = sent (cs @ bs) (n + m) s"
  by (simp add: sent_def upd_uart_def funpow_add)

lemma panicked_sent [simp]: "panicked (sent bs n s) = panicked s"
  by (simp add: sent_def upd_uart_def)

lemma held_sent [simp]: "held (sent bs n s) = held s"
  by (simp add: sent_def upd_uart_def)

lemma pr_locking_sent [simp]: "pr_locking (sent bs n s) = pr_locking s"
  by (simp add: sent_def upd_uart_def)

lemma uartputc_sync_eq: "\<not> panicked s \<Longrightarrow> uartputc_sync c s = Ret () (sent [c] 1 s)"
  by (simp add: uartputc_sync_def write_thr_def sent_def upd_uart_def)

lemma consputc_char: "\<not> panicked s \<Longrightarrow> c \<noteq> BACKSPACE \<Longrightarrow> consputc c s = Ret () (sent [word_of_int c] 1 s)"
  by (simp add: consputc_def uartputc_sync_eq)

lemma consputc_backspace: "\<not> panicked s \<Longrightarrow> consputc BACKSPACE s = Ret () (sent [8, 32, 8] 3 s)"
  by (simp add: consputc_def uartputc_sync_eq sent_sent eval_nat_numeral)


section \<open>The transmit queue\<close>

interpretation uring: ring_buffer "32 :: uint64"
  by unfold_locales simp_all

definition tx_queue :: "uartst \<Rightarrow> bytes" where
  "tx_queue u = ring_queue (tx_buf u) 32 (tx_r u) (tx_w u)"

definition uart_ok :: "uartst \<Rightarrow> bool" where
  "uart_ok u \<longleftrightarrow> length (tx_buf u) = 32 \<and> length (tx_queue u) \<le> 32"

text \<open>How many of \<open>n\<close> waiting bytes the transmitter takes before a read of LSR finds it busy.\<close>

fun idle_run :: "bool list \<Rightarrow> nat \<Rightarrow> nat" where
  "idle_run bs 0 = 0"
| "idle_run [] (Suc n) = Suc n"
| "idle_run (b # bs) (Suc n) = (if b then Suc (idle_run bs n) else 0)"

lemma idle_run_le: "idle_run bs n \<le> n"
  by (induction bs n rule: idle_run.induct) auto

lemma idle_run_Nil [simp]: "idle_run [] n = n"
  by (cases n) simp_all

lemma upd_uart_frame [simp]:
  "held (upd_uart f s) = held s" "procs (upd_uart f s) = procs s" "curproc (upd_uart f s) = curproc s" "mem (upd_uart f s) = mem s"
  "panicked (upd_uart f s) = panicked s" "uart (upd_uart f s) = f (uart s)" "cons (upd_uart f s) = cons s"
  "upd_uart f (upd_uart g s) = upd_uart (\<lambda>u. f (g u)) s"
  by (simp_all add: upd_uart_def)

lemma woken_panicked [simp]: "panicked (woken_ptr ch s) = panicked s"
  by (simp add: woken_ptr_def)

lemma woken_upd_uart: "woken_ptr ch (upd_uart f s) = upd_uart f (woken_ptr ch s)"
  by (simp add: woken_ptr_def upd_uart_def)

lemma woken_woken [simp]: "woken_ptr ch (woken_ptr ch s) = woken_ptr ch s"
  by (simp add: woken_ptr_def wake1_def)

lemma proc_locks_free_frame [simp]:
  "proc_locks_free (upd_uart f s) = proc_locks_free s" "proc_locks_free (woken_ptr ch s) = proc_locks_free s"
  by (simp_all add: proc_locks_free_def)

lemma tx_queue_empty: "tx_w u = tx_r u \<longleftrightarrow> tx_queue u = []"
  using uring.empty_iff[of "tx_buf u" "tx_r u" "tx_w u"] by (simp add: tx_queue_def)

lemma tx_queue_full: "tx_w u = tx_r u + 32 \<longleftrightarrow> length (tx_queue u) = 32"
  using uring.full_iff[of "tx_buf u" "tx_r u" "tx_w u"] by (simp add: tx_queue_def del: length_ring_queue)

lemma tx_queue_pop:
  assumes "tx_w u \<noteq> tx_r u"
  shows "tx_queue u = tx_buf u ! (unat (tx_r u) mod 32) # tx_queue (u\<lparr>tx_r := tx_r u + 1\<rparr>)"
  using uring.pop[OF assms, of "tx_buf u"] by (simp add: tx_queue_def)

lemma tx_queue_hw [simp]: "tx_queue (u\<lparr>hw_idle := i\<rparr>) = tx_queue u" "tx_queue (u\<lparr>hw_thr := h\<rparr>) = tx_queue u"
  by (simp_all add: tx_queue_def)

lemma tx_queue_push:
  assumes "uart_ok u" and "length (tx_queue u) < 32"
  shows "tx_queue (u\<lparr>tx_buf := (tx_buf u)[unat (tx_w u) mod 32 := c], tx_w := tx_w u + 1\<rparr>) = tx_queue u @ [c]"
  using uring.push[of "tx_w u" "tx_r u" "tx_buf u" c] assms by (simp add: tx_queue_def uart_ok_def)

lemma uartstart_step_eq:
  assumes "proc_locks_free s" and "length (procs s) = NPROC"
  shows "uartstart_step s = Ret () (woken ChUartR (upd_uart
    (\<lambda>u. u\<lparr>tx_r := tx_r u + 1, hw_thr := hw_thr u @ [tx_buf u ! (unat (tx_r u) mod 32)]\<rparr>) s))"
  using wakeup_eq[of "upd_uart (\<lambda>u. u\<lparr>tx_r := tx_r u + 1\<rparr>) s" ChUartR] assms
  by (simp add: uartstart_step_def write_thr_def woken_upd_uart) (simp add: upd_uart_def)

lemma lsr_tx_idle_eq:
  "lsr_tx_idle s = Ret (case hw_idle (uart s) of [] \<Rightarrow> True | b # _ \<Rightarrow> b) (upd_uart (\<lambda>u. u\<lparr>hw_idle := tl (hw_idle u)\<rparr>) s)"
  by (simp add: lsr_tx_idle_def)

lemma uartstart_loop_sends:
  assumes "proc_locks_free s" and "length (procs s) = NPROC" and "length (tx_queue (uart s)) < fuel"
    and "k = idle_run (hw_idle (uart s)) (length (tx_queue (uart s)))"
  shows "\<exists>u. uartstart_loop fuel s = Ret () ((if k = 0 then id else woken ChUartR) (upd_uart (\<lambda>_. u) s)) \<and>
    tx_queue u = drop k (tx_queue (uart s)) \<and> hw_thr u = hw_thr (uart s) @ take k (tx_queue (uart s)) \<and> tx_buf u = tx_buf (uart s) \<and>
    (hw_idle (uart s) = [] \<longrightarrow> hw_idle u = [])"
  using assms
proof (induction fuel arbitrary: s k)
  case (Suc fuel)
  let ?u = "uart s" and ?idle = "case hw_idle (uart s) of [] \<Rightarrow> True | b # _ \<Rightarrow> b"
  show ?case
  proof (cases "tx_w ?u = tx_r ?u")
    case True
    then have "tx_queue ?u = []" by (simp add: tx_queue_empty)
    with True Suc.prems(4) show ?thesis by (intro exI[of _ ?u]) (simp add: upd_uart_def)
  next
    case False
    then have ne: "tx_queue ?u \<noteq> []" by (simp add: tx_queue_empty)
    note q = tx_queue_pop[OF False]
    let ?s0 = "upd_uart (\<lambda>u. u\<lparr>hw_idle := tl (hw_idle u)\<rparr>) s"
    show ?thesis
    proof (cases ?idle)
      case True
      let ?v = "(?u\<lparr>hw_idle := tl (hw_idle ?u), tx_r := tx_r ?u + 1, hw_thr := hw_thr ?u @ [tx_buf ?u ! (unat (tx_r ?u) mod 32)]\<rparr>)"
      let ?s1 = "woken ChUartR (upd_uart (\<lambda>_. ?v) s)"
      have u1: "uart ?s1 = ?v" by simp
      have q1: "tx_queue ?u = tx_buf ?u ! (unat (tx_r ?u) mod 32) # tx_queue ?v" using q by (simp add: tx_queue_def)
      have "uartstart_step ?s0 = Ret () ?s1"
        using uartstart_step_eq[of ?s0] Suc.prems(1,2) by (simp add: woken_upd_uart) (simp add: upd_uart_def)
      then have step: "uartstart_loop (Suc fuel) s = uartstart_loop fuel ?s1" using False True by (simp add: lsr_tx_idle_eq)
      define j where "j = idle_run (hw_idle ?v) (length (tx_queue ?v))"
      have k: "k = Suc j" unfolding j_def Suc.prems(4) q1 using True by (cases "hw_idle ?u") simp_all
      have "\<exists>u. uartstart_loop fuel ?s1 = Ret () ((if j = 0 then id else woken ChUartR) (upd_uart (\<lambda>_. u) ?s1)) \<and>
        tx_queue u = drop j (tx_queue (uart ?s1)) \<and> hw_thr u = hw_thr (uart ?s1) @ take j (tx_queue (uart ?s1)) \<and>
        tx_buf u = tx_buf (uart ?s1) \<and> (hw_idle (uart ?s1) = [] \<longrightarrow> hw_idle u = [])"
        using Suc.prems q1 by (intro Suc.IH) (simp_all add: j_def)
      then obtain u where "uartstart_loop fuel ?s1 = Ret () ((if j = 0 then id else woken ChUartR) (upd_uart (\<lambda>_. u) ?s1))"
        "tx_queue u = drop j (tx_queue (uart ?s1))" "hw_thr u = hw_thr (uart ?s1) @ take j (tx_queue (uart ?s1))"
        "tx_buf u = tx_buf (uart ?s1)" "hw_idle (uart ?s1) = [] \<longrightarrow> hw_idle u = []" by blast
      note u = this[unfolded u1]
      have "(if j = 0 then id else woken ChUartR) (upd_uart (\<lambda>_. u) ?s1) = woken ChUartR (upd_uart (\<lambda>_. u) s)"
        by (simp add: woken_upd_uart[symmetric])
      then show ?thesis using u step unfolding q1 k by (intro exI[of _ u]) simp
    next
      case False
      then have "k = 0" using Suc.prems(4) by (cases "hw_idle ?u"; cases "length (tx_queue ?u)") simp_all
      then show ?thesis using \<open>tx_w ?u \<noteq> tx_r ?u\<close> False
        by (intro exI[of _ "?u\<lparr>hw_idle := tl (hw_idle ?u)\<rparr>"]) (simp add: lsr_tx_idle_eq upd_uart_def)
    qed
  qed
qed simp

section \<open>Properties\<close>

definition uart_ready :: "kstate \<Rightarrow> bool" where
  "uart_ready s \<longleftrightarrow> uart_ok (uart s) \<and> \<not> panicked s \<and> LUart \<notin> set (held s) \<and> proc_locks_free s \<and> length (procs s) = NPROC"

text \<open>A transmit buffer with three bytes across the wrap-around of the counters; the device takes one byte and is then busy once.\<close>

definition test_uart :: uartst where
  "test_uart = \<lparr>tx_buf = map of_nat [0..<32], tx_w = 2, tx_r = 0xFFFFFFFFFFFFFFFF, hw_rx = [], hw_thr = [], hw_idle = [True, False], hw_cfg = []\<rparr>"

definition uart_state :: kstate where
  "uart_state = (boot_state 0 0 0 zero_symbols (\<lambda>_. []))\<lparr>uart := test_uart\<rparr>"

lemma test_uart_queue: "tx_queue test_uart = [31, 0, 1]" "hw_idle test_uart = [True, False]" "hw_thr test_uart = []"
  by (simp add: tx_queue_def test_uart_def ring_queue_def upt_rec) (simp_all add: test_uart_def)

lemma uart_state_ready: "uart_ready uart_state" "uart uart_state = test_uart" "proc_locks_free uart_state" "length (procs uart_state) = NPROC"
  by (simp_all add: uart_ready_def uart_ok_def test_uart_queue uart_state_def proc_locks_free_def)
     (simp_all add: boot_state_def test_uart_def)

text \<open>
  (C22) Termination.  With no process lock held \<open>uartstart\<close> returns, whatever the device answers; it hands the transmitter
  the oldest bytes of the queue, in order, exactly as many as the device takes before it reports busy, and
  keeps the others; when the device stays idle it drains the queue.
\<close>

theorem uartstart_terminates:
  assumes "proc_locks_free s" and "length (procs s) = NPROC"
    and k: "k = idle_run (hw_idle (uart s)) (length (tx_queue (uart s)))"
  shows "\<exists>t. uartstart s = Ret () t \<and> tx_queue (uart t) = drop k (tx_queue (uart s)) \<and>
    hw_thr (uart t) = hw_thr (uart s) @ take k (tx_queue (uart s)) \<and> (hw_idle (uart s) = [] \<longrightarrow> tx_queue (uart t) = [])"
proof -
  have "unat (tx_w (uart s) - tx_r (uart s)) = length (tx_queue (uart s))" by (simp add: tx_queue_def)
  then show ?thesis
    using uartstart_loop_sends[OF assms(1,2) _ k, of "length (tx_queue (uart s)) + 1"] k
    by (auto simp: uartstart_def)
qed

theorem uartstart_terminates_witness:
  "\<exists>t. uartstart uart_state = Ret () t \<and> hw_thr (uart t) = [31] \<and> tx_queue (uart t) = [0, 1]"
  using uartstart_terminates[of uart_state 1] uart_state_ready by (auto simp: test_uart_queue)

text \<open>
  (C21) \<open>uartputc\<close>.  With room in the buffer it returns, and the bytes sent and still queued are those of before
  followed by \<open>c\<close>: output is neither lost, nor duplicated, nor reordered.  With a full buffer the process goes to
  sleep, holding back \<open>c\<close>, and the device and the buffer are unchanged.
\<close>

theorem uartputc_fifo:
  assumes r: "uart_ready s"
  shows "(length (tx_queue (uart s)) < 32 \<longrightarrow> (\<exists>t. uartputc c s = Ret () t \<and> uart_ready t \<and> held t = held s \<and>
      hw_thr (uart t) @ tx_queue (uart t) = hw_thr (uart s) @ tx_queue (uart s) @ [c])) \<and>
    (length (tx_queue (uart s)) = 32 \<longrightarrow> held s = [] \<longrightarrow> curproc s = Some p \<longrightarrow> p < NPROC \<longrightarrow>
      (\<exists>t. uartputc c s = Swtch p t \<and> uart t = uart s \<and> p_chan (procs t ! p) = Some ChUartR))"
proof (intro conjI impI)
  note d = r[unfolded uart_ready_def]
  let ?s = "s\<lparr>held := LUart # held s\<rparr>"
  { assume lt: "length (tx_queue (uart s)) < 32"
    let ?v = "(uart s)\<lparr>tx_buf := (tx_buf (uart s))[unat (tx_w (uart s)) mod 32 := c], tx_w := tx_w (uart s) + 1\<rparr>"
    let ?s1 = "upd_uart (\<lambda>_. ?v) ?s"
    have q: "tx_queue ?v = tx_queue (uart s) @ [c]" using tx_queue_push[OF _ lt, of c] d by blast
    define k where "k = idle_run (hw_idle ?v) (length (tx_queue ?v))"
    have "\<exists>u. uartstart_loop (length (tx_queue ?v) + 1) ?s1 = Ret () ((if k = 0 then id else woken ChUartR) (upd_uart (\<lambda>_. u) ?s1)) \<and>
      tx_queue u = drop k (tx_queue (uart ?s1)) \<and> hw_thr u = hw_thr (uart ?s1) @ take k (tx_queue (uart ?s1)) \<and>
      tx_buf u = tx_buf (uart ?s1) \<and> (hw_idle (uart ?s1) = [] \<longrightarrow> hw_idle u = [])"
      using d by (intro uartstart_loop_sends) (simp_all add: k_def proc_locks_free_def)
    then obtain u where u: "uartstart_loop (length (tx_queue ?v) + 1) ?s1 = Ret () ((if k = 0 then id else woken ChUartR) (upd_uart (\<lambda>_. u) ?s1))"
      "tx_queue u = drop k (tx_queue ?v)" "hw_thr u = hw_thr ?v @ take k (tx_queue ?v)" "tx_buf u = tx_buf ?v" by auto
    let ?t = "(if k = 0 then id else woken ChUartR) (upd_uart (\<lambda>_. u) s)"
    have "uartstart ?s1 = Ret () ((if k = 0 then id else woken ChUartR) (upd_uart (\<lambda>_. u) ?s1))"
      using u(1) by (simp add: uartstart_def tx_queue_def)
    moreover have "tx_w (uart s) \<noteq> tx_r (uart s) + 32" using tx_queue_full[of "uart s"] lt by simp
    ultimately have "uartputc c s = Ret () ?t"
      using d by (simp add: uartputc_def uartputc_loop_def) (simp add: upd_uart_def woken_ptr_def)
    moreover have "length (tx_queue u) \<le> 32" unfolding u(2) q length_drop length_append using lt by simp
    then have "uart_ready ?t" using d u(4) by (simp add: uart_ready_def uart_ok_def)
    moreover have "hw_thr (uart ?t) @ tx_queue (uart ?t) = hw_thr (uart s) @ tx_queue (uart s) @ [c]"
    proof -
      have "hw_thr u @ tx_queue u = hw_thr (uart s) @ tx_queue ?v" unfolding u(2,3) by simp
      then show ?thesis using q by simp
    qed
    ultimately show "\<exists>t. uartputc c s = Ret () t \<and> uart_ready t \<and> held t = held s \<and>
      hw_thr (uart t) @ tx_queue (uart t) = hw_thr (uart s) @ tx_queue (uart s) @ [c]" by (intro exI[of _ ?t]) simp }
  { assume full: "length (tx_queue (uart s)) = 32" and h: "held s = []" and p: "curproc s = Some p" "p < NPROC"
    then have "tx_w (uart s) = tx_r (uart s) + 32" by (simp add: tx_queue_full)
    then show "\<exists>t. uartputc c s = Swtch p t \<and> uart t = uart s \<and> p_chan (procs t ! p) = Some ChUartR"
      using d h p sleep_eq[of ?s p LUart ChUartR] by (simp add: uartputc_def uartputc_loop_def upd_proc_def) }
qed

theorem uartputc_fifo_witness:
  "\<exists>t. uartputc 65 uart_state = Ret () t \<and> hw_thr (uart t) @ tx_queue (uart t) = [31, 0, 1, 65]"
  using uartputc_fifo[OF uart_state_ready(1), of 65] uart_state_ready(2) by (auto simp: test_uart_queue)

end
