(* ===== verification/Xv6_Printf.thy ===== *)
theory Xv6_Printf
  imports Xv6_Uart
begin

text \<open>
  \<^verbatim>\<open>kernel/printf.c\<close>.  A format string is a HOL string; the variable arguments are a list of typed
  values.  Fetching an argument of another type than was passed is undefined.  Everything printed
  ends up, byte by byte, in the UART's transmit register.
\<close>

section \<open>Operations\<close>

definition digit :: "nat \<Rightarrow> char" where
  "digit d = ''0123456789abcdef'' ! d"

definition putc :: "char \<Rightarrow> unit kernel" where
  "putc c = consputc (int (of_char c))"

text \<open>The \<open>do ... while\<close> loop of \<open>printint\<close>, least significant digit first.\<close>

function printint_digits :: "nat \<Rightarrow> nat \<Rightarrow> char list" where
  "printint_digits base x = digit (x mod base) #
     (if base < 2 \<or> x div base = 0 then [] else printint_digits base (x div base))"
  by auto
termination
proof (relation "measure snd")
  fix base x :: nat
  assume "\<not> (base < 2 \<or> x div base = 0)"
  then have "1 < base" "0 < x" by (auto intro: gr0I)
  then show "((base, x div base), base, x) \<in> measure snd" by simp
qed simp

declare printint_digits.simps [simp del]

text \<open>
  \<open>xx\<close> is a C \<open>int\<close> and \<open>x\<close> is unsigned.  The negation \<open>-xx\<close> is computed in \<open>int\<close> before it is converted, so
  it overflows for the smallest \<open>int\<close>, and what follows is undefined.
\<close>

definition INT_MIN :: int where "INT_MIN = - (2 ^ 31)"

definition printint_buf :: "int \<Rightarrow> nat \<Rightarrow> bool \<Rightarrow> char list" where
  "printint_buf xx base sign =
     (let neg = sign \<and> xx < 0;
          x = (if neg then word_of_int (- xx) else word_of_int xx :: uint);
          ds = printint_digits base (unat x)
      in if neg then ds @ [CHR ''-''] else ds)"

definition printint :: "int \<Rightarrow> nat \<Rightarrow> bool \<Rightarrow> unit kernel" where
  "printint xx base sign =
     (if sign \<and> xx = INT_MIN then undefK else forK (rev (printint_buf xx base sign)) putc)"

fun printptr_loop :: "nat \<Rightarrow> uint64 \<Rightarrow> unit kernel" where
  "printptr_loop 0 x = retK ()"
| "printptr_loop (Suc n) x = thenK (putc (digit (unat (drop_bit 60 x)))) (printptr_loop n (push_bit 4 x))"

definition printptr :: "uint64 \<Rightarrow> unit kernel" where
  "printptr x = thenK (putc (CHR ''0'')) (thenK (putc (CHR ''x'')) (printptr_loop 16 x))"

text \<open>A string argument is \<^const>\<open>None\<close> for a null pointer, else the bytes before the nul.\<close>

datatype parg = PInt int | PPtr uint64 | PStr "bytes option"

definition print_str :: "bytes option \<Rightarrow> unit kernel" where
  "print_str so = forK (case so of None \<Rightarrow> map of_char ''(null)'' | Some bs \<Rightarrow> bs) (\<lambda>b. consputc (uint b))"

fun printf_loop :: "string \<Rightarrow> parg list \<Rightarrow> unit kernel" where
  "printf_loop [] args = retK ()"
| "printf_loop (c # cs) args =
     (if c \<noteq> CHR ''%'' then thenK (putc c) (printf_loop cs args)
      else case cs of
        [] \<Rightarrow> retK ()
      | d # ds \<Rightarrow>
          if d = CHR ''d'' then
            (case args of PInt xx # rest \<Rightarrow> thenK (printint xx 10 True) (printf_loop ds rest) | _ \<Rightarrow> undefK)
          else if d = CHR ''x'' then
            (case args of PInt xx # rest \<Rightarrow> thenK (printint xx 16 True) (printf_loop ds rest) | _ \<Rightarrow> undefK)
          else if d = CHR ''p'' then
            (case args of PPtr x # rest \<Rightarrow> thenK (printptr x) (printf_loop ds rest) | _ \<Rightarrow> undefK)
          else if d = CHR ''s'' then
            (case args of PStr so # rest \<Rightarrow> thenK (print_str so) (printf_loop ds rest) | _ \<Rightarrow> undefK)
          else if d = CHR ''%'' then thenK (putc (CHR ''%'')) (printf_loop ds args)
          else thenK (putc (CHR ''%'')) (thenK (putc d) (printf_loop ds args)))"

definition printf :: "string \<Rightarrow> parg list \<Rightarrow> unit kernel" where
  "printf fmt args = bindK (getK pr_locking) (\<lambda>locking.
     thenK (whenK locking (acquire LPr))
    (thenK (printf_loop fmt args)
           (whenK locking (release LPr))))"

text \<open>
  What \<open>panic\<close> does before it loops for ever; elsewhere in the development it is the outcome
  \<^const>\<open>Panic\<close>.
\<close>

definition panic :: "string \<Rightarrow> unit kernel" where
  "panic msg =
     thenK (modK (\<lambda>s. s\<lparr>pr_locking := False\<rparr>))
    (thenK (printf ''panic: '' [])
    (thenK (printf msg [])
    (thenK (printf ''\<newline>'' [])
           (modK (\<lambda>s. s\<lparr>panicked := True\<rparr>)))))"

definition printfinit :: "unit kernel" where
  "printfinit = modK (\<lambda>s. s\<lparr>pr_locking := True\<rparr>)"

section \<open>Behaviour\<close>

lemma of_char_not_backspace: "int (of_char c) \<noteq> BACKSPACE"
proof -
  have "(of_char c :: nat) < 256" by (rule nat_of_char_less_256)
  then show ?thesis unfolding BACKSPACE_def by linarith
qed

lemma putc_eq: "\<not> panicked s \<Longrightarrow> putc c s = Ret () (sent [of_char c] 1 s)"
proof -
  assume s: "\<not> panicked s"
  have "word_of_int (int (of_char c)) = (of_char c :: uchar)" by (metis of_int_of_nat_eq of_nat_of_char)
  then show ?thesis unfolding putc_def using consputc_char[OF s of_char_not_backspace, of c] by (simp only:)
qed

lemma putcs_eq: "\<not> panicked s \<Longrightarrow> forK cs putc s = Ret () (sent (map of_char cs) (length cs) s)"
  by (induction cs arbitrary: s) (simp_all add: putc_eq sent_sent)

subsection \<open>Numbers\<close>

definition digit_val :: "char \<Rightarrow> nat" where
  "digit_val c = (let d = of_char c :: nat in if d < 58 then d - 48 else d - 87)"

text \<open>Reference reading of a numeral, most significant digit first.\<close>

definition numeral_val :: "nat \<Rightarrow> char list \<Rightarrow> nat" where
  "numeral_val base cs = foldl (\<lambda>v c. v * base + digit_val c) 0 cs"

definition int_val :: "nat \<Rightarrow> char list \<Rightarrow> int" where
  "int_val base cs = (case cs of
      [] \<Rightarrow> 0
    | c # rest \<Rightarrow> if c = CHR ''-'' then - int (numeral_val base rest) else int (numeral_val base cs))"

lemma digit_val_digit: "d < 16 \<Longrightarrow> digit_val (digit d) = d \<and> digit d \<noteq> CHR ''-''"
proof -
  have "list_all (\<lambda>d. digit_val (digit d) = d \<and> digit d \<noteq> CHR ''-'') [0..<16]" by code_simp
  then show "d < 16 \<Longrightarrow> ?thesis" by (simp add: list_all_iff)
qed

lemma numeral_val_snoc: "numeral_val base (cs @ [c]) = numeral_val base cs * base + digit_val c"
  by (simp add: numeral_val_def)

lemma printint_digits_val:
  assumes "2 \<le> base" and "base \<le> 16"
  shows "numeral_val base (rev (printint_digits base x)) = x"
  using assms
proof (induction base x rule: printint_digits.induct)
  case (1 base x)
  have "x mod base < base" using 1 by simp
  then have d: "digit_val (digit (x mod base)) = x mod base"
    using digit_val_digit[of "x mod base"] 1 by linarith
  show ?case
  proof (cases "x div base = 0")
    case True
    then show ?thesis using d by (subst printint_digits.simps) (simp add: numeral_val_def mod_eq_self_iff_div_eq_0[THEN iffD2])
  next
    case False
    then show ?thesis using 1 d by (subst printint_digits.simps) (simp add: numeral_val_snoc)
  qed
qed

lemma printint_digits_set: "c \<in> set (printint_digits base x) \<Longrightarrow> 2 \<le> base \<Longrightarrow> base \<le> 16 \<Longrightarrow> c \<noteq> CHR ''-''"
proof (induction base x rule: printint_digits.induct)
  case (1 base x)
  have "x mod base < base" using 1 by simp
  then have "digit (x mod base) \<noteq> CHR ''-''" using digit_val_digit[of "x mod base"] 1 by linarith
  then show ?case using 1 by (subst (asm) (2) printint_digits.simps) (auto split: if_splits)
qed

lemma printint_digits_length: "2 \<le> base \<Longrightarrow> x < base ^ n \<Longrightarrow> 0 < n \<Longrightarrow> length (printint_digits base x) \<le> n"
proof (induction base x arbitrary: n rule: printint_digits.induct)
  case (1 base x)
  show ?case
  proof (cases "x div base = 0")
    case True
    then show ?thesis using 1 by (subst printint_digits.simps) simp
  next
    case False
    then have "n \<noteq> 1" using 1 by (auto simp: div_eq_0_iff)
    then obtain m where m: "n = Suc m" "0 < m" using 1 by (cases n) auto
    then have "x div base < base ^ m" using 1 by (simp add: less_mult_imp_div_less mult.commute)
    then show ?thesis using False 1 m by (subst printint_digits.simps) simp
  qed
qed

lemma printint_eq:
  "\<not> panicked s \<Longrightarrow> \<not> (sign \<and> xx = INT_MIN) \<Longrightarrow> printint xx base sign s =
     Ret () (sent (map of_char (rev (printint_buf xx base sign))) (length (printint_buf xx base sign)) s)"
  using putcs_eq[of s "rev (printint_buf xx base sign)"] unfolding printint_def by (auto simp only: if_False length_rev)

lemma printint_buf_val:
  assumes "INT_MIN < xx" and "xx < 2 ^ 31" and b: "2 \<le> base" "base \<le> 16"
  shows "int_val base (rev (printint_buf xx base True)) = xx"
proof -
  have u: "unat (word_of_int k :: uint) = nat k" if "0 \<le> k" "k \<le> 2 ^ 31" for k
  proof -
    have "uint (word_of_int k :: uint) = k"
      unfolding uint_word_of_int by (rule mod_pos_pos_trivial) (use that in simp_all)
    then show ?thesis unfolding unat_eq_nat_uint by (simp only:)
  qed
  show ?thesis
proof (cases "xx < 0")
  case True
  then have "unat (word_of_int (- xx) :: uint) = nat (- xx)" using u[of "- xx"] assms by (simp add: INT_MIN_def)
  then have "printint_buf xx base True = printint_digits base (nat (- xx)) @ [CHR ''-'']"
    unfolding printint_buf_def Let_def using True by (simp only: if_True simp_thms)
  then show ?thesis using True printint_digits_val[OF b, of "nat (- xx)"] by (simp add: int_val_def)
next
  case False
  then have "unat (word_of_int xx :: uint) = nat xx" using u[of xx] assms by linarith
  then have buf: "printint_buf xx base True = printint_digits base (nat xx)"
    unfolding printint_buf_def Let_def using False by (simp only: if_False simp_thms)
  let ?ds = "rev (printint_digits base (nat xx))"
  obtain c cs where c: "?ds = c # cs" by (cases ?ds) (simp_all add: printint_digits.simps[of base "nat xx"])
  then have "c \<in> set (printint_digits base (nat xx))" by (metis list.set_intros(1) set_rev)
  then have "c \<noteq> CHR ''-''" using printint_digits_set[OF _ b] by blast
  then show ?thesis using False c printint_digits_val[OF b, of "nat xx"] unfolding buf by (simp add: int_val_def)
qed
qed

lemma printint_buf_length:
  assumes "10 \<le> base" and "base \<le> 16"
  shows "length (printint_buf xx base sign) \<le> 11"
proof -
  have "unat (w :: uint) < base ^ 10" for w
  proof -
    have "unat w < 2 ^ 32" using unsigned_less[of w, where 'a = nat] by simp
    also have "(2 :: nat) ^ 32 \<le> 10 ^ 10" by simp
    also have "\<dots> \<le> base ^ 10" using assms(1) by (rule power_mono) simp
    finally show ?thesis .
  qed
  then have "length (printint_digits base (unat (w :: uint))) \<le> 10" for w
    using assms by (intro printint_digits_length) simp_all
  from this[of "word_of_int xx"] this[of "word_of_int (- xx)"] show ?thesis by (simp add: printint_buf_def Let_def)
qed

text \<open>
  (C29) For every C \<open>int\<close> but the most negative one, \<open>printint\<close> in decimal or hexadecimal sends the numeral that
  denotes it and nothing else, and never overruns its 16-byte buffer.
\<close>

theorem printint_prints_value:
  assumes "\<not> panicked s" and "INT_MIN < xx" and "xx < 2 ^ 31" and "base = 10 \<or> base = 16"
  shows "\<exists>cs. printint xx base True s = Ret () (sent (map of_char cs) (length cs) s) \<and>
     int_val base cs = xx \<and> length cs \<le> 16"
proof (intro exI conjI)
  let ?cs = "rev (printint_buf xx base True)"
  show "printint xx base True s = Ret () (sent (map of_char ?cs) (length ?cs) s)"
    using printint_eq[OF assms(1)] assms(2) by simp
  show "int_val base ?cs = xx" using assms by (intro printint_buf_val) auto
  show "length ?cs \<le> 16" using printint_buf_length[of base xx True] assms(4) by auto
qed

theorem printint_prints_value_witness:
  "\<exists>cs. printint (- 2147483647) 10 True (boot_state 0x87fff000 0x80008000 0x80007000 zero_symbols (\<lambda>_. [])) =
       Ret () (sent (map of_char cs) (length cs) (boot_state 0x87fff000 0x80008000 0x80007000 zero_symbols (\<lambda>_. []))) \<and>
     int_val 10 cs = - 2147483647 \<and> length cs \<le> 16"
  by (rule printint_prints_value) (simp_all add: boot_state_def INT_MIN_def)

lemma printf_int_min: "printf_loop (CHR ''%'' # CHR ''d'' # cs) (PInt INT_MIN # rest) s = Panic ''undefined behaviour''"
  by (simp add: printint_def undefK_def)

end
