(* ===== verification/Xv6_Fs.thy ===== *)
theory Xv6_Fs
  imports Xv6_Crash Xv6_Vm Xv6_Printf
begin

text \<open>
  \<^verbatim>\<open>kernel/fs.c\<close>: block allocator, inodes, directories and path names.  An inode pointer is an index
  of the inode table; where the code passes or returns null pointers it is an option.  On-disk
  structures are encoded in the bytes of their blocks: a \<open>struct dinode\<close> takes 64 bytes (type,
  major, minor, nlink as 16-bit fields, size and the 13 addresses as 32-bit fields), a
  \<open>struct dirent\<close> 16 bytes (inum, then 14 characters).  A path is the list of its characters
  before the nul.
\<close>

section \<open>Layout (kernel/fs.h)\<close>

definition FSMAGIC :: uint where "FSMAGIC = 0x10203040"
definition IPB :: nat where [simp]: "IPB = 16"
definition BPB :: nat where [simp]: "BPB = 8192"
definition T_DIR :: ushort where "T_DIR = 1"
definition T_FILE :: ushort where "T_FILE = 2"
definition T_DEVICE :: ushort where "T_DEVICE = 3"

definition IBLOCK :: "uint \<Rightarrow> superblock \<Rightarrow> uint" where
  "IBLOCK i sbp = i div of_nat IPB + sb_inodestart sbp"

definition BBLOCK :: "uint \<Rightarrow> superblock \<Rightarrow> uint" where
  "BBLOCK b sbp = b div of_nat BPB + sb_bmapstart sbp"

definition dinode_off :: "uint \<Rightarrow> nat" where
  "dinode_off inum = unat (inum mod of_nat IPB) * 64"

definition put_dinode :: "inode \<Rightarrow> nat \<Rightarrow> bytes \<Rightarrow> bytes" where
  "put_dinode ip off d =
    (let d1 = put16 d off (ip_type ip);
         d2 = put16 d1 (off + 2) (ip_major ip);
         d3 = put16 d2 (off + 4) (ip_minor ip);
         d4 = put16 d3 (off + 6) (ip_nlink ip);
         d5 = put32 d4 (off + 8) (ip_size ip)
     in splice d5 (off + 12) (concat (map (bytes_of 4) (ip_addrs ip))))"

definition get_dinode :: "bytes \<Rightarrow> nat \<Rightarrow> inode \<Rightarrow> inode" where
  "get_dinode d off ip = ip\<lparr>
     ip_type := get16 d off,
     ip_major := get16 d (off + 2),
     ip_minor := get16 d (off + 4),
     ip_nlink := get16 d (off + 6),
     ip_size := get32 d (off + 8),
     ip_addrs := map (\<lambda>i. get32 d (off + 12 + 4 * i)) [0..<NDIRECT + 1]\<rparr>"

definition upd_data :: "nat \<Rightarrow> (bytes \<Rightarrow> bytes) \<Rightarrow> unit kernel" where
  "upd_data b f = modK (\<lambda>s. set_data b (f (b_data (bufs s ! b))) s)"

definition bdata :: "nat \<Rightarrow> bytes kernel" where
  "bdata b = getK (\<lambda>s. b_data (bufs s ! b))"

section \<open>Super block and block allocator\<close>

definition sb_of_bytes :: "bytes \<Rightarrow> superblock" where
  "sb_of_bytes d = \<lparr>sb_magic = get32 d 0, sb_size = get32 d 4, sb_nblocks = get32 d 8,
     sb_ninodes = get32 d 12, sb_nlog = get32 d 16, sb_logstart = get32 d 20,
     sb_inodestart = get32 d 24, sb_bmapstart = get32 d 28\<rparr>"

definition readsb :: "uint \<Rightarrow> unit kernel" where
  "readsb dev = bindK (bread dev 1) (\<lambda>bp.
     thenK (modK (\<lambda>s. s\<lparr>sb := sb_of_bytes (b_data (bufs s ! bp))\<rparr>))
           (brelse bp))"

definition fsinit :: "uint \<Rightarrow> unit kernel" where
  "fsinit dev =
     thenK (readsb dev)
    (bindK (getK sb) (\<lambda>sbp.
       if sb_magic sbp \<noteq> FSMAGIC then panicK ''invalid file system''
       else initlog dev sbp))"

definition bzero :: "uint \<Rightarrow> uint \<Rightarrow> unit kernel" where
  "bzero dev bno = bindK (bread dev bno) (\<lambda>bp.
     thenK (upd_data bp (\<lambda>d. replicate BSIZE 0))
    (thenK (log_write bp)
           (brelse bp)))"

definition bit_mask :: "nat \<Rightarrow> uchar" where
  "bit_mask bi = push_bit (bi mod 8) 1"

definition bit_free :: "bytes \<Rightarrow> nat \<Rightarrow> bool" where
  "bit_free d bi \<longleftrightarrow> d ! (bi div 8) AND bit_mask bi = 0"

definition bit_set :: "nat \<Rightarrow> bytes \<Rightarrow> bytes" where
  "bit_set bi d = d[bi div 8 := d ! (bi div 8) OR bit_mask bi]"

definition bit_clear :: "nat \<Rightarrow> bytes \<Rightarrow> bytes" where
  "bit_clear bi d = d[bi div 8 := d ! (bi div 8) AND NOT (bit_mask bi)]"

text \<open>
  The outer loop runs over the multiples of \<open>BPB\<close> below \<open>sb.size\<close>.  Its variable \<open>b\<close> is an \<open>int\<close> that C converts to
  \<open>uint\<close> for the comparison; it stays in range for every disk of at most \<open>2^31\<close> blocks.
\<close>

fun balloc_loop :: "uint \<Rightarrow> nat list \<Rightarrow> uint kernel" where
  "balloc_loop dev [] = thenK (printf ''balloc: out of blocks\<newline>'' []) (retK 0)"
| "balloc_loop dev (b # bs) = bindK (getK sb) (\<lambda>sbp.
     bindK (bread dev (BBLOCK (of_nat b) sbp)) (\<lambda>bp.
     bindK (bdata bp) (\<lambda>d.
       case List.find (bit_free d) [0..<min BPB (unat (sb_size sbp) - b)] of
         Some bi \<Rightarrow>
           thenK (upd_data bp (bit_set bi))
          (thenK (log_write bp)
          (thenK (brelse bp)
          (thenK (bzero dev (of_nat (b + bi)))
                 (retK (of_nat (b + bi))))))
       | None \<Rightarrow> thenK (brelse bp) (balloc_loop dev bs))))"

definition balloc :: "uint \<Rightarrow> uint kernel" where
  "balloc dev = bindK (getK (\<lambda>s. unat (sb_size (sb s)))) (\<lambda>n.
     balloc_loop dev (map (\<lambda>k. k * BPB) [0..<(n + BPB - 1) div BPB]))"

definition bfree :: "uint \<Rightarrow> uint \<Rightarrow> unit kernel" where
  "bfree dev b = bindK (getK sb) (\<lambda>sbp.
     bindK (bread dev (BBLOCK b sbp)) (\<lambda>bp.
     let bi = unat (b mod of_nat BPB) in
     bindK (bdata bp) (\<lambda>d.
       if bit_free d bi then panicK ''freeing free block''
       else thenK (upd_data bp (bit_clear bi))
           (thenK (log_write bp)
                  (brelse bp)))))"

section \<open>Inodes\<close>

definition iinit :: "unit kernel" where
  "iinit = forK [0..<NINODE] (\<lambda>i. initsleeplock (SLInode i))"

definition iget :: "uint \<Rightarrow> uint \<Rightarrow> nat kernel" where
  "iget dev inum =
     thenK (acquire LItable)
    (bindK (getK itable) (\<lambda>tab.
       case List.find (\<lambda>i. ip_ref (tab ! i) > 0 \<and> ip_dev (tab ! i) = dev \<and> ip_inum (tab ! i) = inum) [0..<NINODE] of
         Some i \<Rightarrow>
           thenK (modK (upd_inode i (\<lambda>ip. ip\<lparr>ip_ref := ip_ref ip + 1\<rparr>)))
          (thenK (release LItable)
                 (retK i))
       | None \<Rightarrow>
           (case List.find (\<lambda>i. ip_ref (tab ! i) = 0) [0..<NINODE] of
             None \<Rightarrow> panicK ''iget: no inodes''
           | Some i \<Rightarrow>
               thenK (modK (upd_inode i (\<lambda>ip. ip\<lparr>ip_dev := dev, ip_inum := inum, ip_ref := 1, ip_valid := False\<rparr>)))
              (thenK (release LItable)
                     (retK i)))))"

text \<open>The loop of \<open>ialloc\<close> over the inode numbers from 1 on.\<close>

fun ialloc_loop :: "uint \<Rightarrow> ushort \<Rightarrow> nat list \<Rightarrow> nat option kernel" where
  "ialloc_loop dev type [] = thenK (printf ''ialloc: no inodes\<newline>'' []) (retK None)"
| "ialloc_loop dev type (inum # rest) = bindK (getK sb) (\<lambda>sbp.
     bindK (bread dev (IBLOCK (of_nat inum) sbp)) (\<lambda>bp.
     let off = dinode_off (of_nat inum) in
     bindK (bdata bp) (\<lambda>d.
       if get16 d off = 0 then
         thenK (upd_data bp (\<lambda>d. put16 (splice d off (replicate 64 0)) off type))
        (thenK (log_write bp)
        (thenK (brelse bp)
        (bindK (iget dev (of_nat inum)) (\<lambda>i. retK (Some i)))))
       else thenK (brelse bp) (ialloc_loop dev type rest))))"

definition ialloc :: "uint \<Rightarrow> ushort \<Rightarrow> nat option kernel" where
  "ialloc dev type = bindK (getK (\<lambda>s. unat (sb_ninodes (sb s)))) (\<lambda>n. ialloc_loop dev type [1..<n])"

definition iupdate :: "nat \<Rightarrow> unit kernel" where
  "iupdate i = bindK (getK (\<lambda>s. (itable s ! i, sb s))) (\<lambda>(ip, sbp).
     bindK (bread (ip_dev ip) (IBLOCK (ip_inum ip) sbp)) (\<lambda>bp.
     thenK (modK (\<lambda>s. set_data bp (put_dinode (itable s ! i) (dinode_off (ip_inum (itable s ! i))) (b_data (bufs s ! bp))) s))
    (thenK (log_write bp)
           (brelse bp))))"

definition idup :: "nat \<Rightarrow> nat kernel" where
  "idup i =
     thenK (acquire LItable)
    (thenK (modK (upd_inode i (\<lambda>ip. ip\<lparr>ip_ref := ip_ref ip + 1\<rparr>)))
    (thenK (release LItable)
           (retK i)))"

definition ilock :: "nat option \<Rightarrow> unit kernel" where
  "ilock ipo = (case ipo of None \<Rightarrow> panicK ''ilock'' | Some i \<Rightarrow>
     bindK (getK (\<lambda>s. ip_ref (itable s ! i))) (\<lambda>ref.
     if ref < 1 then panicK ''ilock''
     else thenK (acquiresleep (SLInode i))
       (bindK (getK (\<lambda>s. ip_valid (itable s ! i))) (\<lambda>valid.
        whenK (\<not> valid)
         (bindK (getK (\<lambda>s. (itable s ! i, sb s))) (\<lambda>(ip, sbp).
          bindK (bread (ip_dev ip) (IBLOCK (ip_inum ip) sbp)) (\<lambda>bp.
          thenK (modK (\<lambda>s. upd_inode i (get_dinode (b_data (bufs s ! bp)) (dinode_off (ip_inum ip))) s))
         (thenK (brelse bp)
         (thenK (modK (upd_inode i (\<lambda>ip. ip\<lparr>ip_valid := True\<rparr>)))
         (bindK (getK (\<lambda>s. ip_type (itable s ! i))) (\<lambda>type.
          whenK (type = 0) (panicK ''ilock: no type''))))))))))))"

definition iunlock :: "nat option \<Rightarrow> unit kernel" where
  "iunlock ipo = (case ipo of None \<Rightarrow> panicK ''iunlock'' | Some i \<Rightarrow>
     bindK (holdingsleep (SLInode i)) (\<lambda>h.
     bindK (getK (\<lambda>s. ip_ref (itable s ! i))) (\<lambda>ref.
     if \<not> h \<or> ref < 1 then panicK ''iunlock'' else releasesleep (SLInode i))))"

subsection \<open>Contents\<close>

definition bmap :: "nat \<Rightarrow> uint \<Rightarrow> uint kernel" where
  "bmap i bn = bindK (getK (\<lambda>s. itable s ! i)) (\<lambda>ip.
     if unat bn < NDIRECT then
       (if ip_addrs ip ! unat bn = 0 then
          bindK (balloc (ip_dev ip)) (\<lambda>addr.
            if addr = 0 then retK 0
            else thenK (modK (upd_inode i (\<lambda>ip. ip\<lparr>ip_addrs := (ip_addrs ip)[unat bn := addr]\<rparr>))) (retK addr))
        else retK (ip_addrs ip ! unat bn))
     else let k = unat bn - NDIRECT in
       if k < NINDIRECT then
         bindK (if ip_addrs ip ! NDIRECT = 0 then
                  bindK (balloc (ip_dev ip)) (\<lambda>addr.
                    thenK (whenK (addr \<noteq> 0) (modK (upd_inode i (\<lambda>ip. ip\<lparr>ip_addrs := (ip_addrs ip)[NDIRECT := addr]\<rparr>))))
                          (retK addr))
                else retK (ip_addrs ip ! NDIRECT)) (\<lambda>ind.
         if ind = 0 then retK 0
         else bindK (bread (ip_dev ip) ind) (\<lambda>bp.
           bindK (bdata bp) (\<lambda>d.
           bindK (if get32 d (4 * k) = 0 then
                    bindK (balloc (ip_dev ip)) (\<lambda>addr.
                      thenK (whenK (addr \<noteq> 0)
                              (thenK (upd_data bp (\<lambda>d. put32 d (4 * k) addr)) (log_write bp)))
                            (retK addr))
                  else retK (get32 d (4 * k))) (\<lambda>addr.
           thenK (brelse bp) (retK addr)))))
       else panicK ''bmap: out of range'')"

definition itrunc_direct :: "nat \<Rightarrow> nat \<Rightarrow> unit kernel" where
  "itrunc_direct i k = bindK (getK (\<lambda>s. itable s ! i)) (\<lambda>ip.
     whenK (ip_addrs ip ! k \<noteq> 0)
       (thenK (bfree (ip_dev ip) (ip_addrs ip ! k))
              (modK (upd_inode i (\<lambda>ip. ip\<lparr>ip_addrs := (ip_addrs ip)[k := 0]\<rparr>)))))"

definition itrunc :: "nat \<Rightarrow> unit kernel" where
  "itrunc i =
     thenK (forK [0..<NDIRECT] (itrunc_direct i))
    (bindK (getK (\<lambda>s. itable s ! i)) (\<lambda>ip.
     thenK (whenK (ip_addrs ip ! NDIRECT \<noteq> 0)
       (bindK (bread (ip_dev ip) (ip_addrs ip ! NDIRECT)) (\<lambda>bp.
        thenK (forK [0..<NINDIRECT] (\<lambda>j.
                 bindK (bdata bp) (\<lambda>d. whenK (get32 d (4 * j) \<noteq> 0) (bfree (ip_dev ip) (get32 d (4 * j))))))
       (thenK (brelse bp)
       (thenK (bfree (ip_dev ip) (ip_addrs ip ! NDIRECT))
              (modK (upd_inode i (\<lambda>ip. ip\<lparr>ip_addrs := (ip_addrs ip)[NDIRECT := 0]\<rparr>))))))))
    (thenK (modK (upd_inode i (\<lambda>ip. ip\<lparr>ip_size := 0\<rparr>)))
           (iupdate i))))"

definition iput :: "nat \<Rightarrow> unit kernel" where
  "iput i =
     thenK (acquire LItable)
    (bindK (getK (\<lambda>s. itable s ! i)) (\<lambda>ip.
     thenK (whenK (ip_ref ip = 1 \<and> ip_valid ip \<and> ip_nlink ip = 0)
       (thenK (acquiresleep (SLInode i))
       (thenK (release LItable)
       (thenK (itrunc i)
       (thenK (modK (upd_inode i (\<lambda>ip. ip\<lparr>ip_type := 0\<rparr>)))
       (thenK (iupdate i)
       (thenK (modK (upd_inode i (\<lambda>ip. ip\<lparr>ip_valid := False\<rparr>)))
       (thenK (releasesleep (SLInode i))
              (acquire LItable)))))))))
    (thenK (modK (upd_inode i (\<lambda>ip. ip\<lparr>ip_ref := ip_ref ip - 1\<rparr>)))
           (release LItable))))"

definition iunlockput :: "nat \<Rightarrow> unit kernel" where
  "iunlockput i = thenK (iunlock (Some i)) (iput i)"

record stat =
  st_dev :: uint
  st_ino :: uint
  st_type :: ushort
  st_nlink :: ushort
  st_size :: uint64

definition stati :: "nat \<Rightarrow> stat kernel" where
  "stati i = getK (\<lambda>s. let ip = itable s ! i in
     \<lparr>st_dev = ip_dev ip, st_ino = ip_inum ip, st_type = ip_type ip, st_nlink = ip_nlink ip,
      st_size = ucast (ip_size ip)\<rparr>)"

text \<open>Every round of the loops of \<open>readi\<close> and \<open>writei\<close> but the first starts at a block boundary.\<close>

fun readi_loop :: "nat \<Rightarrow> nat \<Rightarrow> copy_dst \<Rightarrow> uint64 \<Rightarrow> uint \<Rightarrow> uint \<Rightarrow> uint \<Rightarrow> bytes \<Rightarrow> (uint \<times> bytes) kernel" where
  "readi_loop 0 i user_dst dst off n tot acc = (\<lambda>s. Spin)"
| "readi_loop (Suc fuel) i user_dst dst off n tot acc =
     (if tot < n then
        bindK (bmap i (off div of_nat BSIZE)) (\<lambda>addr.
          if addr = 0 then retK (tot, acc)
          else bindK (getK (\<lambda>s. ip_dev (itable s ! i))) (\<lambda>dev.
            bindK (bread dev addr) (\<lambda>bp.
            let m = min (n - tot) (of_nat BSIZE - off mod of_nat BSIZE) in
            bindK (bdata bp) (\<lambda>d.
            bindK (either_copyout user_dst dst (slice d (unat (off mod of_nat BSIZE)) (unat m))) (\<lambda>(r, got).
              if r = - 1 then thenK (brelse bp) (retK (- 1, acc))
              else thenK (brelse bp)
                (readi_loop fuel i user_dst (dst + ucast m) (off + m) n (tot + m) (acc @ got)))))))
      else retK (tot, acc))"

definition readi :: "nat \<Rightarrow> copy_dst \<Rightarrow> uint64 \<Rightarrow> uint \<Rightarrow> uint \<Rightarrow> (int \<times> bytes) kernel" where
  "readi i user_dst dst off n = bindK (getK (\<lambda>s. ip_size (itable s ! i))) (\<lambda>isz.
     if off > isz \<or> off + n < off then retK (0, [])
     else let n1 = (if off + n > isz then isz - off else n) in
       bindK (readi_loop (unat n1 div BSIZE + 3) i user_dst dst off n1 0 []) (\<lambda>(tot, acc).
       retK (sint tot, acc)))"

text \<open>A failing \<open>either_copyin\<close> may have stored part of the data in the buffer already.\<close>

fun writei_loop :: "nat \<Rightarrow> nat \<Rightarrow> copy_src \<Rightarrow> uint64 \<Rightarrow> uint \<Rightarrow> uint \<Rightarrow> uint \<Rightarrow> (uint \<times> uint) kernel" where
  "writei_loop 0 i user_src src off n tot = (\<lambda>s. Spin)"
| "writei_loop (Suc fuel) i user_src src off n tot =
     (if tot < n then
        bindK (bmap i (off div of_nat BSIZE)) (\<lambda>addr.
          if addr = 0 then retK (tot, off)
          else bindK (getK (\<lambda>s. ip_dev (itable s ! i))) (\<lambda>dev.
            bindK (bread dev addr) (\<lambda>bp.
            let m = min (n - tot) (of_nat BSIZE - off mod of_nat BSIZE) in
            bindK (either_copyin user_src src (unat m)) (\<lambda>(r, bs).
            thenK (upd_data bp (\<lambda>d. splice d (unat (off mod of_nat BSIZE)) bs))
              (if r = - 1 then thenK (brelse bp) (retK (tot, off))
               else thenK (log_write bp)
                   (thenK (brelse bp)
                     (writei_loop fuel i user_src (src + ucast m) (off + m) n (tot + m))))))))
      else retK (tot, off))"

definition writei :: "nat \<Rightarrow> copy_src \<Rightarrow> uint64 \<Rightarrow> uint \<Rightarrow> uint \<Rightarrow> int kernel" where
  "writei i user_src src off n = bindK (getK (\<lambda>s. ip_size (itable s ! i))) (\<lambda>isz.
     if off > isz \<or> off + n < off then retK (- 1)
     else if off + n > of_nat (MAXFILE * BSIZE) then retK (- 1)
     else bindK (writei_loop (unat n div BSIZE + 3) i user_src src off n 0) (\<lambda>(tot, off').
       thenK (modK (upd_inode i (\<lambda>ip. if off' > ip_size ip then ip\<lparr>ip_size := off'\<rparr> else ip)))
      (thenK (iupdate i)
             (retK (sint tot)))))"

section \<open>Directories\<close>

definition de_inum :: "bytes \<Rightarrow> ushort" where
  "de_inum de = get16 de 0"

definition de_name :: "bytes \<Rightarrow> bytes" where
  "de_name de = slice de 2 DIRSIZ"

definition mk_dirent :: "ushort \<Rightarrow> bytes \<Rightarrow> bytes" where
  "mk_dirent inum name = bytes_of 2 inum @ name"

definition namecmp :: "cstring \<Rightarrow> cstring \<Rightarrow> int" where
  "namecmp s t = strncmp s t 0 DIRSIZ"

fun dirlookup_loop :: "nat \<Rightarrow> nat \<Rightarrow> cstring \<Rightarrow> uint \<Rightarrow> (nat \<times> uint) option kernel" where
  "dirlookup_loop 0 dp name off = (\<lambda>s. Spin)"
| "dirlookup_loop (Suc fuel) dp name off = bindK (getK (\<lambda>s. itable s ! dp)) (\<lambda>ip.
     if off < ip_size ip then
       bindK (readi dp LocalDst 0 off 16) (\<lambda>(r, de).
         if r \<noteq> 16 then panicK ''dirlookup read''
         else if de_inum de \<noteq> 0 \<and> namecmp name (cstr_of (de_name de)) = 0 then
           bindK (iget (ip_dev ip) (ucast (de_inum de))) (\<lambda>i. retK (Some (i, off)))
         else dirlookup_loop fuel dp name (off + 16))
     else retK None)"

definition dirlookup :: "nat \<Rightarrow> cstring \<Rightarrow> (nat \<times> uint) option kernel" where
  "dirlookup dp name = bindK (getK (\<lambda>s. itable s ! dp)) (\<lambda>ip.
     if ip_type ip \<noteq> T_DIR then panicK ''dirlookup not DIR''
     else dirlookup_loop (unat (ip_size ip) div 16 + 2) dp name 0)"

fun dirlink_scan :: "nat \<Rightarrow> nat \<Rightarrow> uint \<Rightarrow> uint kernel" where
  "dirlink_scan 0 dp off = (\<lambda>s. Spin)"
| "dirlink_scan (Suc fuel) dp off = bindK (getK (\<lambda>s. itable s ! dp)) (\<lambda>ip.
     if off < ip_size ip then
       bindK (readi dp LocalDst 0 off 16) (\<lambda>(r, de).
         if r \<noteq> 16 then panicK ''dirlink read''
         else if de_inum de = 0 then retK off
         else dirlink_scan fuel dp (off + 16))
     else retK off)"

definition dirlink :: "nat \<Rightarrow> cstring \<Rightarrow> uint \<Rightarrow> int kernel" where
  "dirlink dp name inum = bindK (dirlookup dp name) (\<lambda>r.
     case r of
       Some (i, _) \<Rightarrow> thenK (iput i) (retK (- 1))
     | None \<Rightarrow>
         bindK (getK (\<lambda>s. unat (ip_size (itable s ! dp)))) (\<lambda>sz.
         bindK (dirlink_scan (sz div 16 + 2) dp 0) (\<lambda>off.
         bindK (writei dp (LocalSrc (mk_dirent (ucast inum) (strncpy name 0 DIRSIZ))) 0 off 16) (\<lambda>w.
         retK (if w \<noteq> 16 then - 1 else 0)))))"

section \<open>Paths\<close>

definition slash :: uchar where "slash = 47"

definition skipelem :: "bytes \<Rightarrow> (bytes \<times> bytes) option" where
  "skipelem path =
    (let p = dropWhile (\<lambda>c. c = slash) path in
     if p = [] then None
     else let elem = takeWhile (\<lambda>c. c \<noteq> slash) p;
              rest = dropWhile (\<lambda>c. c \<noteq> slash) p;
              name = (if length elem \<ge> DIRSIZ then take DIRSIZ elem else elem @ [0])
       in Some (dropWhile (\<lambda>c. c = slash) rest, name))"

text \<open>
  The loop of \<open>namex\<close>; every element removed shortens the path.  The result is the inode and the
  last name copied.
\<close>

fun namex_loop :: "nat \<Rightarrow> nat \<Rightarrow> bytes \<Rightarrow> bool \<Rightarrow> bytes \<Rightarrow> (nat option \<times> bytes) kernel" where
  "namex_loop 0 i path parent name = (\<lambda>s. Spin)"
| "namex_loop (Suc fuel) i path parent name = (case skipelem path of
       None \<Rightarrow> if parent then thenK (iput i) (retK (None, name)) else retK (Some i, name)
     | Some (path', name') \<Rightarrow>
         thenK (ilock (Some i))
        (bindK (getK (\<lambda>s. ip_type (itable s ! i))) (\<lambda>type.
         if type \<noteq> T_DIR then thenK (iunlockput i) (retK (None, name'))
         else if parent \<and> path' = [] then thenK (iunlock (Some i)) (retK (Some i, name'))
         else bindK (dirlookup i (cstr_of name')) (\<lambda>r.
           case r of
             None \<Rightarrow> thenK (iunlockput i) (retK (None, name'))
           | Some (nxt, _) \<Rightarrow> thenK (iunlockput i) (namex_loop fuel nxt path' parent name')))))"

definition namex :: "bytes \<Rightarrow> bool \<Rightarrow> (nat option \<times> bytes) kernel" where
  "namex path parent =
     bindK (if path \<noteq> [] \<and> hd path = slash then iget ROOTDEV ROOTINO
            else bindK myproc (\<lambda>p. bindK (getK (\<lambda>s. p_cwd (procs s ! p))) (\<lambda>cwd.
              case cwd of None \<Rightarrow> null_fault | Some i \<Rightarrow> idup i))) (\<lambda>i.
     namex_loop (length path + 1) i path parent [])"

definition namei :: "bytes \<Rightarrow> nat option kernel" where
  "namei path = bindK (namex path False) (\<lambda>(i, _). retK i)"

definition nameiparent :: "bytes \<Rightarrow> (nat option \<times> bytes) kernel" where
  "nameiparent path = namex path True"

end
