(* ===== verification/Xv6_Uaccess.thy ===== *)
theory Xv6_Uaccess
  imports Xv6_Vm
begin

text \<open>
  Access to user memory (\<^verbatim>\<open>kernel/vm.c\<close>): \<open>walk\<close> without allocation and \<open>walkaddr\<close> are the page-table walk
  \<open>translate\<close> of physical memory, and \<open>copyin\<close>, \<open>copyout\<close> and \<open>copyinstr\<close> move bytes one address at a time
  through it, whatever page boundaries the range crosses.
\<close>

section \<open>Address translation\<close>

fun walk_pte :: "nat \<Rightarrow> memory \<Rightarrow> uint64 \<Rightarrow> uint64 \<Rightarrow> uint64" where
  "walk_pte 0 m va pt = pt + 8 * PX 0 va"
| "walk_pte (Suc level) m va pt =
     (let pte = load64 m (pt + 8 * PX (Suc level) va) in
      if pte AND PTE_V \<noteq> 0 then walk_pte level m va (PTE2PA pte) else 0)"

definition translate :: "memory \<Rightarrow> uint64 \<Rightarrow> uint64 \<Rightarrow> uint64" where
  "translate m pt va =
     (if va \<ge> MAXVA then 0
      else let a = walk_pte 2 m va pt in
        if a = 0 then 0
        else let pte = load64 m a in
          if pte AND PTE_V = 0 \<or> pte AND PTE_U = 0 then 0 else PTE2PA pte)"

text \<open>The physical address of a user byte.\<close>

definition uaddr :: "memory \<Rightarrow> uint64 \<Rightarrow> uint64 \<Rightarrow> uint64 option" where
  "uaddr m pt va =
     (let va0 = PGROUNDDOWN va; pa = translate m pt va0
      in if pa = 0 then None else Some (pa + (va - va0)))"

lemma walk_loop_False: "walk_loop level va False pt s = Ret (walk_pte level (mem s) va pt) s"
  by (induction level arbitrary: pt) (simp_all add: Let_def read_pte_def)

lemma walk_False: "va < MAXVA \<Longrightarrow> walk pt va False s = Ret (walk_pte 2 (mem s) va pt) s"
  by (simp add: walk_def walk_loop_False not_le)

lemma walkaddr_eq: "walkaddr pt va s = Ret (translate (mem s) pt va) s"
  by (cases "MAXVA \<le> va") (auto simp: walkaddr_def translate_def walk_False not_le read_pte_def Let_def dest: leD)

section \<open>Pages of a range\<close>

lemma page_room: "unat (PGSIZE - (va - PGROUNDDOWN va)) = 4096 - unat va mod 4096"
    and page_off: "unat (va - PGROUNDDOWN va) = unat va mod 4096"
proof -
  have le: "PGROUNDDOWN va \<le> va" by (simp add: word_le_nat_alt unat_PGROUNDDOWN)
  then show off: "unat (va - PGROUNDDOWN va) = unat va mod 4096"
    by (simp add: unat_sub unat_PGROUNDDOWN minus_div_mult_eq_mod)
  then have "va - PGROUNDDOWN va \<le> PGSIZE" by (simp add: word_le_nat_alt less_imp_le)
  then show "unat (PGSIZE - (va - PGROUNDDOWN va)) = 4096 - unat va mod 4096"
    by (simp add: unat_sub off)
qed

lemma page_same:
  assumes "k < 4096 - unat va mod 4096"
  shows "PGROUNDDOWN (va + of_nat k) = PGROUNDDOWN va"
proof -
  let ?off = "unat va mod 4096"
  have "(of_nat ?off :: uint64) = va - PGROUNDDOWN va" unfolding page_off[symmetric] by simp
  then have e: "va + of_nat k = PGROUNDDOWN va + of_nat (?off + k)" by simp
  have "unat (PGROUNDDOWN va + of_nat (?off + k)) = unat (PGROUNDDOWN va) + (?off + k)"
    using aligned_PGROUNDDOWN[of va] assms by (intro unat_add_small[where k = 12]) (simp_all add: aligned_def)
  then have u: "unat (va + of_nat k) = unat va div 4096 * 4096 + (?off + k)" unfolding e unat_PGROUNDDOWN .
  have d: "(q * 4096 + i) div 4096 = q" if "i < 4096" for q i :: nat using that by simp
  have "?off + k < 4096" using assms by linarith
  then have "unat (va + of_nat k) div 4096 = unat va div 4096" unfolding u by (rule d)
  then show ?thesis by (simp add: word_unat_eq_iff unat_PGROUNDDOWN)
qed

lemma page_next: "PGROUNDDOWN va + PGSIZE = va + of_nat (4096 - unat va mod 4096)"
proof -
  have "(of_nat (4096 - unat va mod 4096) :: uint64) = PGSIZE - (va - PGROUNDDOWN va)"
    unfolding page_room[symmetric] by simp
  then show ?thesis by simp
qed

lemma uaddr_page:
  assumes "k < 4096 - unat va mod 4096"
  shows "uaddr m pt (va + of_nat k) =
    (if translate m pt (PGROUNDDOWN va) = 0 then None
     else Some (translate m pt (PGROUNDDOWN va) + (va - PGROUNDDOWN va) + of_nat k))"
  by (simp add: uaddr_def page_same[OF assms] Let_def)

section \<open>Copying in\<close>

definition umapped :: "memory \<Rightarrow> uint64 \<Rightarrow> uint64 \<Rightarrow> nat \<Rightarrow> bool" where
  "umapped m pt va k \<longleftrightarrow> uaddr m pt (va + of_nat k) \<noteq> None"

definition ubyte :: "memory \<Rightarrow> uint64 \<Rightarrow> uint64 \<Rightarrow> nat \<Rightarrow> uchar" where
  "ubyte m pt va k = m (the (uaddr m pt (va + of_nat k)))"

lemma upt_split: "n \<le> len \<Longrightarrow> [0..<len] = [0..<n] @ map (\<lambda>k. n + k) [0..<len - n]"
  using upt_add_eq_append[of 0 n "len - n"] map_add_upt[of n "len - n"] by (simp add: add.commute)


lemma upt_chunk:
  fixes f :: "nat \<Rightarrow> 'a" and ok :: "nat \<Rightarrow> bool"
  assumes "n \<le> len" and "\<And>k. k < n \<Longrightarrow> ok k"
  shows "map f (takeWhile ok [0..<len]) = map f [0..<n] @ map (\<lambda>k. f (n + k)) (takeWhile (\<lambda>k. ok (n + k)) [0..<len - n])"
    and "(\<forall>k<len. ok k) \<longleftrightarrow> (\<forall>k<len - n. ok (n + k))"
proof -
  have "takeWhile ok [0..<len] = [0..<n] @ takeWhile ok (map (\<lambda>k. n + k) [0..<len - n])"
    unfolding upt_split[OF assms(1)] using assms(2) by (intro takeWhile_append2) simp
  then show "map f (takeWhile ok [0..<len]) = map f [0..<n] @ map (\<lambda>k. f (n + k)) (takeWhile (\<lambda>k. ok (n + k)) [0..<len - n])"
    by (simp add: takeWhile_map comp_def)
  show "(\<forall>k<len. ok k) \<longleftrightarrow> (\<forall>k<len - n. ok (n + k))"
    using assms by (metis add_diff_inverse_nat less_diff_conv2 nat_add_left_cancel_less not_less le_add_diff_inverse)
qed

lemma copyin_loop_eq:
  "len \<le> fuel \<Longrightarrow> copyin_loop fuel pt va len dst s =
     Ret (if \<forall>k<len. umapped (mem s) pt va k then 0 else - 1,
          dst @ map (ubyte (mem s) pt va) (takeWhile (umapped (mem s) pt va) [0..<len])) s"
proof (induction fuel arbitrary: va len dst)
  case (Suc fuel)
  let ?m = "mem s" and ?pa = "translate (mem s) pt (PGROUNDDOWN va)" and ?n = "min (4096 - unat va mod 4096) len"
  show ?case
  proof (cases "len = 0")
    case False
    then have n: "0 < ?n" "?n \<le> len" by simp_all
    have u: "uaddr ?m pt (va + of_nat k) = (if ?pa = 0 then None else Some (?pa + (va - PGROUNDDOWN va) + of_nat k))"
      if "k < ?n" for k using that by (intro uaddr_page) simp
    show ?thesis
    proof (cases "?pa = 0")
      case True
      then have "\<not> umapped ?m pt va 0" using u[of 0] n(1) by (simp add: umapped_def)
      moreover have "takeWhile (umapped ?m pt va) [0..<len] = []"
        using calculation False by (simp add: upt_conv_Cons)
      ultimately show ?thesis using True False by (auto simp: walkaddr_eq Let_def)
    next
      case pa: False
      have ok: "umapped ?m pt va k" and bt: "ubyte ?m pt va k = ?m (?pa + (va - PGROUNDDOWN va) + of_nat k)" if "k < ?n" for k
        using u[OF that] pa by (simp_all add: umapped_def ubyte_def)
      have load: "load_bytes ?m (?pa + (va - PGROUNDDOWN va)) ?n = map (ubyte ?m pt va) [0..<?n]"
        unfolding load_bytes_def by (rule map_cong[OF refl]) (use bt in simp)
      let ?va = "va + of_nat ?n"
      have shift: "umapped ?m pt va (?n + k) = umapped ?m pt ?va k" "ubyte ?m pt va (?n + k) = ubyte ?m pt ?va k" for k
        by (simp_all add: umapped_def ubyte_def add.assoc)
      have nxt: "copyin_loop fuel pt (PGROUNDDOWN va + PGSIZE) (len - ?n) d s = copyin_loop fuel pt ?va (len - ?n) d s" for d
        by (cases "4096 - unat va mod 4096 \<le> len") (simp_all add: page_next min_def del: PGSIZE_def, cases fuel, simp_all)
      have "copyin_loop (Suc fuel) pt va len dst s = copyin_loop fuel pt ?va (len - ?n) (dst @ map (ubyte ?m pt va) [0..<?n]) s"
        using False pa unfolding copyin_loop.simps Let_def page_room
        by (simp add: walkaddr_eq load nxt[symmetric] page_room)
      also have "\<dots> = Ret (if \<forall>k<len - ?n. umapped ?m pt ?va k then 0 else - 1,
          (dst @ map (ubyte ?m pt va) [0..<?n]) @ map (ubyte ?m pt ?va) (takeWhile (umapped ?m pt ?va) [0..<len - ?n])) s"
        using Suc.prems n by (intro Suc.IH) linarith
      finally have r: "copyin_loop (Suc fuel) pt va len dst s = Ret (if \<forall>k<len - ?n. umapped ?m pt ?va k then 0 else - 1,
          (dst @ map (ubyte ?m pt va) [0..<?n]) @ map (ubyte ?m pt ?va) (takeWhile (umapped ?m pt ?va) [0..<len - ?n])) s" .
      note c = upt_chunk[of ?n len "umapped ?m pt va", OF n(2)]
      have "map (ubyte ?m pt va) (takeWhile (umapped ?m pt va) [0..<len]) =
          map (ubyte ?m pt va) [0..<?n] @ map (ubyte ?m pt ?va) (takeWhile (umapped ?m pt ?va) [0..<len - ?n])"
        using c(1)[of "ubyte ?m pt va"] ok unfolding shift by blast
      moreover have "(\<forall>k<len. umapped ?m pt va k) \<longleftrightarrow> (\<forall>k<len - ?n. umapped ?m pt ?va k)"
        using c(2) ok unfolding shift by blast
      ultimately show ?thesis using r by (simp only: append_assoc)
    qed
  qed simp
qed simp

section \<open>Copying out\<close>

text \<open>The bytes of physical memory that a translation reads.\<close>

definition span :: "uint64 \<Rightarrow> nat \<Rightarrow> uint64 set" where
  "span a n = (\<lambda>i. a + of_nat i) ` {..<n}"

fun walk_reads :: "nat \<Rightarrow> memory \<Rightarrow> uint64 \<Rightarrow> uint64 \<Rightarrow> uint64 set" where
  "walk_reads 0 m va pt = span (pt + 8 * PX 0 va) 8"
| "walk_reads (Suc level) m va pt =
     (let pte = load64 m (pt + 8 * PX (Suc level) va) in
      span (pt + 8 * PX (Suc level) va) 8 \<union> (if pte AND PTE_V \<noteq> 0 then walk_reads level m va (PTE2PA pte) else {}))"

definition pt_reads :: "memory \<Rightarrow> uint64 \<Rightarrow> uint64 \<Rightarrow> uint64 set" where
  "pt_reads m pt va = walk_reads 2 m (PGROUNDDOWN va) pt"

lemma load64_cong: "(\<And>x. x \<in> span a 8 \<Longrightarrow> m' x = m x) \<Longrightarrow> load64 m' a = load64 m a"
  by (auto simp: load64_def load_bytes_def span_def intro!: arg_cong[of _ _ word_of])

lemma walk_stable:
  "(\<And>x. x \<in> walk_reads l m va pt \<Longrightarrow> m' x = m x) \<Longrightarrow>
   walk_pte l m' va pt = walk_pte l m va pt \<and> (walk_pte l m va pt \<noteq> 0 \<longrightarrow> load64 m' (walk_pte l m va pt) = load64 m (walk_pte l m va pt))"
proof (induction l arbitrary: pt)
  case 0
  then show ?case using load64_cong[of "pt + 8 * PX 0 va" m' m] by simp
next
  case (Suc l)
  have e: "load64 m' (pt + 8 * PX (Suc l) va) = load64 m (pt + 8 * PX (Suc l) va)"
    using Suc.prems by (intro load64_cong) (simp add: Let_def)
  show ?case using Suc.IH[of "PTE2PA (load64 m (pt + 8 * PX (Suc l) va))"] Suc.prems by (auto simp: Let_def e)
qed

lemma uaddr_stable:
  assumes "\<And>x. x \<in> pt_reads m pt va \<Longrightarrow> m' x = m x"
  shows "uaddr m' pt va = uaddr m pt va"
  using walk_stable[of 2 m "PGROUNDDOWN va" pt m'] assms by (auto simp: uaddr_def translate_def pt_reads_def Let_def)

lemma pt_reads_page: "k < 4096 - unat va mod 4096 \<Longrightarrow> pt_reads m pt (va + of_nat k) = pt_reads m pt va"
  by (simp add: pt_reads_def page_same)

lemma store_bytes_outside:
  "(\<And>k. k < length bs \<Longrightarrow> x \<noteq> a + of_nat k) \<Longrightarrow> store_bytes m a bs x = m x"
proof -
  assume a: "\<And>k. k < length bs \<Longrightarrow> x \<noteq> a + of_nat k"
  have "x = a + of_nat (unat (x - a))" by simp
  then have "length bs \<le> unat (x - a)" using a[of "unat (x - a)"] by (meson not_le)
  then show ?thesis by (rule store_bytes_out)
qed

lemma copyout_loop_ok:
  assumes "length src \<le> fuel" and "\<And>k. k < length src \<Longrightarrow> uaddr m pt (va + of_nat k) = Some (pa k)"
    and "\<And>x. x \<in> R \<Longrightarrow> mem s x = m x" and "\<And>k. k < length src \<Longrightarrow> pt_reads m pt (va + of_nat k) \<subseteq> R"
    and "\<And>k. k < length src \<Longrightarrow> pa k \<notin> R" and "inj_on pa {..<length src}"
  shows "\<exists>m'. copyout_loop fuel pt va src s = Ret 0 (s\<lparr>mem := m'\<rparr>) \<and> (\<forall>k<length src. m' (pa k) = src ! k) \<and>
     (\<forall>x. x \<notin> pa ` {..<length src} \<longrightarrow> m' x = mem s x)"
  using assms
proof (induction fuel arbitrary: va src s pa)
  case 0
  then show ?case by (intro exI[of _ "mem s"]) simp
next
  case (Suc fuel)
  show ?case
  proof (cases "src = []")
    case True
    then show ?thesis by (intro exI[of _ "mem s"]) simp
  next
    case False
    define n where "n = min (4096 - unat va mod 4096) (length src)"
    let ?len = "length src" and ?pa = "translate m pt (PGROUNDDOWN va)"
    let ?A = "?pa + (va - PGROUNDDOWN va)"
    have n: "0 < n" "n \<le> ?len" using False by (simp_all add: n_def)
    have u: "uaddr m pt (va + of_nat k) = (if ?pa = 0 then None else Some (?A + of_nat k))" if "k < n" for k
      using that by (intro uaddr_page) (simp add: n_def)
    have pa: "?pa \<noteq> 0" using u[of 0] Suc.prems(2)[of 0] n(1) False by (auto split: if_splits)
    have pk: "pa k = ?A + of_nat k" if "k < n" for k using u[OF that] Suc.prems(2)[of k] that n(2) pa by simp
    have "uaddr (mem s) pt va = uaddr m pt va"
      using Suc.prems(3) Suc.prems(4)[of 0] False by (intro uaddr_stable) (auto simp: subset_iff)
    then have tr: "translate (mem s) pt (PGROUNDDOWN va) = ?pa" using pa by (auto simp: uaddr_def Let_def split: if_splits)
    let ?m1 = "store_bytes (mem s) ?A (take n src)" and ?s1 = "s\<lparr>mem := store_bytes (mem s) ?A (take n src)\<rparr>"
    have out: "?m1 x = mem s x" if "x \<notin> pa ` {..<n}" for x
      using that pk by (intro store_bytes_outside) auto
    have ins: "?m1 (pa k) = src ! k" if "k < n" for k
    proof -
      have "length (take n src) \<le> 2 ^ 64" using n_def by simp
      then show ?thesis using store_bytes_in[of k "take n src" "mem s" ?A] that n(2) pk[OF that] by simp
    qed
    let ?va = "va + of_nat n" and ?pa' = "\<lambda>k. pa (n + k)" and ?src = "drop n src"
    have sh: "va + of_nat (n + k) = ?va + of_nat k" for k by (simp only: of_nat_add add.assoc)
    have "\<exists>m'. copyout_loop fuel pt ?va ?src ?s1 = Ret 0 (?s1\<lparr>mem := m'\<rparr>) \<and> (\<forall>k<length ?src. m' (?pa' k) = ?src ! k) \<and>
        (\<forall>x. x \<notin> ?pa' ` {..<length ?src} \<longrightarrow> m' x = mem ?s1 x)"
    proof (rule Suc.IH)
      show "length ?src \<le> fuel" using Suc.prems(1) n unfolding length_drop by linarith
      show "uaddr m pt (?va + of_nat k) = Some (?pa' k)" if "k < length ?src" for k
        using Suc.prems(2)[of "n + k"] that unfolding sh by simp
      show "mem ?s1 x = m x" if "x \<in> R" for x
      proof -
        have "pa k \<noteq> x" if "k < n" for k using Suc.prems(5)[of k] that n(2) \<open>x \<in> R\<close> by auto
        then have "x \<notin> pa ` {..<n}" by blast
        then show ?thesis using out Suc.prems(3)[OF that] by simp
      qed
      show "pt_reads m pt (?va + of_nat k) \<subseteq> R" if "k < length ?src" for k
        using Suc.prems(4)[of "n + k"] that unfolding sh by simp
      show "?pa' k \<notin> R" if "k < length ?src" for k using Suc.prems(5)[of "n + k"] that by simp
      show "inj_on ?pa' {..<length ?src}"
        using inj_onD[OF Suc.prems(6)] by (intro inj_onI) force
    qed
    then obtain m' where m': "copyout_loop fuel pt ?va ?src ?s1 = Ret 0 (s\<lparr>mem := m'\<rparr>)" "\<And>k. k < length ?src \<Longrightarrow> m' (?pa' k) = ?src ! k"
      "\<And>x. x \<notin> ?pa' ` {..<length ?src} \<Longrightarrow> m' x = ?m1 x" by auto
    have nxt: "copyout_loop fuel pt (PGROUNDDOWN va + PGSIZE) ?src t = copyout_loop fuel pt ?va ?src t" for t
      by (cases "4096 - unat va mod 4096 \<le> ?len") (simp_all add: n_def page_next min_def del: PGSIZE_def, cases fuel, simp_all)
    have "copyout_loop (Suc fuel) pt va src s = Ret 0 (s\<lparr>mem := m'\<rparr>)"
      using False pa m'(1) unfolding copyout_loop.simps Let_def page_room
      by (simp add: walkaddr_eq tr nxt[unfolded PGSIZE_def] page_room n_def[symmetric])
    moreover have "m' (pa k) = src ! k" if "k < ?len" for k
    proof (cases "k < n")
      case True
      have "pa k \<noteq> ?pa' j" if "j < length ?src" for j
        using inj_onD[OF Suc.prems(6), of k "n + j"] that True \<open>k < ?len\<close> by (auto simp: less_diff_conv2 n(2) less_diff_conv add.commute)
      then have "pa k \<notin> ?pa' ` {..<length ?src}" by blast
      then show ?thesis using m'(3) ins[OF True] by simp
    next
      case False
      then show ?thesis using m'(2)[of "k - n"] that by simp
    qed
    moreover have "m' x = mem s x" if x: "x \<notin> pa ` {..<?len}" for x
    proof -
      have "x \<notin> ?pa' ` {..<length ?src}" "x \<notin> pa ` {..<n}" using x n(2) by force+
      then show ?thesis using m'(3) out by simp
    qed
    ultimately show ?thesis by blast
  qed
qed

section \<open>Copying in a string\<close>

lemma str_prefix_append:
  "str_prefix (xs @ ys) = (if snd (str_prefix xs) then str_prefix xs else (xs @ fst (str_prefix ys), snd (str_prefix ys)))"
  by (induction xs) (auto simp: Let_def case_prod_beta)

lemma str_prefix_False: "\<not> snd (str_prefix xs) \<Longrightarrow> fst (str_prefix xs) = xs"
  by (induction xs) (auto simp: Let_def case_prod_beta split: if_splits)

lemma copyinstr_loop_eq:
  fixes s pt
  defines "seen va len \<equiv> map (ubyte (mem s) pt va) (takeWhile (umapped (mem s) pt va) [0..<len])"
  shows "len \<le> fuel \<Longrightarrow> copyinstr_loop fuel pt va len dst s =
     Ret (if snd (str_prefix (seen va len)) then 0 else - 1, dst @ fst (str_prefix (seen va len))) s"
proof (induction fuel arbitrary: va len dst)
  case 0
  then show ?case by (simp add: seen_def)
next
  case (Suc fuel)
  define n where "n = min (4096 - unat va mod 4096) len"
  let ?m = "mem s" and ?pa = "translate (mem s) pt (PGROUNDDOWN va)"
  show ?case
  proof (cases "len = 0")
    case False
    then have n: "0 < n" "n \<le> len" by (simp_all add: n_def)
    have u: "uaddr ?m pt (va + of_nat k) = (if ?pa = 0 then None else Some (?pa + (va - PGROUNDDOWN va) + of_nat k))"
      if "k < n" for k using that by (intro uaddr_page) (simp add: n_def)
    show ?thesis
    proof (cases "?pa = 0")
      case True
      then have "\<not> umapped ?m pt va 0" using u[of 0] n(1) by (simp add: umapped_def)
      then have "seen va len = []" using False by (simp add: seen_def upt_conv_Cons)
      then show ?thesis using True False by (simp add: walkaddr_eq Let_def)
    next
      case pa: False
      have ok: "umapped ?m pt va k" and bt: "ubyte ?m pt va k = ?m (?pa + (va - PGROUNDDOWN va) + of_nat k)" if "k < n" for k
        using u[OF that] pa by (simp_all add: umapped_def ubyte_def)
      let ?bs = "map (ubyte ?m pt va) [0..<n]" and ?va = "va + of_nat n"
      have load: "load_bytes ?m (?pa + (va - PGROUNDDOWN va)) n = ?bs"
        unfolding load_bytes_def by (rule map_cong[OF refl]) (use bt in simp)
      have shift: "umapped ?m pt va (n + k) = umapped ?m pt ?va k" "ubyte ?m pt va (n + k) = ubyte ?m pt ?va k" for k
        by (simp_all add: umapped_def ubyte_def add.assoc)
      have seen: "seen va len = ?bs @ seen ?va (len - n)"
        using upt_chunk(1)[of n len "umapped ?m pt va" "ubyte ?m pt va"] n(2) ok unfolding seen_def shift by blast
      have nxt: "copyinstr_loop fuel pt (PGROUNDDOWN va + PGSIZE) (len - n) d s = copyinstr_loop fuel pt ?va (len - n) d s" for d
        by (cases "4096 - unat va mod 4096 \<le> len") (simp_all add: n_def page_next min_def del: PGSIZE_def, cases fuel, simp_all)
      have IH: "copyinstr_loop fuel pt ?va (len - n) (dst @ ?bs) s = Ret (if snd (str_prefix (seen ?va (len - n))) then 0 else - 1,
          (dst @ ?bs) @ fst (str_prefix (seen ?va (len - n)))) s"
        using Suc.prems n by (intro Suc.IH) linarith
      have step: "copyinstr_loop (Suc fuel) pt va len dst s =
          (if snd (str_prefix ?bs) then Ret (0, dst @ fst (str_prefix ?bs)) s
           else copyinstr_loop fuel pt ?va (len - n) (dst @ fst (str_prefix ?bs)) s)"
        using False pa unfolding copyinstr_loop.simps Let_def page_room n_def[symmetric]
        by (simp add: walkaddr_eq load nxt[unfolded PGSIZE_def] page_room n_def[symmetric] case_prod_beta)
      show ?thesis
        unfolding step seen str_prefix_append using IH str_prefix_False[of ?bs] by simp
    qed
  qed (simp add: seen_def)
qed

section \<open>A small address space\<close>

text \<open>
  Page table \<open>0x80001000\<close> with one page of user memory at virtual address 0, physical address
  \<open>0x80004000\<close>, mapped with permissions \<open>perm\<close>.
\<close>

definition test_mem :: "uint64 \<Rightarrow> memory" where
  "test_mem perm = store64 (store64 (store64 (\<lambda>_. 0) 0x80001000 (PA2PTE 0x80002000 OR 1)) 0x80002000 (PA2PTE 0x80003000 OR 1))
     0x80003000 (PA2PTE 0x80004000 OR perm)"

lemma test_mem_ptes:
  "load64 (test_mem perm) 0x80001000 = PA2PTE 0x80002000 OR 1"
  "load64 (test_mem perm) 0x80002000 = PA2PTE 0x80003000 OR 1"
  "load64 (test_mem perm) 0x80003000 = PA2PTE 0x80004000 OR perm"
proof -
  have al: "aligned 12 0x80001000" "aligned 12 0x80002000" "aligned 12 0x80003000" by (simp_all add: aligned_def)
  note d = aligned_disjoint[where k = 12 and n = 8 and l = 8]
  show "load64 (test_mem perm) 0x80001000 = PA2PTE 0x80002000 OR 1"
    unfolding test_mem_def store64_def
    using d[OF al(3) al(1)] d[OF al(2) al(1)] by (simp add: load64_store_disjoint) (simp add: load64_def)
  show "load64 (test_mem perm) 0x80002000 = PA2PTE 0x80003000 OR 1"
    unfolding test_mem_def store64_def
    using d[OF al(3) al(2)] by (simp add: load64_store_disjoint) (simp add: load64_def)
  show "load64 (test_mem perm) 0x80003000 = PA2PTE 0x80004000 OR perm"
    by (simp add: test_mem_def)
qed

lemma test_pte_values:
  "PTE2PA (PA2PTE 0x80002000 OR 1) = 0x80002000" "(PA2PTE 0x80002000 OR 1) AND PTE_V = 1"
  "PTE2PA (PA2PTE 0x80003000 OR 1) = 0x80003000" "(PA2PTE 0x80003000 OR 1) AND PTE_V = 1"
  "PTE2PA (PA2PTE 0x80004000 OR 0x17) = 0x80004000" "PTE2PA (PA2PTE 0x80004000 OR 0x13) = 0x80004000"
  "(PA2PTE 0x80004000 OR 0x17) AND PTE_V = 1" "(PA2PTE 0x80004000 OR 0x13) AND PTE_V = 1"
  "(PA2PTE 0x80004000 OR 0x17) AND PTE_U = 16" "(PA2PTE 0x80004000 OR 0x13) AND PTE_U = 16"
  "(PA2PTE 0x80004000 OR 0x13) AND PTE_W = 0" "PX l 0 = 0"
  by (code_simp | simp add: PX_def)+

lemma walk_levels:
  "walk_pte 2 m va pt = walk_pte (Suc (Suc 0)) m va pt" "walk_reads 2 m va pt = walk_reads (Suc (Suc 0)) m va pt"
  by (simp_all only: numeral_2_eq_2)

lemma test_mem_walk:
  "walk_pte 2 (test_mem perm) 0 0x80001000 = 0x80003000"
  "walk_reads 2 (test_mem perm) 0 0x80001000 = span 0x80001000 8 \<union> span 0x80002000 8 \<union> span 0x80003000 8"
  unfolding walk_levels by (simp_all add: Let_def test_mem_ptes test_pte_values Un_assoc)

lemma test_mem_page:
  assumes "perm = 0x17 \<or> perm = 0x13" and "k < 4096"
  shows "uaddr (test_mem perm) 0x80001000 (of_nat k) = Some (0x80004000 + of_nat k)"
    and "pt_reads (test_mem perm) 0x80001000 (of_nat k) = span 0x80001000 8 \<union> span 0x80002000 8 \<union> span 0x80003000 8"
proof -
  have r: "PGROUNDDOWN (of_nat k) = 0" using page_same[of k 0] assms(2) by (simp add: PGROUNDDOWN_def)
  have "translate (test_mem perm) 0x80001000 0 = 0x80004000"
    using assms(1) by (auto simp: translate_def test_mem_walk test_mem_ptes test_pte_values MAXVA_eq Let_def)
  then show "uaddr (test_mem perm) 0x80001000 (of_nat k) = Some (0x80004000 + of_nat k)"
    by (simp add: uaddr_def r)
  show "pt_reads (test_mem perm) 0x80001000 (of_nat k) = span 0x80001000 8 \<union> span 0x80002000 8 \<union> span 0x80003000 8"
    by (simp add: pt_reads_def r test_mem_walk)
qed

lemma span_page: "aligned 12 a \<Longrightarrow> x \<in> span a 8 \<Longrightarrow> unat a \<le> unat x \<and> unat x < unat a + 8"
  using unat_add_small[of 12 a] by (auto simp: span_def aligned_def)

lemma test_mem_sep:
  assumes "perm = 0x17 \<or> perm = 0x13" and "k < 4096" and "j < 4096"
  shows "0x80004000 + of_nat k \<notin> pt_reads (test_mem perm) 0x80001000 (of_nat j)"
proof -
  have "unat (0x80004000 + of_nat k :: uint64) = 0x80004000 + k" using assms(2) unat_add_small[of 12 "0x80004000" k] by simp
  then show ?thesis
    using assms test_mem_page(2)[of perm j] span_page[of "0x80001000" "0x80004000 + of_nat k"]
      span_page[of "0x80002000" "0x80004000 + of_nat k"] span_page[of "0x80003000" "0x80004000 + of_nat k"]
    by (auto simp: aligned_def)
qed

lemma test_mem_inj: "n \<le> 4096 \<Longrightarrow> inj_on (\<lambda>k. 0x80004000 + of_nat k :: uint64) {..<n}"
  by (auto simp: inj_on_def dest: arg_cong[of _ _ unat] simp: unat_of_nat64)

section \<open>Single bytes\<close>

definition my_pt :: "kstate \<Rightarrow> uint64" where
  "my_pt s = (case curproc s of None \<Rightarrow> 0 | Some p \<Rightarrow> p_pagetable (procs s ! p))"

lemma copyin_byte:
  "copyin pt (va + of_nat k) 1 s = (if umapped (mem s) pt va k then Ret (0, [ubyte (mem s) pt va k]) s else Ret (- 1, []) s)"
  unfolding copyin_def copyin_loop_eq[OF order_refl] by (simp add: umapped_def ubyte_def)

lemma copyout_byte:
  assumes "uaddr m pt va = Some pa" and "\<And>x. x \<in> pt_reads m pt va \<Longrightarrow> mem s x = m x"
  shows "copyout pt va [c] s = Ret 0 (s\<lparr>mem := (mem s)(pa := c)\<rparr>)"
proof -
  have u: "uaddr (mem s) pt va = Some pa" using uaddr_stable[of m pt va "mem s"] assms by simp
  then have t: "translate (mem s) pt (PGROUNDDOWN va) \<noteq> 0" "pa = translate (mem s) pt (PGROUNDDOWN va) + (va - PGROUNDDOWN va)"
    by (auto simp: uaddr_def Let_def split: if_splits)
  have st: "store_bytes (mem s) pa [c] = (mem s)(pa := c)" by (auto simp: store_bytes_def fun_eq_iff unat_eq_zero)
  have "unat (PGSIZE - (va - PGROUNDDOWN va)) = 4096 - unat va mod 4096" by (rule page_room)
  then have "min (unat (PGSIZE - (va - PGROUNDDOWN va))) (length [c]) = 1" by simp
  then show ?thesis using t st by (simp add: copyout_def walkaddr_eq Let_def)
qed

lemma copyout_unmapped: "uaddr (mem s) pt va = None \<Longrightarrow> copyout pt va [c] s = Ret (- 1) s"
  by (simp add: copyout_def walkaddr_eq Let_def uaddr_def split: if_splits)

section \<open>Properties\<close>

text \<open>
  (C23) \<open>copyin\<close> returns for every range and changes nothing: it delivers the bytes of the range as far as the
  user can access them, and reports success exactly if every byte of the range is mapped for the user.
\<close>

theorem copyin_exact:
  "copyin pt va len s =
     Ret (if list_all (umapped (mem s) pt va) [0..<len] then 0 else - 1,
          map (ubyte (mem s) pt va) (takeWhile (umapped (mem s) pt va) [0..<len])) s"
  by (auto simp: copyin_def copyin_loop_eq list_all_iff)

text \<open>
  \<open>copyinstr\<close> delivers a string with its nul exactly if a nul is found within \<open>max\<close> accessible bytes;
  otherwise it fails.  It always returns and changes nothing.
\<close>

theorem copyinstr_exact:
  "copyinstr pt va maxlen s =
     (let (bs, got_null) = str_prefix (map (ubyte (mem s) pt va) (takeWhile (umapped (mem s) pt va) [0..<maxlen]))
      in Ret (if got_null then 0 else - 1, bs) s)"
  by (simp add: copyinstr_def copyinstr_loop_eq case_prod_beta)

text \<open>
  (C15) Round trip.  If the user bytes of a range are mapped, without aliases and not in the page tables, then
  \<open>copyout\<close> succeeds, a \<open>copyin\<close> of the same range afterwards yields the bytes written, and no other byte of
  memory and no other part of the kernel's state has changed.
\<close>

theorem copyout_copyin:
  assumes map: "\<And>k. k < length src \<Longrightarrow> uaddr (mem s) pt (va + of_nat k) = Some (pa k)" and inj: "inj_on pa {..<length src}"
    and sep: "\<And>k j. k < length src \<Longrightarrow> j < length src \<Longrightarrow> pa k \<notin> pt_reads (mem s) pt (va + of_nat j)"
  shows "\<exists>m. copyout pt va src s = Ret 0 (s\<lparr>mem := m\<rparr>) \<and> copyin pt va (length src) (s\<lparr>mem := m\<rparr>) = Ret (0, src) (s\<lparr>mem := m\<rparr>) \<and>
    (\<forall>x. x \<notin> pa ` {..<length src} \<longrightarrow> m x = mem s x)"
proof -
  define R where "R = (\<Union>k<length src. pt_reads (mem s) pt (va + of_nat k))"
  have sub: "pt_reads (mem s) pt (va + of_nat k) \<subseteq> R" and out: "pa k \<notin> R" if "k < length src" for k
    using sep that by (auto simp: R_def)
  obtain m where m: "copyout_loop (length src) pt va src s = Ret 0 (s\<lparr>mem := m\<rparr>)" "\<And>k. k < length src \<Longrightarrow> m (pa k) = src ! k"
     "\<And>x. x \<notin> pa ` {..<length src} \<Longrightarrow> m x = mem s x"
    using copyout_loop_ok[of src "length src" "mem s" pt va pa R s, OF _ map _ sub out inj] by auto
  have "uaddr m pt (va + of_nat k) = Some (pa k)" if "k < length src" for k
  proof -
    have "m x = mem s x" if "x \<in> pt_reads (mem s) pt (va + of_nat k)" for x
    proof (rule m(3))
      show "x \<notin> pa ` {..<length src}" using that sub[OF \<open>k < length src\<close>] out by blast
    qed
    then show ?thesis using map[OF that] uaddr_stable[of "mem s" pt "va + of_nat k" m] by simp
  qed
  then have ok: "umapped m pt va k" and bt: "ubyte m pt va k = src ! k" if "k < length src" for k
    using that m(2) by (simp_all add: umapped_def ubyte_def)
  have tw: "takeWhile (umapped m pt va) [0..<length src] = [0..<length src]" using ok by simp
  have "List.map (ubyte m pt va) (takeWhile (umapped m pt va) [0..<length src]) = src"
    unfolding tw using bt by (intro nth_equalityI) simp_all
  then have "copyin pt va (length src) (s\<lparr>mem := m\<rparr>) = Ret (0, src) (s\<lparr>mem := m\<rparr>)"
    using ok by (simp add: copyin_def copyin_loop_eq)
  then show ?thesis using m by (intro exI[of _ m]) (simp add: copyout_def)
qed

theorem copyout_copyin_witness:
  "\<exists>m. copyout 0x80001000 0 [1, 2, 3] ((boot_state 0 0 0 zero_symbols (\<lambda>_. []))\<lparr>mem := test_mem 0x17\<rparr>) =
      Ret 0 ((boot_state 0 0 0 zero_symbols (\<lambda>_. []))\<lparr>mem := m\<rparr>) \<and>
    copyin 0x80001000 0 3 ((boot_state 0 0 0 zero_symbols (\<lambda>_. []))\<lparr>mem := m\<rparr>) =
      Ret (0, [1, 2, 3]) ((boot_state 0 0 0 zero_symbols (\<lambda>_. []))\<lparr>mem := m\<rparr>)"
proof -
  let ?s = "(boot_state 0 0 0 zero_symbols (\<lambda>_. []))\<lparr>mem := test_mem 0x17\<rparr>" and ?pa = "\<lambda>k. 0x80004000 + of_nat k :: uint64"
  have "\<exists>m. copyout 0x80001000 0 [1, 2, 3] ?s = Ret 0 (?s\<lparr>mem := m\<rparr>) \<and>
    copyin 0x80001000 0 (length [1, 2, 3 :: uchar]) (?s\<lparr>mem := m\<rparr>) = Ret (0, [1, 2, 3]) (?s\<lparr>mem := m\<rparr>) \<and>
    (\<forall>x. x \<notin> ?pa ` {..<length [1, 2, 3 :: uchar]} \<longrightarrow> m x = mem ?s x)"
  proof (rule copyout_copyin)
    show "uaddr (mem ?s) 0x80001000 (0 + of_nat k) = Some (?pa k)" if "k < length [1, 2, 3 :: uchar]" for k
      using that test_mem_page(1)[of "0x17" k] by simp
    show "inj_on ?pa {..<length [1, 2, 3 :: uchar]}" by (rule test_mem_inj) simp
    show "?pa k \<notin> pt_reads (mem ?s) 0x80001000 (0 + of_nat j)" if "k < length [1, 2, 3 :: uchar]" "j < length [1, 2, 3 :: uchar]" for k j
      using that test_mem_sep[of "0x17" k j] by simp
  qed
  then obtain m where m: "copyout 0x80001000 0 [1, 2, 3] ?s = Ret 0 (?s\<lparr>mem := m\<rparr>)"
    "copyin 0x80001000 0 (length [1, 2, 3 :: uchar]) (?s\<lparr>mem := m\<rparr>) = Ret (0, [1, 2, 3]) (?s\<lparr>mem := m\<rparr>)" by blast
  have "length [1, 2, 3 :: uchar] = 3" by simp
  with m show ?thesis by (intro exI[of _ m]) (simp add: eval_nat_numeral)
qed

text \<open>
  (C36) \<open>copyout\<close> ignores write permission: it stores into a page of the user that is mapped readable but not
  writable, for instance the text of the program.
\<close>

theorem copyout_ignores_W:
  assumes va: "va < MAXVA" "va = PGROUNDDOWN va" and pte: "walk_pte 2 (mem s) va pt = a" "a \<noteq> 0"
    and perm: "load64 (mem s) a AND PTE_V \<noteq> 0" "load64 (mem s) a AND PTE_U \<noteq> 0" "load64 (mem s) a AND PTE_W = 0"
    and pa: "PTE2PA (load64 (mem s) a) = pa" "pa \<noteq> 0"
  shows "copyout pt va [c] s = Ret 0 (s\<lparr>mem := (mem s)(pa := c)\<rparr>)"
proof -
  have "translate (mem s) pt va = pa" using assms by (auto simp: translate_def Let_def not_le)
  moreover have "store_bytes (mem s) pa [c] = (mem s)(pa := c)"
    by (auto simp: store_bytes_def fun_eq_iff unat_eq_zero)
  ultimately show ?thesis using va(2)[symmetric] pa by (simp add: copyout_def walkaddr_eq Let_def min_def)
qed

theorem copyout_ignores_W_witness:
  "copyout 0x80001000 0 [7] ((boot_state 0 0 0 zero_symbols (\<lambda>_. []))\<lparr>mem := test_mem 0x13\<rparr>) =
     Ret 0 ((boot_state 0 0 0 zero_symbols (\<lambda>_. []))\<lparr>mem := (test_mem 0x13)(0x80004000 := 7)\<rparr>)"
  using copyout_ignores_W[of 0 "(boot_state 0 0 0 zero_symbols (\<lambda>_. []))\<lparr>mem := test_mem 0x13\<rparr>" "0x80001000" "0x80003000" "0x80004000" 7]
  by (simp add: test_mem_walk test_mem_ptes test_pte_values MAXVA_eq PGROUNDDOWN_def)

end
