(* ===== verification/Xv6_Pipe.thy ===== *)
theory Xv6_Pipe
  imports Xv6_Uaccess Xv6_Ring
begin

text \<open>
  \<^verbatim>\<open>kernel/pipe.c\<close> except \<open>pipealloc\<close> (theory \<open>Xv6_File\<close>).  A pipe is addressed by the page that
  holds it.  Both counters run freely modulo \<open>2 ^ 32\<close>.
\<close>

section \<open>Operations\<close>

definition PIPESIZE :: uint where [simp]: "PIPESIZE = 512"

definition pipe_idx :: "uint \<Rightarrow> nat" where
  "pipe_idx k = unat (k mod PIPESIZE)"

definition pipeclose :: "uint64 \<Rightarrow> bool \<Rightarrow> unit kernel" where
  "pipeclose pi writable =
     thenK (acquire (LPipe pi))
    (thenK
      (if writable then
         thenK (modK (upd_pipe pi (\<lambda>p. p\<lparr>pi_writeopen := False\<rparr>))) (wakeup (ChPipeRead pi))
       else
         thenK (modK (upd_pipe pi (\<lambda>p. p\<lparr>pi_readopen := False\<rparr>))) (wakeup (ChPipeWrite pi)))
     (bindK (getK (\<lambda>s. pipes s pi)) (\<lambda>p.
        if \<not> pi_readopen p \<and> \<not> pi_writeopen p then thenK (release (LPipe pi)) (kfree pi)
        else release (LPipe pi))))"

text \<open>
  \<open>rem\<close> is \<open>n - i\<close>.  When \<open>pipewrite\<close> sleeps for room it continues, after \<open>sleep_resume\<close>, with
  \<open>pipewrite_loop\<close> at the same position.
\<close>

fun pipewrite_loop :: "nat \<Rightarrow> nat \<Rightarrow> uint64 \<Rightarrow> uint64 \<Rightarrow> int \<Rightarrow> int kernel" where
  "pipewrite_loop 0 pr pi addr i =
     thenK (wakeup (ChPipeRead pi)) (thenK (release (LPipe pi)) (retK i))"
| "pipewrite_loop (Suc rem) pr pi addr i =
     bindK (getK (\<lambda>s. pi_readopen (pipes s pi))) (\<lambda>ro.
     bindK (if \<not> ro then retK True else killed pr) (\<lambda>stop.
     if stop then thenK (release (LPipe pi)) (retK (- 1))
     else bindK (getK (\<lambda>s. pipes s pi)) (\<lambda>p.
       if pi_nwrite p = pi_nread p + PIPESIZE then
         thenK (wakeup (ChPipeRead pi)) (bindK (sleep (ChPipeWrite pi) (LPipe pi)) (\<lambda>_. retK 0))
       else
         bindK (getK (\<lambda>s. p_pagetable (procs s ! pr))) (\<lambda>pt.
         bindK (copyin pt (addr + of_int i) 1) (\<lambda>(r, bs).
           if r = - 1 then thenK (wakeup (ChPipeRead pi)) (thenK (release (LPipe pi)) (retK i))
           else thenK (modK (upd_pipe pi (\<lambda>p. p\<lparr>pi_data := (pi_data p)[pipe_idx (pi_nwrite p) := hd bs],
                                                pi_nwrite := pi_nwrite p + 1\<rparr>)))
                      (pipewrite_loop rem pr pi addr (i + 1)))))))"

definition pipewrite :: "uint64 \<Rightarrow> uint64 \<Rightarrow> int \<Rightarrow> int kernel" where
  "pipewrite pi addr n = bindK myproc (\<lambda>pr.
     thenK (acquire (LPipe pi)) (pipewrite_loop (nat n) pr pi addr 0))"

fun piperead_copy :: "nat \<Rightarrow> nat \<Rightarrow> uint64 \<Rightarrow> uint64 \<Rightarrow> int \<Rightarrow> int kernel" where
  "piperead_copy 0 pr pi addr i = retK i"
| "piperead_copy (Suc rem) pr pi addr i = bindK (getK (\<lambda>s. pipes s pi)) (\<lambda>p.
     if pi_nread p = pi_nwrite p then retK i
     else let ch = pi_data p ! pipe_idx (pi_nread p) in
       thenK (modK (upd_pipe pi (\<lambda>p. p\<lparr>pi_nread := pi_nread p + 1\<rparr>)))
      (bindK (getK (\<lambda>s. p_pagetable (procs s ! pr))) (\<lambda>pt.
       bindK (copyout pt (addr + of_int i) [ch]) (\<lambda>r.
         if r = - 1 then retK i else piperead_copy rem pr pi addr (i + 1)))))"

text \<open>When \<open>piperead\<close> sleeps for data it continues, after \<open>sleep_resume\<close>, with \<open>piperead_loop\<close>.\<close>

definition piperead_loop :: "nat \<Rightarrow> uint64 \<Rightarrow> uint64 \<Rightarrow> int \<Rightarrow> int kernel" where
  "piperead_loop pr pi addr n = bindK (getK (\<lambda>s. pipes s pi)) (\<lambda>p.
     if pi_nread p = pi_nwrite p \<and> pi_writeopen p then
       bindK (killed pr) (\<lambda>k.
         if k then thenK (release (LPipe pi)) (retK (- 1))
         else bindK (sleep (ChPipeRead pi) (LPipe pi)) (\<lambda>_. retK 0))
     else bindK (piperead_copy (nat n) pr pi addr 0) (\<lambda>i.
       thenK (wakeup (ChPipeWrite pi))
      (thenK (release (LPipe pi))
             (retK i))))"

definition piperead :: "uint64 \<Rightarrow> uint64 \<Rightarrow> int \<Rightarrow> int kernel" where
  "piperead pi addr n = bindK myproc (\<lambda>pr.
     thenK (acquire (LPipe pi)) (piperead_loop pr pi addr n))"

section \<open>The queue\<close>

interpretation pring: ring_buffer "512 :: uint"
  by unfold_locales simp_all


definition pipe_queue :: "pipe \<Rightarrow> bytes" where
  "pipe_queue p = ring_queue (pi_data p) 512 (pi_nread p) (pi_nwrite p)"

definition pipe_ok :: "pipe \<Rightarrow> bool" where
  "pipe_ok p \<longleftrightarrow> length (pi_data p) = 512 \<and> length (pipe_queue p) \<le> 512"

definition pipe_put :: "uchar \<Rightarrow> pipe \<Rightarrow> pipe" where
  "pipe_put c p = p\<lparr>pi_data := (pi_data p)[pipe_idx (pi_nwrite p) := c], pi_nwrite := pi_nwrite p + 1\<rparr>"

definition pipe_get :: "pipe \<Rightarrow> pipe" where
  "pipe_get p = p\<lparr>pi_nread := pi_nread p + 1\<rparr>"

lemma pipe_idx_eq: "pipe_idx k = unat k mod 512"
  by (simp add: pipe_idx_def unat_mod)

lemma pipe_put_frame [simp]:
  "pi_readopen (pipe_put c p) = pi_readopen p" "pi_writeopen (pipe_put c p) = pi_writeopen p" "pi_nread (pipe_put c p) = pi_nread p"
  "pi_readopen (pipe_get p) = pi_readopen p" "pi_writeopen (pipe_get p) = pi_writeopen p" "pi_nwrite (pipe_get p) = pi_nwrite p"
  "pi_data (pipe_get p) = pi_data p"
  by (simp_all add: pipe_put_def pipe_get_def)

lemma pipe_put_queue:
  assumes "pipe_ok p" and "length (pipe_queue p) < 512"
  shows "pipe_queue (pipe_put c p) = pipe_queue p @ [c]" and "pipe_ok (pipe_put c p)"
proof -
  have "unat (pi_nwrite p - pi_nread p) < unat (512 :: uint)" "length (pi_data p) = unat (512 :: uint)"
    using assms by (simp_all add: pipe_ok_def pipe_queue_def)
  from pring.push[OF this, of c] show q: "pipe_queue (pipe_put c p) = pipe_queue p @ [c]"
    by (simp add: pipe_queue_def pipe_put_def pipe_idx_eq)
  have "length (pi_data (pipe_put c p)) = 512" using assms(1) by (simp add: pipe_ok_def pipe_put_def)
  then show "pipe_ok (pipe_put c p)" unfolding pipe_ok_def q using assms(2) by simp
qed

lemma pipe_get_queue:
  assumes "pi_nread p \<noteq> pi_nwrite p"
  shows "pipe_queue p = pi_data p ! pipe_idx (pi_nread p) # pipe_queue (pipe_get p)" and "pipe_ok p \<Longrightarrow> pipe_ok (pipe_get p)"
proof -
  show q: "pipe_queue p = pi_data p ! pipe_idx (pi_nread p) # pipe_queue (pipe_get p)"
    using pring.pop[of "pi_nwrite p" "pi_nread p" "pi_data p"] assms by (simp add: pipe_queue_def pipe_get_def pipe_idx_eq)
  show "pipe_ok p \<Longrightarrow> pipe_ok (pipe_get p)" unfolding pipe_ok_def q by simp
qed

lemma pipe_empty_iff: "pi_nread p = pi_nwrite p \<longleftrightarrow> pipe_queue p = []"
  using pring.empty_iff[of "pi_data p" "pi_nread p" "pi_nwrite p"] by (auto simp: pipe_queue_def)

lemma pipe_full_iff: "pi_nwrite p = pi_nread p + PIPESIZE \<longleftrightarrow> length (pipe_queue p) = 512"
  using pring.full_iff[of "pi_data p" "pi_nread p" "pi_nwrite p"] by (simp add: pipe_queue_def del: length_ring_queue)

section \<open>Writing\<close>

definition pipe_done :: "uint64 \<Rightarrow> chan \<Rightarrow> int \<Rightarrow> int kernel" where
  "pipe_done pi ch i = thenK (wakeup ch) (thenK (release (LPipe pi)) (retK i))"

lemma upd_pipe_frame [simp]:
  "held (upd_pipe pi f s) = held s" "mem (upd_pipe pi f s) = mem s" "procs (upd_pipe pi f s) = procs s"
  "curproc (upd_pipe pi f s) = curproc s" "pipes (upd_pipe pi f s) pi = f (pipes s pi)"
  by (simp_all add: upd_pipe_def)

text \<open>As long as there is room and the source is mapped, the loop appends the source bytes.\<close>

lemma pipewrite_loop_fits:
  assumes "pipe_ok (pipes s pi)" and "length (pipe_queue (pipes s pi)) + n \<le> 512" and "pi_readopen (pipes s pi)"
    and "LProc pr \<notin> set (held s)" and "\<not> p_killed (procs s ! pr)" and "p_pagetable (procs s ! pr) = pt" and "mem s = m"
    and "\<And>k. k < n \<Longrightarrow> umapped m pt addr (i + k)"
  shows "\<exists>p. pipewrite_loop n pr pi addr (int i) s = pipe_done pi (ChPipeRead pi) (int (i + n)) (upd_pipe pi (\<lambda>_. p) s) \<and>
    pipe_ok p \<and> pipe_queue p = pipe_queue (pipes s pi) @ map (\<lambda>k. ubyte m pt addr (i + k)) [0..<n] \<and>
    pi_readopen p = pi_readopen (pipes s pi) \<and> pi_writeopen p = pi_writeopen (pipes s pi)"
  using assms
proof (induction n arbitrary: i s)
  case 0
  have "upd_pipe pi (\<lambda>_. pipes s pi) s = s" by (simp add: upd_pipe_def)
  then show ?case using 0 by (intro exI[of _ "pipes s pi"]) (simp add: pipe_done_def)
next
  case (Suc n)
  let ?c = "ubyte m pt addr i" and ?p = "pipes s pi"
  let ?s = "upd_pipe pi (pipe_put ?c) s"
  have lt: "length (pipe_queue ?p) < 512" using Suc.prems(2) by simp
  note put = pipe_put_queue[OF Suc.prems(1) lt, of ?c]
  have full: "pi_nwrite ?p \<noteq> pi_nread ?p + PIPESIZE" using lt pipe_full_iff[of ?p] by simp
  have c: "copyin pt (addr + of_int (int i)) 1 s = Ret (0, [?c]) s"
    using copyin_byte[of pt addr i s] Suc.prems(7) Suc.prems(8)[of 0] by simp
  have step: "pipewrite_loop (Suc n) pr pi addr (int i) s = pipewrite_loop n pr pi addr (int (i + 1)) ?s"
    using Suc.prems(3-6) full c by (simp add: killed_eq pipe_put_def[abs_def] add.commute)
  have "umapped m pt addr (i + 1 + k)" if "k < n" for k using Suc.prems(8)[of "Suc k"] that by simp
  then obtain p where p: "pipewrite_loop n pr pi addr (int (i + 1)) ?s =
      pipe_done pi (ChPipeRead pi) (int (i + 1 + n)) (upd_pipe pi (\<lambda>_. p) ?s)" "pipe_ok p"
    "pipe_queue p = pipe_queue (pipe_put ?c ?p) @ map (\<lambda>k. ubyte m pt addr (i + 1 + k)) [0..<n]"
    "pi_readopen p = pi_readopen ?p" "pi_writeopen p = pi_writeopen ?p"
    using Suc.IH[of ?s "i + 1"] Suc.prems put by auto
  have "upd_pipe pi (\<lambda>_. p) ?s = upd_pipe pi (\<lambda>_. p) s" by (simp add: upd_pipe_def)
  moreover have "map (\<lambda>k. ubyte m pt addr (i + k)) [0..<Suc n] = ?c # map (\<lambda>k. ubyte m pt addr (i + 1 + k)) [0..<n]"
    by (simp add: upt_conv_Cons map_Suc_upt[symmetric] comp_def del: upt_Suc map_Suc_upt)
  ultimately show ?case using p put(1) unfolding step by (intro exI[of _ p]) simp
qed

lemma pipe_done_eq:
  assumes "proc_locks_free s" and "length (procs s) = NPROC" and "held s = LPipe pi # h"
  shows "pipe_done pi ch i s = Ret i ((woken ch s)\<lparr>held := h\<rparr>)"
  using wakeup_eq[OF assms(1,2)] assms(3) by (simp add: pipe_done_def)

section \<open>Reading\<close>

text \<open>The copying loop hands out the oldest bytes, as many as there are and are wanted.\<close>

lemma piperead_copy_takes:
  assumes "k = min n (length (pipe_queue (pipes s pi)))" and "p_pagetable (procs s ! pr) = pt"
    and "\<And>j. j < k \<Longrightarrow> uaddr m pt (addr + of_nat (i + j)) = Some (pa (i + j))" and "\<And>x. x \<in> R \<Longrightarrow> mem s x = m x"
    and "\<And>j. j < k \<Longrightarrow> pt_reads m pt (addr + of_nat (i + j)) \<subseteq> R \<and> pa (i + j) \<notin> R" and "inj_on pa {i..<i + k}"
  shows "\<exists>m' p. piperead_copy n pr pi addr (int i) s = Ret (int (i + k)) (upd_pipe pi (\<lambda>_. p) (s\<lparr>mem := m'\<rparr>)) \<and>
    pipe_queue p = drop k (pipe_queue (pipes s pi)) \<and> (pipe_ok (pipes s pi) \<longrightarrow> pipe_ok p) \<and>
    pi_readopen p = pi_readopen (pipes s pi) \<and> pi_writeopen p = pi_writeopen (pipes s pi) \<and>
    (\<forall>j<k. m' (pa (i + j)) = pipe_queue (pipes s pi) ! j) \<and> (\<forall>x. x \<notin> pa ` {i..<i + k} \<longrightarrow> m' x = mem s x)"
  using assms
proof (induction n arbitrary: i s k)
  case 0
  have "upd_pipe pi (\<lambda>_. pipes s pi) (s\<lparr>mem := mem s\<rparr>) = s" by (simp add: upd_pipe_def)
  then show ?case using 0 by (intro exI[of _ "mem s"] exI[of _ "pipes s pi"]) simp
next
  case (Suc n)
  let ?p = "pipes s pi"
  show ?case
  proof (cases "pi_nread ?p = pi_nwrite ?p")
    case True
    then have "k = 0" "pipe_queue ?p = []" using pipe_empty_iff[of ?p] Suc.prems(1) by simp_all
    moreover have "upd_pipe pi (\<lambda>_. ?p) (s\<lparr>mem := mem s\<rparr>) = s" by (simp add: upd_pipe_def)
    ultimately show ?thesis using True by (intro exI[of _ "mem s"] exI[of _ ?p]) simp
  next
    case False
    note get = pipe_get_queue[OF False]
    let ?c = "pi_data ?p ! pipe_idx (pi_nread ?p)" and ?k = "k - 1"
    let ?s1 = "upd_pipe pi pipe_get s"
    let ?s2 = "?s1\<lparr>mem := (mem s)(pa i := ?c)\<rparr>"
    have k: "k = Suc ?k" "?k = min n (length (pipe_queue (pipe_get ?p)))" using Suc.prems(1) get(1) by simp_all
    have c: "copyout pt (addr + of_int (int i)) [?c] ?s1 = Ret 0 ?s2"
      using copyout_byte[of m pt "addr + of_nat i" "pa i" ?s1 ?c] Suc.prems(3)[of 0] Suc.prems(4) Suc.prems(5)[of 0] k(1) by (simp add: subset_iff)
    have step: "piperead_copy (Suc n) pr pi addr (int i) s = piperead_copy n pr pi addr (int (i + 1)) ?s2"
      using False c Suc.prems(2) by (simp add: Let_def pipe_get_def[abs_def] add.commute)
    have pk: "pipes ?s2 pi = pipe_get ?p" by simp
    have "\<exists>m' p. piperead_copy n pr pi addr (int (i + 1)) ?s2 = Ret (int (i + 1 + ?k)) (upd_pipe pi (\<lambda>_. p) (?s2\<lparr>mem := m'\<rparr>)) \<and>
        pipe_queue p = drop ?k (pipe_queue (pipes ?s2 pi)) \<and> (pipe_ok (pipes ?s2 pi) \<longrightarrow> pipe_ok p) \<and>
        pi_readopen p = pi_readopen (pipes ?s2 pi) \<and> pi_writeopen p = pi_writeopen (pipes ?s2 pi) \<and>
        (\<forall>j<?k. m' (pa (i + 1 + j)) = pipe_queue (pipes ?s2 pi) ! j) \<and> (\<forall>x. x \<notin> pa ` {i + 1..<i + 1 + ?k} \<longrightarrow> m' x = mem ?s2 x)"
    proof (rule Suc.IH)
      show "?k = min n (length (pipe_queue (pipes ?s2 pi)))" unfolding pk by (rule k(2))
      show "p_pagetable (procs ?s2 ! pr) = pt" using Suc.prems(2) by simp
      show "uaddr m pt (addr + of_nat (i + 1 + j)) = Some (pa (i + 1 + j))" if "j < ?k" for j
        using Suc.prems(3)[of "Suc j"] that k(1) by simp
      show "mem ?s2 x = m x" if "x \<in> R" for x using Suc.prems(4)[OF that] Suc.prems(5)[of 0] that k(1) by auto
      show "pt_reads m pt (addr + of_nat (i + 1 + j)) \<subseteq> R \<and> pa (i + 1 + j) \<notin> R" if "j < ?k" for j
        using Suc.prems(5)[of "Suc j"] that k(1) by simp
      show "inj_on pa {i + 1..<i + 1 + ?k}" using Suc.prems(6) k(1) by (rule_tac inj_on_subset) auto
    qed
    then obtain m' p where p: "piperead_copy n pr pi addr (int (i + 1)) ?s2 = Ret (int (i + 1 + ?k)) (upd_pipe pi (\<lambda>_. p) (?s2\<lparr>mem := m'\<rparr>))"
        "pipe_queue p = drop ?k (pipe_queue (pipe_get ?p))" "pipe_ok (pipe_get ?p) \<longrightarrow> pipe_ok p"
        "pi_readopen p = pi_readopen ?p" "pi_writeopen p = pi_writeopen ?p"
        "\<And>j. j < ?k \<Longrightarrow> m' (pa (i + 1 + j)) = pipe_queue (pipe_get ?p) ! j" "\<And>x. x \<notin> pa ` {i + 1..<i + 1 + ?k} \<Longrightarrow> m' x = mem ?s2 x"
      unfolding pk by auto
    have e: "upd_pipe pi (\<lambda>_. p) (?s2\<lparr>mem := m'\<rparr>) = upd_pipe pi (\<lambda>_. p) (s\<lparr>mem := m'\<rparr>)" by (simp add: upd_pipe_def)
    have "pa i \<noteq> pa x" if "x \<in> {i + 1..<i + 1 + ?k}" for x
      using inj_onD[OF Suc.prems(6), of i x] that k(1) by auto
    then have "pa i \<notin> pa ` {i + 1..<i + 1 + ?k}" by blast
    then have "m' (pa i) = ?c" using p(7) by simp
    then have "m' (pa (i + j)) = pipe_queue ?p ! j" if "j < k" for j
      using p(6)[of "j - 1"] that k(1) get(1) by (cases j) simp_all
    moreover have "m' x = mem s x" if "x \<notin> pa ` {i..<i + k}" for x
    proof -
      have "x \<noteq> pa i" "x \<notin> pa ` {i + 1..<i + 1 + ?k}" using that k(1) by auto
      then show ?thesis using p(7) by simp
    qed
    moreover have "i + 1 + ?k = i + k" "pipe_queue p = drop k (pipe_queue ?p)" using k(1) p(2) get(1) by (simp_all, metis drop_Suc_Cons)
    ultimately show ?thesis using p(1,3,4,5) get(2) unfolding step e by (intro exI[of _ m'] exI[of _ p]) auto
  qed
qed

section \<open>Properties\<close>

definition pipe_ready :: "nat \<Rightarrow> uint64 \<Rightarrow> kstate \<Rightarrow> bool" where
  "pipe_ready pr pi s \<longleftrightarrow> curproc s = Some pr \<and> pr < NPROC \<and> length (procs s) = NPROC \<and> held s = [] \<and> pipe_ok (pipes s pi) \<and>
     \<not> p_killed (procs s ! pr)"

lemma pipe_readyD:
  assumes "pipe_ready pr pi s"
  shows "curproc s = Some pr" "length (procs s) = NPROC" "held s = []" "pipe_ok (pipes s pi)" "\<not> p_killed (procs s ! pr)"
    "my_pt s = p_pagetable (procs s ! pr)" "proc_locks_free (s\<lparr>held := [LPipe pi]\<rparr>)" "myproc s = Ret pr s" "pr < NPROC"
  using assms by (simp_all add: pipe_ready_def my_pt_def proc_locks_free_def myproc_def)

text \<open>
  A state to try the operations on: process 0 runs, virtual page 0 of its page table is mapped, and the pipe in page
  \<open>0x80005000\<close> holds \<open>k\<close> bytes, its counters just short of their wrap-around.
\<close>

definition test_pipe :: "nat \<Rightarrow> pipe" where
  "test_pipe k = \<lparr>pi_data = replicate 512 42, pi_nread = - 2, pi_nwrite = of_nat k - 2, pi_readopen = True, pi_writeopen = True\<rparr>"

definition pipe_state :: "nat \<Rightarrow> kstate" where
  "pipe_state k = upd_proc 0 (\<lambda>p. p\<lparr>p_pagetable := 0x80001000\<rparr>)
     ((boot_state 0 0 0 zero_symbols (\<lambda>_. []))\<lparr>mem := test_mem 0x17, curproc := Some 0, pipes := (\<lambda>_. test_pipe k)\<rparr>)"

lemma pipe_state_fields [simp]:
  "mem (pipe_state k) = test_mem 0x17" "my_pt (pipe_state k) = 0x80001000" "pipes (pipe_state k) pi = test_pipe k"
  "pi_readopen (test_pipe k)" "pi_writeopen (test_pipe k)"
  by (simp_all add: pipe_state_def my_pt_def upd_proc_def boot_state_def test_pipe_def)

lemma test_pipe_queue: "k \<le> 512 \<Longrightarrow> pipe_queue (test_pipe k) = replicate k 42"
  by (intro nth_equalityI) (simp_all add: pipe_queue_def test_pipe_def ring_queue_def unat_of_nat take_bit_eq_mod)

lemma pipe_state_ready: "k \<le> 512 \<Longrightarrow> pipe_ready 0 pi (pipe_state k)"
  by (simp add: pipe_ready_def pipe_ok_def test_pipe_queue)
     (simp add: pipe_state_def upd_proc_def boot_state_def test_pipe_def zero_proc_def)

text \<open>
  (C16) Writing to a pipe.  If there is room for all of them, \<open>pipewrite\<close> appends the bytes of the user's
  buffer, in order, behind what is queued, and returns their number; this holds for every value of the
  free-running counters, across their wrap-around too.
\<close>

theorem pipewrite_appends:
  assumes r: "pipe_ready pr pi s" "pi_readopen (pipes s pi)" and room: "length (pipe_queue (pipes s pi)) + n \<le> 512"
    and src: "\<And>k. k < n \<Longrightarrow> umapped (mem s) (my_pt s) addr k"
  shows "\<exists>t. pipewrite pi addr (int n) s = Ret (int n) t \<and>
    pipe_queue (pipes t pi) = pipe_queue (pipes s pi) @ map (ubyte (mem s) (my_pt s) addr) [0..<n] \<and>
    pipe_ready pr pi t \<and> pi_readopen (pipes t pi) \<and> mem t = mem s"
proof -
  note d = pipe_readyD[OF r(1)]
  let ?s = "s\<lparr>held := [LPipe pi]\<rparr>"
  obtain p where p: "pipewrite_loop n pr pi addr (int 0) ?s = pipe_done pi (ChPipeRead pi) (int (0 + n)) (upd_pipe pi (\<lambda>_. p) ?s)"
    "pipe_ok p" "pipe_queue p = pipe_queue (pipes s pi) @ map (\<lambda>k. ubyte (mem s) (my_pt s) addr (0 + k)) [0..<n]" "pi_readopen p"
    using pipewrite_loop_fits[of ?s pi n pr "my_pt s" "mem s" addr 0] d room r(2) src by auto
  let ?t = "(woken (ChPipeRead pi) (upd_pipe pi (\<lambda>_. p) ?s))\<lparr>held := []\<rparr>"
  have "proc_locks_free (upd_pipe pi (\<lambda>_. p) ?s)" using d(7) by (simp add: proc_locks_free_def)
  then have "pipe_done pi (ChPipeRead pi) (int n) (upd_pipe pi (\<lambda>_. p) ?s) = Ret (int n) ?t"
    using d(2) by (intro pipe_done_eq) simp_all
  then have "pipewrite pi addr (int n) s = Ret (int n) ?t"
    using p(1) d(3,8) by (simp add: pipewrite_def)
  moreover have "\<not> p_killed (procs ?t ! pr)" using d(2,5,9) by (simp add: nth_woken wake1_def)
  ultimately show ?thesis using p d r(1) by (intro exI[of _ ?t]) (simp add: pipe_ready_def)
qed

theorem pipewrite_appends_witness:
  "\<exists>t. pipewrite 0x80005000 0 5 (pipe_state 1) = Ret 5 t \<and> pipe_queue (pipes t 0x80005000) = [42, 0, 0, 0, 0, 0]"
proof -
  have mapped: "umapped (test_mem 0x17) 0x80001000 0 k" "ubyte (test_mem 0x17) 0x80001000 0 k = 0" if "k < 5" for k
  proof -
    have "k \<in> {0, 1, 2, 3, 4}" using that by auto
    then show "umapped (test_mem 0x17) 0x80001000 0 k" "ubyte (test_mem 0x17) 0x80001000 0 k = 0"
      using test_mem_page(1)[of "0x17" k] by (auto simp: umapped_def ubyte_def test_mem_def store64_def store_bytes_def)
  qed
  have "map (ubyte (test_mem 0x17) 0x80001000 0) [0..<5] = [0, 0, 0, 0, 0]"
    using mapped(2) by (simp add: upt_rec)
  then show ?thesis
    using pipewrite_appends[of 0 "0x80005000" "pipe_state 1" 5 0] mapped(1) pipe_state_ready[of 1] by (auto simp: test_pipe_queue)
qed

text \<open>
  (C17) Reading from a pipe.  If bytes are queued, or the write end is closed, \<open>piperead\<close> returns the number of bytes
  delivered, the smaller of \<open>n\<close> and what is queued (0 at end of file); the user's buffer receives the oldest bytes in
  order, they leave the queue, and no other memory changes.
\<close>

theorem piperead_takes:
  assumes r: "pipe_ready pr pi s" "pipe_queue (pipes s pi) \<noteq> [] \<or> \<not> pi_writeopen (pipes s pi)"
    and k: "k = min n (length (pipe_queue (pipes s pi)))"
    and dst: "\<And>j. j < k \<Longrightarrow> uaddr (mem s) (my_pt s) (addr + of_nat j) = Some (pa j)" and inj: "inj_on pa {0..<k}"
    and sep: "\<And>i j. i < k \<Longrightarrow> j < k \<Longrightarrow> pa i \<notin> pt_reads (mem s) (my_pt s) (addr + of_nat j)"
  shows "\<exists>t. piperead pi addr (int n) s = Ret (int k) t \<and> pipe_queue (pipes t pi) = drop k (pipe_queue (pipes s pi)) \<and>
    (\<forall>j<k. mem t (pa j) = pipe_queue (pipes s pi) ! j) \<and> (\<forall>x. x \<notin> pa ` {0..<k} \<longrightarrow> mem t x = mem s x) \<and> pipe_ready pr pi t"
proof -
  note d = pipe_readyD[OF r(1)]
  let ?s = "s\<lparr>held := [LPipe pi]\<rparr>"
  define R where "R = (\<Union>j<k. pt_reads (mem s) (my_pt s) (addr + of_nat j))"
  have "pt_reads (mem s) (my_pt s) (addr + of_nat (0 + j)) \<subseteq> R \<and> pa (0 + j) \<notin> R" if "j < k" for j
    using that sep by (auto simp: R_def)
  then obtain m' p where p: "piperead_copy n pr pi addr (int 0) ?s = Ret (int (0 + k)) (upd_pipe pi (\<lambda>_. p) (?s\<lparr>mem := m'\<rparr>))"
    "pipe_queue p = drop k (pipe_queue (pipes s pi))" "pipe_ok p" "\<forall>j<k. m' (pa j) = pipe_queue (pipes s pi) ! j"
    "\<forall>x. x \<notin> pa ` {0..<k} \<longrightarrow> m' x = mem s x"
    using piperead_copy_takes[of k n ?s pi pr "my_pt s" "mem s" addr 0 pa R] k d(4,6) dst inj by auto
  let ?u = "upd_pipe pi (\<lambda>_. p) (?s\<lparr>mem := m'\<rparr>)"
  let ?t = "(woken (ChPipeWrite pi) ?u)\<lparr>held := []\<rparr>"
  have "proc_locks_free ?u" using d(7) by (simp add: proc_locks_free_def)
  then have w: "wakeup (ChPipeWrite pi) ?u = Ret () (woken (ChPipeWrite pi) ?u)" using d(2) by (intro wakeup_eq) simp_all
  have ne: "\<not> (pi_nread (pipes s pi) = pi_nwrite (pipes s pi) \<and> pi_writeopen (pipes s pi))"
    using r(2) pipe_empty_iff[of "pipes s pi"] by simp
  have "piperead pi addr (int n) s = Ret (int k) ?t"
    using p(1) d(3,8) w ne by (cases "pi_nread (pipes s pi) = pi_nwrite (pipes s pi)") (simp_all add: piperead_def piperead_loop_def)
  moreover have "\<not> p_killed (procs ?t ! pr)" using d(2,5,9) by (simp add: nth_woken wake1_def)
  ultimately show ?thesis using p d r(1) by (intro exI[of _ ?t]) (simp add: pipe_ready_def)
qed

theorem piperead_takes_witness:
  "\<exists>t. piperead 0x80005000 0 8 (pipe_state 3) = Ret 3 t \<and> pipe_queue (pipes t 0x80005000) = [] \<and> mem t 0x80004001 = 42"
proof -
  let ?pa = "\<lambda>k. 0x80004000 + of_nat k :: uint64"
  have "\<exists>t. piperead 0x80005000 0 (int 8) (pipe_state 3) = Ret (int 3) t \<and>
      pipe_queue (pipes t 0x80005000) = drop 3 (pipe_queue (pipes (pipe_state 3) 0x80005000)) \<and>
      (\<forall>j<3. mem t (?pa j) = pipe_queue (pipes (pipe_state 3) 0x80005000) ! j) \<and>
      (\<forall>x. x \<notin> ?pa ` {0..<3} \<longrightarrow> mem t x = mem (pipe_state 3) x) \<and> pipe_ready 0 0x80005000 t"
  proof (rule piperead_takes)
    show "pipe_ready 0 0x80005000 (pipe_state 3)" by (rule pipe_state_ready) simp
    show "inj_on ?pa {0..<3}" using test_mem_inj[of 3] by (simp add: atLeast0LessThan)
    show "uaddr (mem (pipe_state 3)) (my_pt (pipe_state 3)) (0 + of_nat j) = Some (?pa j)" if "j < 3" for j
      using that test_mem_page(1)[of "0x17" j] by simp
    show "?pa i \<notin> pt_reads (mem (pipe_state 3)) (my_pt (pipe_state 3)) (0 + of_nat j)" if "i < 3" "j < 3" for i j
      using that test_mem_sep[of "0x17" i j] by simp
  qed (simp_all add: test_pipe_queue)
  then obtain t where t: "piperead 0x80005000 0 (int 8) (pipe_state 3) = Ret (int 3) t"
    "pipe_queue (pipes t 0x80005000) = []" "\<forall>j<3. mem t (?pa j) = replicate 3 42 ! j"
    by (auto simp: test_pipe_queue)
  have "mem t 0x80004001 = 42" using t(3)[rule_format, of 1] by simp
  with t show ?thesis by auto
qed

text \<open>
  (C18) Blocking.  A writer that finds the pipe full, with the read end open, wakes the readers and goes to sleep on
  the pipe without losing or adding a byte.
\<close>

theorem pipewrite_full_sleeps:
  assumes r: "pipe_ready pr pi s" "pi_readopen (pipes s pi)" and full: "length (pipe_queue (pipes s pi)) = 512" and n: "0 < n"
  shows "\<exists>t. pipewrite pi addr n s = Swtch pr t \<and> pipes t = pipes s \<and> held t = [LProc pr] \<and>
    p_state (procs t ! pr) = SLEEPING \<and> p_chan (procs t ! pr) = Some (ChPipeWrite pi) \<and>
    (\<forall>q<NPROC. q \<noteq> pr \<longrightarrow> p_chan (procs s ! q) = Some (ChPipeRead pi) \<longrightarrow> p_state (procs t ! q) \<noteq> SLEEPING)"
proof -
  note d = pipe_readyD[OF r(1)]
  let ?s = "s\<lparr>held := [LPipe pi]\<rparr>"
  let ?w = "woken (ChPipeRead pi) ?s"
  let ?t = "upd_proc pr (\<lambda>q. q\<lparr>p_state := SLEEPING\<rparr>) (upd_proc pr (\<lambda>q. q\<lparr>p_chan := Some (ChPipeWrite pi)\<rparr>) (?w\<lparr>held := [LProc pr]\<rparr>))"
  obtain m where m: "nat n = Suc m" using n by (cases "nat n") auto
  have w: "wakeup (ChPipeRead pi) ?s = Ret () ?w" using d(2,7) by (intro wakeup_eq) simp_all
  have f: "pi_nwrite (pipes s pi) = pi_nread (pipes s pi) + PIPESIZE" using full pipe_full_iff by blast
  have "sleep (ChPipeWrite pi) (LPipe pi) ?w = Swtch pr ?t"
    using d(1,2,9) by (simp add: sleep_def sched_def irq_enabled_def myproc_def upd_proc_def)
  then have "pipewrite pi addr n s = Swtch pr ?t"
    using d(3,5,8) r(2) w f by (simp add: pipewrite_def m killed_eq)
  moreover have "p_state (procs ?t ! q) \<noteq> SLEEPING" if "q < NPROC" "q \<noteq> pr" "p_chan (procs s ! q) = Some (ChPipeRead pi)" for q
    using that d(1,2) by (simp add: upd_proc_def nth_woken wake1_def)
  ultimately show ?thesis
    using d(2,9) by (intro exI[of _ ?t]) (simp add: upd_proc_def)
qed

theorem pipewrite_full_sleeps_witness:
  "\<exists>t. pipewrite 0x80005000 0 5 (pipe_state 512) = Swtch 0 t \<and> pipes t = pipes (pipe_state 512)"
  using pipewrite_full_sleeps[of 0 "0x80005000" "pipe_state 512" 5 0] pipe_state_ready[of 512] by (auto simp: test_pipe_queue)

text \<open>
  (C37) A reader whose buffer is not mapped consumes a byte that nobody receives: \<open>piperead\<close> returns 0, the
  end-of-file answer, and the oldest byte is gone from the pipe.
\<close>

theorem piperead_loses_byte:
  assumes r: "pipe_ready pr pi s" "pipe_queue (pipes s pi) = c # q" and n: "0 < n" and bad: "uaddr (mem s) (my_pt s) addr = None"
  shows "\<exists>t. piperead pi addr n s = Ret 0 t \<and> pipe_queue (pipes t pi) = q \<and> mem t = mem s"
proof -
  note d = pipe_readyD[OF r(1)]
  let ?s = "s\<lparr>held := [LPipe pi]\<rparr>"
  have ne: "pi_nread (pipes s pi) \<noteq> pi_nwrite (pipes s pi)" using r(2) pipe_empty_iff[of "pipes s pi"] by simp
  let ?u = "upd_pipe pi pipe_get ?s"
  obtain m where m: "nat n = Suc m" using n by (cases "nat n") auto
  have w: "wakeup (ChPipeWrite pi) ?u = Ret () (woken (ChPipeWrite pi) ?u)"
    using d(2,7) by (intro wakeup_eq) (simp_all add: proc_locks_free_def)
  have "copyout (p_pagetable (procs ?u ! pr)) addr [x] ?u = Ret (- 1) ?u" for x using bad d(6) by (intro copyout_unmapped) simp
  then have "piperead pi addr n s = Ret 0 ((woken (ChPipeWrite pi) ?u)\<lparr>held := []\<rparr>)"
    using d(3,8) ne w by (simp add: piperead_def piperead_loop_def m Let_def pipe_get_def[abs_def])
  then show ?thesis using pipe_get_queue(1)[OF ne] r(2) by (intro exI[of _ "(woken (ChPipeWrite pi) ?u)\<lparr>held := []\<rparr>"]) simp
qed

theorem piperead_loses_byte_witness:
  "\<exists>t. piperead 0x80005000 MAXVA 1 (pipe_state 1) = Ret 0 t \<and> pipe_queue (pipes t 0x80005000) = []"
proof -
  have "uaddr (test_mem 0x17) 0x80001000 MAXVA = None"
    by (simp add: uaddr_def translate_def PGROUNDDOWN_def MAXVA_eq)
  then show ?thesis
    using piperead_loses_byte[of 0 "0x80005000" "pipe_state 1" 42 "[]" 1 MAXVA] pipe_state_ready[of 1] by (auto simp: test_pipe_queue)
qed

end
