(* ===== verification/Xv6_Console.thy ===== *)
theory Xv6_Console
  imports Xv6_Uaccess Xv6_Printf
begin

text \<open>
  \<^verbatim>\<open>kernel/console.c\<close> (\<open>consputc\<close> is in theory \<open>Xv6_Uart\<close>), \<open>uartintr\<close> of \<^verbatim>\<open>kernel/uart.c\<close> and
  \<open>procdump\<close> of \<^verbatim>\<open>kernel/proc.c\<close>.  The input buffer is a ring with three counters: \<open>r\<close> \<open>\<le>\<close> \<open>w\<close>
  \<open>\<le>\<close> \<open>e\<close>, modulo \<open>2 ^ 32\<close>; between \<open>r\<close> and \<open>w\<close> are the bytes of complete lines, between
  \<open>w\<close> and \<open>e\<close> the line being edited.
\<close>

section \<open>Operations\<close>

definition INPUT_BUF_SIZE :: uint where [simp]: "INPUT_BUF_SIZE = 128"

definition cons_idx :: "uint \<Rightarrow> nat" where
  "cons_idx k = unat (k mod INPUT_BUF_SIZE)"

definition Ctrl :: "char \<Rightarrow> int" where
  "Ctrl c = int (of_char c) - 64"

definition upd_cons :: "(consst \<Rightarrow> consst) \<Rightarrow> kstate \<Rightarrow> kstate" where
  "upd_cons f s = s\<lparr>cons := f (cons s)\<rparr>"

text \<open>\<open>rem\<close> is \<open>n - i\<close>.\<close>

fun consolewrite_loop :: "nat \<Rightarrow> copy_src \<Rightarrow> uint64 \<Rightarrow> int \<Rightarrow> int kernel" where
  "consolewrite_loop 0 user_src src i = retK i"
| "consolewrite_loop (Suc rem) user_src src i =
     bindK (either_copyin user_src (src + of_int i) 1) (\<lambda>(r, bs).
       if r = - 1 then retK i
       else thenK (uartputc (hd bs)) (consolewrite_loop rem user_src src (i + 1)))"

definition consolewrite :: "copy_src \<Rightarrow> uint64 \<Rightarrow> int \<Rightarrow> int kernel" where
  "consolewrite user_src src n = consolewrite_loop (nat n) user_src src 0"

text \<open>
  \<open>n\<close> is the number of bytes still wanted.  When the process sleeps for input it continues, after
  \<open>sleep_resume\<close>, with \<open>consoleread_loop\<close>.
\<close>

fun consoleread_loop :: "nat \<Rightarrow> copy_dst \<Rightarrow> uint64 \<Rightarrow> uint \<Rightarrow> int kernel" where
  "consoleread_loop 0 user_dst dst target = thenK (release LCons) (retK (sint target))"
| "consoleread_loop (Suc n) user_dst dst target = bindK (getK cons) (\<lambda>cn.
     if cons_r cn = cons_w cn then
       bindK myproc (\<lambda>p. bindK (killed p) (\<lambda>k.
         if k then thenK (release LCons) (retK (- 1))
         else bindK (sleep ChConsR LCons) (\<lambda>_. retK 0)))
     else
       let c = cons_buf cn ! cons_idx (cons_r cn) in
       thenK (modK (upd_cons (\<lambda>cn. cn\<lparr>cons_r := cons_r cn + 1\<rparr>)))
         (if uint c = Ctrl CHR ''D'' then
            thenK (whenK (of_nat (Suc n) < target) (modK (upd_cons (\<lambda>cn. cn\<lparr>cons_r := cons_r cn - 1\<rparr>))))
           (thenK (release LCons) (retK (sint (target - of_nat (Suc n)))))
          else bindK (either_copyout user_dst dst [c]) (\<lambda>(r, _).
            if r = - 1 then thenK (release LCons) (retK (sint (target - of_nat (Suc n))))
            else if c = 10 then thenK (release LCons) (retK (sint (target - of_nat n)))
            else consoleread_loop n user_dst (dst + 1) target)))"

definition consoleread :: "copy_dst \<Rightarrow> uint64 \<Rightarrow> int \<Rightarrow> int kernel" where
  "consoleread user_dst dst n =
     thenK (acquire LCons)
       (if n > 0 then consoleread_loop (nat n) user_dst dst (word_of_int n)
        else thenK (release LCons) (retK 0))"

definition state_name :: "procstate \<Rightarrow> string" where
  "state_name st = (case st of
       UNUSED \<Rightarrow> ''unused'' | USED \<Rightarrow> ''used'' | SLEEPING \<Rightarrow> ''sleep '' | RUNNABLE \<Rightarrow> ''runble''
     | RUNNING \<Rightarrow> ''run   '' | ZOMBIE \<Rightarrow> ''zombie'')"

definition c_str :: "bytes \<Rightarrow> bytes" where
  "c_str bs = takeWhile (\<lambda>c. c \<noteq> 0) bs"

definition procdump :: "unit kernel" where
  "procdump =
     thenK (printf ''\<newline>'' [])
     (forK [0..<NPROC] (\<lambda>i. bindK (getK (\<lambda>s. procs s ! i)) (\<lambda>p.
        whenK (p_state p \<noteq> UNUSED)
         (thenK (printf ''%d %s %s'' [PInt (p_pid p), PStr (Some (map of_char (state_name (p_state p)))),
                                       PStr (Some (c_str (p_name p)))])
                (printf ''\<newline>'' [])))))"

text \<open>Killing the line erases at most \<open>e - w\<close> characters.\<close>

fun kill_line :: "nat \<Rightarrow> unit kernel" where
  "kill_line 0 = (\<lambda>s. Spin)"
| "kill_line (Suc fuel) = bindK (getK cons) (\<lambda>cn.
     if cons_e cn \<noteq> cons_w cn \<and> cons_buf cn ! cons_idx (cons_e cn - 1) \<noteq> 10 then
       thenK (modK (upd_cons (\<lambda>cn. cn\<lparr>cons_e := cons_e cn - 1\<rparr>)))
      (thenK (consputc BACKSPACE)
             (kill_line fuel))
     else retK ())"

definition erase_char :: "unit kernel" where
  "erase_char = bindK (getK cons) (\<lambda>cn.
     whenK (cons_e cn \<noteq> cons_w cn)
       (thenK (modK (upd_cons (\<lambda>cn. cn\<lparr>cons_e := cons_e cn - 1\<rparr>)))
              (consputc BACKSPACE)))"

definition store_char :: "int \<Rightarrow> unit kernel" where
  "store_char c0 = bindK (getK cons) (\<lambda>cn.
     whenK (c0 \<noteq> 0 \<and> cons_e cn - cons_r cn < INPUT_BUF_SIZE)
      (let c = (if c0 = 13 then 10 else c0) in
       thenK (consputc c)
      (thenK (modK (upd_cons (\<lambda>cn. cn\<lparr>cons_buf := (cons_buf cn)[cons_idx (cons_e cn) := word_of_int c],
                                      cons_e := cons_e cn + 1\<rparr>)))
      (bindK (getK cons) (\<lambda>cn.
       whenK (c = 10 \<or> c = Ctrl CHR ''D'' \<or> cons_e cn - cons_r cn = INPUT_BUF_SIZE)
        (thenK (modK (upd_cons (\<lambda>cn. cn\<lparr>cons_w := cons_e cn\<rparr>)))
               (wakeup ChConsR)))))))"

definition consoleintr :: "int \<Rightarrow> unit kernel" where
  "consoleintr c =
     thenK (acquire LCons)
    (thenK
      (if c = Ctrl CHR ''P'' then procdump
       else if c = Ctrl CHR ''U'' then
         bindK (getK (\<lambda>s. unat (cons_e (cons s) - cons_w (cons s)))) (\<lambda>n. kill_line (n + 1))
       else if c = Ctrl CHR ''H'' \<or> c = 0x7f then erase_char
       else store_char c)
      (release LCons))"

definition CONSOLE :: nat where [simp]: "CONSOLE = 1"

definition consoleinit :: "unit kernel" where
  "consoleinit =
     thenK uartinit
           (modK (\<lambda>s. s\<lparr>devsw := (devsw s)[CONSOLE := (ConsoleDev, ConsoleDev)]\<rparr>))"

fun uartintr_loop :: "nat \<Rightarrow> unit kernel" where
  "uartintr_loop 0 = (\<lambda>s. Spin)"
| "uartintr_loop (Suc fuel) = bindK uartgetc (\<lambda>c.
     if c = - 1 then retK () else thenK (consoleintr c) (uartintr_loop fuel))"

text \<open>All bytes that have arrived are read.\<close>

definition uartintr :: "unit kernel" where
  "uartintr =
     thenK (bindK (getK (\<lambda>s. length (hw_rx (uart s)))) (\<lambda>n. uartintr_loop (n + 1)))
    (thenK (acquire LUart)
    (thenK uartstart
           (release LUart)))"


section \<open>The line discipline\<close>

interpretation cring: ring_buffer "128 :: uint"
  by unfold_locales simp_all

text \<open>
  The bytes of complete lines, waiting for \<open>consoleread\<close>, and the line being edited.
\<close>

definition cons_lines :: "consst \<Rightarrow> bytes" where
  "cons_lines cn = ring_queue (cons_buf cn) 128 (cons_r cn) (cons_w cn)"

definition cons_edit :: "consst \<Rightarrow> bytes" where
  "cons_edit cn = ring_queue (cons_buf cn) 128 (cons_w cn) (cons_e cn)"

definition cons_ok :: "consst \<Rightarrow> bool" where
  "cons_ok cn \<longleftrightarrow> length (cons_buf cn) = 128 \<and> length (cons_lines cn) + length (cons_edit cn) \<le> 128 \<and> 10 \<notin> set (cons_edit cn)"

abbreviation cons_view :: "kstate \<Rightarrow> bytes \<times> bytes" where
  "cons_view s \<equiv> (cons_lines (cons s), cons_edit (cons s))"

text \<open>What typing a character does to them, and what it echoes.\<close>

definition line_edit :: "uchar \<Rightarrow> bytes \<times> bytes \<Rightarrow> bytes \<times> bytes" where
  "line_edit c = (\<lambda>(q, ed).
     if c = 21 then (q, [])
     else if c = 8 \<or> c = 0x7f then (q, butlast ed)
     else if c \<noteq> 0 \<and> length q + length ed < 128 then
       let b = (if c = 13 then 10 else c) in
       if b = 10 \<or> b = 4 \<or> length q + length ed = 127 then (q @ ed @ [b], []) else (q, ed @ [b])
     else (q, ed))"

definition line_echo :: "uchar \<Rightarrow> bytes \<times> bytes \<Rightarrow> bytes" where
  "line_echo c = (\<lambda>(q, ed).
     if c = 21 then concat (replicate (length ed) [8, 32, 8])
     else if c = 8 \<or> c = 0x7f then (if ed = [] then [] else [8, 32, 8])
     else if c \<noteq> 0 \<and> length q + length ed < 128 then [if c = 13 then 10 else c]
     else [])"

lemma cons_idx_eq: "cons_idx k = unat k mod 128"
  by (simp add: cons_idx_def unat_mod)

lemma cons_total:
  assumes "cons_ok cn"
  shows "ring_queue (cons_buf cn) 128 (cons_r cn) (cons_e cn) = cons_lines cn @ cons_edit cn"
    and "unat (cons_e cn - cons_r cn) = length (cons_lines cn) + length (cons_edit cn)"
proof -
  have "unat (cons_w cn - cons_r cn) + unat (cons_e cn - cons_w cn) \<le> 128"
    using assms by (simp add: cons_ok_def cons_lines_def cons_edit_def)
  then show t: "ring_queue (cons_buf cn) 128 (cons_r cn) (cons_e cn) = cons_lines cn @ cons_edit cn"
    unfolding cons_lines_def cons_edit_def by (intro cring.split_at) simp
  from arg_cong[OF this, of length] show "unat (cons_e cn - cons_r cn) = length (cons_lines cn) + length (cons_edit cn)" by simp
qed

lemma cons_edit_empty: "cons_e cn = cons_w cn \<longleftrightarrow> cons_edit cn = []"
  using cring.empty_iff[of "cons_buf cn" "cons_w cn" "cons_e cn"] by (simp add: cons_edit_def)

lemma cons_lines_empty: "cons_r cn = cons_w cn \<longleftrightarrow> cons_lines cn = []"
  using cring.empty_iff[of "cons_buf cn" "cons_r cn" "cons_w cn"] by (auto simp: cons_lines_def)

lemma cons_erase:
  assumes "cons_e cn \<noteq> cons_w cn"
  shows "cons_edit cn = cons_edit (cn\<lparr>cons_e := cons_e cn - 1\<rparr>) @ [cons_buf cn ! cons_idx (cons_e cn - 1)]"
    and "cons_lines (cn\<lparr>cons_e := cons_e cn - 1\<rparr>) = cons_lines cn"
    and "cons_ok cn \<Longrightarrow> cons_ok (cn\<lparr>cons_e := cons_e cn - 1\<rparr>)"
proof -
  show e: "cons_edit cn = cons_edit (cn\<lparr>cons_e := cons_e cn - 1\<rparr>) @ [cons_buf cn ! cons_idx (cons_e cn - 1)]"
    using cring.unpush[OF assms, of "cons_buf cn"] by (simp add: cons_edit_def cons_idx_eq)
  show l: "cons_lines (cn\<lparr>cons_e := cons_e cn - 1\<rparr>) = cons_lines cn" by (simp add: cons_lines_def)
  show "cons_ok (cn\<lparr>cons_e := cons_e cn - 1\<rparr>)" if "cons_ok cn"
    using that unfolding cons_ok_def l e by simp
qed

definition cons_store :: "uchar \<Rightarrow> consst \<Rightarrow> consst" where
  "cons_store b cn = cn\<lparr>cons_buf := (cons_buf cn)[cons_idx (cons_e cn) := b], cons_e := cons_e cn + 1\<rparr>"

lemma cons_store_view:
  assumes ok: "cons_ok cn" and room: "length (cons_lines cn) + length (cons_edit cn) < 128"
  shows "cons_lines (cons_store b cn) = cons_lines cn" and "cons_edit (cons_store b cn) = cons_edit cn @ [b]"
proof -
  let ?cn = "cons_store b cn"
  have buf: "length (cons_buf cn) = unat (128 :: uint)" using ok by (simp add: cons_ok_def)
  have lt: "unat (cons_e cn - cons_r cn) < unat (128 :: uint)" using cons_total(2)[OF ok] room by simp
  have lt2: "unat (cons_e cn - cons_w cn) < unat (128 :: uint)" using room by (simp add: cons_edit_def)
  show e: "cons_edit ?cn = cons_edit cn @ [b]"
    using cring.push[OF lt2 buf, of b] by (simp add: cons_edit_def cons_store_def cons_idx_eq)
  have "length (cons_lines ?cn) = length (cons_lines cn)" by (simp add: cons_lines_def cons_store_def)
  moreover have "unat (cons_w ?cn - cons_r ?cn) + unat (cons_e ?cn - cons_w ?cn) \<le> 128"
    using arg_cong[OF e, of length] room by (simp add: cons_edit_def cons_lines_def cons_store_def)
  then have "ring_queue (cons_buf ?cn) 128 (cons_r ?cn) (cons_e ?cn) = cons_lines ?cn @ cons_edit ?cn"
    unfolding cons_lines_def cons_edit_def by (intro cring.split_at) simp
  moreover have "ring_queue (cons_buf ?cn) 128 (cons_r ?cn) (cons_e ?cn) = (cons_lines cn @ cons_edit cn) @ [b]"
    using cring.push[OF lt buf, of b] cons_total(1)[OF ok] by (simp add: cons_store_def cons_idx_eq)
  ultimately show "cons_lines ?cn = cons_lines cn" using e by simp
qed

lemma cons_commit:
  assumes "unat (cons_w cn - cons_r cn) + unat (cons_e cn - cons_w cn) \<le> 128"
  shows "cons_lines (cn\<lparr>cons_w := cons_e cn\<rparr>) = cons_lines cn @ cons_edit cn" and "cons_edit (cn\<lparr>cons_w := cons_e cn\<rparr>) = []"
  using cring.split_at[of "cons_w cn" "cons_r cn" "cons_e cn" "cons_buf cn"] assms
  by (simp_all add: cons_lines_def cons_edit_def) (simp add: ring_queue_def)


section \<open>Input\<close>

lemma upd_cons_frame [simp]:
  "held (upd_cons f s) = held s" "procs (upd_cons f s) = procs s" "curproc (upd_cons f s) = curproc s" "mem (upd_cons f s) = mem s"
  "panicked (upd_cons f s) = panicked s" "uart (upd_cons f s) = uart s" "cons (upd_cons f s) = f (cons s)"
  "upd_cons f (upd_cons g s) = upd_cons (\<lambda>c. f (g c)) s" "sent bs n (upd_cons f s) = upd_cons f (sent bs n s)"
  by (simp_all add: upd_cons_def sent_def upd_uart_def)

lemma sent_frame [simp]:
  "procs (sent bs n s) = procs s" "curproc (sent bs n s) = curproc s" "mem (sent bs n s) = mem s" "cons (sent bs n s) = cons s"
  "hw_thr (uart (sent bs n s)) = hw_thr (uart s) @ bs" "hw_rx (uart (sent bs n s)) = hw_rx (uart s)"
  "tx_queue (uart (sent bs n s)) = tx_queue (uart s)" "tx_buf (uart (sent bs n s)) = tx_buf (uart s)"
  by (simp_all add: sent_def upd_uart_def tx_queue_def)

lemma woken_cons [simp]: "cons (woken_ptr ch s) = cons s"
  by (simp add: woken_ptr_def)

lemma kill_line_eq:
  assumes "cons_ok (cons s)" and "\<not> panicked s" and "length (cons_edit (cons s)) < fuel"
  shows "\<exists>cn k. kill_line fuel s =
      Ret () (upd_cons (\<lambda>_. cn) (sent (concat (replicate (length (cons_edit (cons s))) [8, 32, 8])) k s)) \<and> cons_ok cn \<and> cons_lines cn = cons_lines (cons s) \<and> cons_edit cn = []"
  using assms
proof (induction fuel arbitrary: s)
  case (Suc fuel)
  let ?cn = "cons s"
  show ?case
  proof (cases "cons_e ?cn = cons_w ?cn")
    case True
    then have "cons_edit ?cn = []" by (simp add: cons_edit_empty)
    then show ?thesis using True Suc.prems by (intro exI[of _ ?cn] exI[of _ 0]) (simp add: upd_cons_def)
  next
    case False
    note e = cons_erase[OF False]
    let ?cn1 = "?cn\<lparr>cons_e := cons_e ?cn - 1\<rparr>"
    let ?s1 = "upd_cons (\<lambda>_. ?cn1) (sent [8, 32, 8] 3 s)"
    have nl: "cons_buf ?cn ! cons_idx (cons_e ?cn - 1) \<noteq> 10" using Suc.prems(1) e(1) by (auto simp: cons_ok_def)
    have "kill_line (Suc fuel) s = kill_line fuel ?s1"
      using False nl Suc.prems(2) by (simp add: consputc_backspace) (simp add: upd_cons_def sent_def upd_uart_def)
    moreover have n: "length (cons_edit ?cn) = Suc (length (cons_edit ?cn1))" using e(1) by simp
    have "\<exists>cn k. kill_line fuel ?s1 =
        Ret () (upd_cons (\<lambda>_. cn) (sent (concat (replicate (length (cons_edit (cons ?s1))) [8, 32, 8])) k ?s1)) \<and>
        cons_ok cn \<and> cons_lines cn = cons_lines (cons ?s1) \<and> cons_edit cn = []"
      using Suc.prems e(3) n by (intro Suc.IH) simp_all
    then obtain cn k where "kill_line fuel ?s1 =
        Ret () (upd_cons (\<lambda>_. cn) (sent (concat (replicate (length (cons_edit ?cn1)) [8, 32, 8])) k ?s1))"
        "cons_ok cn" "cons_lines cn = cons_lines ?cn1" "cons_edit cn = []" by auto
    ultimately show ?thesis using e(2) n
      by (intro exI[of _ cn] exI[of _ "k + 3"]) (simp add: sent_sent del: kill_line.simps)
  qed
qed simp

lemma Ctrl_values [simp]: "Ctrl CHR ''P'' = 16" "Ctrl CHR ''U'' = 21" "Ctrl CHR ''H'' = 8" "Ctrl CHR ''D'' = 4"
  by (simp_all add: Ctrl_def)

lemma uint_byte_eq:
  "uint (c :: uchar) = 16 \<longleftrightarrow> c = 16" "uint c = 21 \<longleftrightarrow> c = 21" "uint c = 8 \<longleftrightarrow> c = 8" "uint c = 4 \<longleftrightarrow> c = 4"
  "uint c = 13 \<longleftrightarrow> c = 13" "uint c = 10 \<longleftrightarrow> c = 10" "uint c = 0x7f \<longleftrightarrow> c = 0x7f" "uint c = 0 \<longleftrightarrow> c = 0" "uint c \<noteq> BACKSPACE"
proof -
  have lit: "uint c = uint (k :: uchar) \<longleftrightarrow> c = k" for k by (rule word_uint_eq_iff[symmetric])
  show "uint (c :: uchar) = 16 \<longleftrightarrow> c = 16" "uint c = 21 \<longleftrightarrow> c = 21" "uint c = 8 \<longleftrightarrow> c = 8" "uint c = 4 \<longleftrightarrow> c = 4"
    "uint c = 13 \<longleftrightarrow> c = 13" "uint c = 10 \<longleftrightarrow> c = 10" "uint c = 0x7f \<longleftrightarrow> c = 0x7f" "uint c = 0 \<longleftrightarrow> c = 0"
    using lit[of 16] lit[of 21] lit[of 8] lit[of 4] lit[of 13] lit[of 10] lit[of "0x7f"] lit[of 0] by simp_all
  show "uint c \<noteq> BACKSPACE" using uint_lt2p[of c] by (simp add: BACKSPACE_def)
qed

definition cons_ready :: "kstate \<Rightarrow> bool" where
  "cons_ready s \<longleftrightarrow> cons_ok (cons s) \<and> \<not> panicked s \<and> LCons \<notin> set (held s) \<and> proc_locks_free s \<and> length (procs s) = NPROC"

lemma store_char_eq:
  assumes ok: "cons_ok (cons s)" and "\<not> panicked s" "proc_locks_free s" "length (procs s) = NPROC"
    and c: "c \<notin> {21, 8, 0x7f}" and v: "line_edit c (cons_view s) = (q', ed')"
  shows "\<exists>cn k. store_char (uint c) s = Ret () ((if q' = cons_lines (cons s) then id else woken ChConsR)
      (upd_cons (\<lambda>_. cn) (sent (line_echo c (cons_view s)) k s))) \<and> cons_ok cn \<and> cons_lines cn = q' \<and> cons_edit cn = ed'"
proof -
  let ?cn = "cons s" and ?n = "length (cons_lines (cons s)) + length (cons_edit (cons s))"
  note tot = cons_total[OF ok]
  have room: "cons_e ?cn - cons_r ?cn < INPUT_BUF_SIZE \<longleftrightarrow> ?n < 128"
    unfolding word_less_nat_alt tot(2) by simp
  show ?thesis
  proof (cases "c \<noteq> 0 \<and> ?n < 128")
    case False
    then have "store_char (uint c) s = Ret () s" using room by (auto simp: store_char_def uint_byte_eq)
    moreover have "q' = cons_lines ?cn" "ed' = cons_edit ?cn" "line_echo c (cons_view s) = []"
      using v c False by (auto simp: line_edit_def line_echo_def)
    ultimately show ?thesis using ok by (intro exI[of _ ?cn] exI[of _ 0]) (simp add: upd_cons_def)
  next
    case True
    define b where "b = (if c = 13 then 10 else c)"
    let ?cn1 = "cons_store b ?cn"
    let ?s1 = "upd_cons (\<lambda>_. ?cn1) (sent [b] 1 s)"
    have lt: "?n < 128" using True by simp
    note st = cons_store_view[OF ok lt, of b]
    have echo: "line_echo c (cons_view s) = [b]" using True c by (simp add: line_echo_def b_def)
    have b: "word_of_int (if uint c = 13 then 10 else uint c) = b" by (simp add: b_def uint_byte_eq)
    have bi: "(if uint c = 13 then 10 else uint c) = uint b" by (simp add: b_def uint_byte_eq)
    have full: "cons_e ?cn1 - cons_r ?cn1 = 128 \<longleftrightarrow> ?n = 127"
    proof -
      have "unat (cons_e ?cn - cons_r ?cn + 1) = ?n + 1" using tot(2) lt by (simp add: unat_plus_if')
      moreover have "cons_e ?cn1 - cons_r ?cn1 = cons_e ?cn - cons_r ?cn + 1" by (simp add: cons_store_def)
      ultimately have "unat (cons_e ?cn1 - cons_r ?cn1) = ?n + 1" by (simp only:)
      then show ?thesis unfolding word_unat_eq_iff by simp
    qed
    have ready: "b = 10 \<or> b = 4 \<or> ?n = 127 \<longleftrightarrow> uint b = 10 \<or> uint b = 4 \<or> cons_e ?cn1 - cons_r ?cn1 = INPUT_BUF_SIZE"
      using full by (simp add: uint_byte_eq)
    have run: "store_char (uint c) s = whenK (b = 10 \<or> b = 4 \<or> ?n = 127)
        (thenK (modK (upd_cons (\<lambda>cn. cn\<lparr>cons_w := cons_e cn\<rparr>))) (wakeup ChConsR)) ?s1"
      unfolding ready using True room assms(2) bi
      by (simp add: store_char_def uint_byte_eq consputc_char Let_def cons_store_def) (simp add: upd_cons_def)
    show ?thesis
    proof (cases "b = 10 \<or> b = 4 \<or> ?n = 127")
      case full: True
      then have q: "q' = cons_lines ?cn @ cons_edit ?cn @ [b]" "ed' = []"
        using v True c by (auto simp: line_edit_def b_def Let_def split: if_splits)
      have "unat (cons_w ?cn1 - cons_r ?cn1) + unat (cons_e ?cn1 - cons_w ?cn1) \<le> 128"
        using arg_cong[OF st(1), of length] arg_cong[OF st(2), of length] lt by (simp add: cons_lines_def cons_edit_def)
      note cm = cons_commit[OF this]
      let ?cn2 = "?cn1\<lparr>cons_w := cons_e ?cn1\<rparr>"
      have "cons_ok ?cn2" using ok lt unfolding cons_ok_def cm st by (simp add: cons_store_def)
      moreover have "store_char (uint c) s = Ret () (woken ChConsR (upd_cons (\<lambda>_. ?cn2) (sent [b] 1 s)))"
        unfolding run using full assms(3,4) wakeup_eq[of "upd_cons (\<lambda>_. ?cn2) (sent [b] 1 s)" ChConsR]
        by (simp add: proc_locks_free_def)
      ultimately show ?thesis using q cm st echo by (intro exI[of _ ?cn2] exI[of _ 1]) simp
    next
      case False
      then have q: "q' = cons_lines ?cn" "ed' = cons_edit ?cn @ [b]"
        using v True c by (auto simp: line_edit_def b_def Let_def split: if_splits)
      have "cons_ok ?cn1" using ok lt False unfolding cons_ok_def st by (simp add: cons_store_def)
      then show ?thesis using q st echo run False by (intro exI[of _ ?cn1] exI[of _ 1]) simp
    qed
  qed
qed

lemma consoleintr_eq:
  assumes r: "cons_ready s" and c: "c \<noteq> 16"
  shows "\<exists>cn k w. consoleintr (uint c) s = Ret () ((if w then woken ChConsR else id)
      (upd_cons (\<lambda>_. cn) (sent (line_echo c (cons_view s)) k s))) \<and> cons_ok cn \<and>
    (cons_lines cn, cons_edit cn) = line_edit c (cons_view s) \<and> (w \<longleftrightarrow> cons_lines cn \<noteq> cons_lines (cons s))"
proof -
  note d = r[unfolded cons_ready_def]
  let ?s = "s\<lparr>held := LCons # held s\<rparr>"
  have fin: "(woken ChConsR (upd_cons f (sent bs k ?s)))\<lparr>held := held s\<rparr> = woken ChConsR (upd_cons f (sent bs k s))"
    "(upd_cons f (sent bs k ?s))\<lparr>held := held s\<rparr> = upd_cons f (sent bs k s)" for f bs k
    by (simp_all add: woken_ptr_def upd_cons_def sent_def upd_uart_def)
  consider "c = 21" | "c = 8 \<or> c = 0x7f" | "c \<notin> {21, 8, 0x7f}" by auto
  then show ?thesis
  proof cases
    case 1
    have n: "unat (cons_e (cons s) - cons_w (cons s)) = length (cons_edit (cons s))" by (simp add: cons_edit_def)
    obtain cn k where cn: "kill_line (length (cons_edit (cons s)) + 1) ?s =
        Ret () (upd_cons (\<lambda>_. cn) (sent (concat (replicate (length (cons_edit (cons s))) [8, 32, 8])) k ?s))"
        "cons_ok cn" "cons_lines cn = cons_lines (cons s)" "cons_edit cn = []"
      using kill_line_eq[of ?s "length (cons_edit (cons s)) + 1"] d by auto
    have "consoleintr (uint c) s = Ret () (upd_cons (\<lambda>_. cn) (sent (line_echo c (cons_view s)) k s))"
      using cn(1) d 1 n fin(2) by (simp add: consoleintr_def line_echo_def del: kill_line.simps)
    then show ?thesis using cn 1 by (intro exI[of _ cn] exI[of _ k] exI[of _ False]) (simp add: line_edit_def)
  next
    case 2
    show ?thesis
    proof (cases "cons_e (cons s) = cons_w (cons s)")
      case True
      then have "cons_edit (cons s) = []" by (simp add: cons_edit_empty)
      moreover have "consoleintr (uint c) s = Ret () s"
        using d 2 c True by (auto simp: consoleintr_def uint_byte_eq erase_char_def)
      ultimately show ?thesis using d 2
        by (intro exI[of _ "cons s"] exI[of _ 0] exI[of _ False]) (auto simp: line_edit_def line_echo_def upd_cons_def)
    next
      case False
      note e = cons_erase[OF False]
      let ?cn = "(cons s)\<lparr>cons_e := cons_e (cons s) - 1\<rparr>"
      have "consoleintr (uint c) s = Ret () (upd_cons (\<lambda>_. ?cn) (sent [8, 32, 8] 3 s))"
        using d 2 c False by (auto simp: consoleintr_def uint_byte_eq erase_char_def consputc_backspace)
          (simp_all add: upd_cons_def sent_def upd_uart_def)
      moreover have "cons_edit (cons s) \<noteq> []" "butlast (cons_edit (cons s)) = cons_edit ?cn" using e(1) by simp_all
      ultimately show ?thesis using d 2 e(2,3)
        by (intro exI[of _ ?cn] exI[of _ 3] exI[of _ False]) (auto simp: line_edit_def line_echo_def)
    qed
  next
    case 3
    obtain q' ed' where v: "line_edit c (cons_view s) = (q', ed')" by force
    have "\<exists>cn k. store_char (uint c) ?s = Ret () ((if q' = cons_lines (cons ?s) then id else woken ChConsR)
      (upd_cons (\<lambda>_. cn) (sent (line_echo c (cons_view ?s)) k ?s))) \<and> cons_ok cn \<and> cons_lines cn = q' \<and> cons_edit cn = ed'"
      using d v 3 by (intro store_char_eq) (simp_all add: proc_locks_free_def)
    then obtain cn k where cn: "store_char (uint c) ?s = Ret () ((if q' = cons_lines (cons s) then id else woken ChConsR)
      (upd_cons (\<lambda>_. cn) (sent (line_echo c (cons_view s)) k ?s)))" "cons_ok cn" "cons_lines cn = q'" "cons_edit cn = ed'" by auto
    have "consoleintr (uint c) s = Ret () ((if q' = cons_lines (cons s) then id else woken ChConsR)
      (upd_cons (\<lambda>_. cn) (sent (line_echo c (cons_view s)) k s)))"
      using d 3 c cn(1) fin by (simp add: consoleintr_def uint_byte_eq split: if_splits)
    then show ?thesis using cn v by (intro exI[of _ cn] exI[of _ k] exI[of _ "q' \<noteq> cons_lines (cons s)"]) (simp split: if_splits)
  qed
qed


lemma uartintr_loop_eq:
  assumes "cons_ready s" and "hw_rx (uart s) = rx" and "16 \<notin> set rx" and "length rx < fuel"
  shows "\<exists>t. uartintr_loop fuel s = Ret () t \<and> cons_ready t \<and> cons_view t = fold line_edit rx (cons_view s) \<and> hw_rx (uart t) = [] \<and>
    held t = held s \<and> tx_queue (uart t) = tx_queue (uart s) \<and> tx_buf (uart t) = tx_buf (uart s)"
  using assms
proof (induction rx arbitrary: s fuel)
  case Nil
  then show ?case by (cases fuel) (auto simp: uartgetc_def)
next
  case (Cons c rx)
  obtain f where f: "fuel = Suc f" "length rx < f" using Cons.prems(4) by (cases fuel) auto
  let ?s = "upd_uart (\<lambda>u. u\<lparr>hw_rx := rx\<rparr>) s"
  have g: "uartgetc s = Ret (uint c) ?s" using Cons.prems(2) by (simp add: uartgetc_def)
  have r: "cons_ready ?s" using Cons.prems(1) by (simp add: cons_ready_def)
  obtain cn k w where c: "consoleintr (uint c) ?s = Ret () ((if w then woken ChConsR else id)
      (upd_cons (\<lambda>_. cn) (sent (line_echo c (cons_view ?s)) k ?s)))" "cons_ok cn" "(cons_lines cn, cons_edit cn) = line_edit c (cons_view ?s)"
    using consoleintr_eq[OF r, of c] Cons.prems(3) by auto
  let ?t = "(if w then woken ChConsR else id) (upd_cons (\<lambda>_. cn) (sent (line_echo c (cons_view ?s)) k ?s))"
  have "cons_ready ?t" using r c(2) by (simp add: cons_ready_def) (simp add: proc_locks_free_def)
  moreover have "hw_rx (uart ?t) = rx" by simp
  ultimately obtain t where t: "uartintr_loop f ?t = Ret () t" "cons_ready t" "cons_view t = fold line_edit rx (cons_view ?t)"
      "hw_rx (uart t) = []" "held t = held ?t" "tx_queue (uart t) = tx_queue (uart ?t)" "tx_buf (uart t) = tx_buf (uart ?t)"
    using Cons.IH[of ?t f] Cons.prems(3) f(2) by auto
  have "uint c \<noteq> - 1" using uint_ge_0[of c] by linarith
  then have "uartintr_loop fuel s = Ret () t" using g c(1) t(1) f(1) by simp
  moreover have "cons_view ?t = line_edit c (cons_view s)" using c(3) by simp
  moreover have "tx_queue (u\<lparr>hw_rx := rx\<rparr>) = tx_queue u" for u by (simp add: tx_queue_def)
  ultimately show ?case using t by (intro exI[of _ t]) simp
qed

section \<open>Reading\<close>

text \<open>
  What a read of \<open>n\<close> bytes takes from the queue of lines: up to and including a newline, or up to a ^D, which is
  consumed only if it is the first byte; \<^const>\<open>None\<close> if the reader has to wait for more input.
\<close>

fun line_read :: "bool \<Rightarrow> nat \<Rightarrow> bytes \<Rightarrow> (bytes \<times> bytes) option" where
  "line_read first 0 q = Some ([], q)"
| "line_read first (Suc n) [] = None"
| "line_read first (Suc n) (c # q) =
     (if c = 4 then Some ([], if first then q else c # q)
      else if c = 10 then Some ([c], q)
      else map_option (\<lambda>(out, rest). (c # out, rest)) (line_read False n q))"

lemma cons_get:
  assumes "cons_r cn \<noteq> cons_w cn"
  shows "cons_lines cn = cons_buf cn ! cons_idx (cons_r cn) # cons_lines (cn\<lparr>cons_r := cons_r cn + 1\<rparr>)"
  using cring.pop[of "cons_w cn" "cons_r cn" "cons_buf cn"] assms by (auto simp: cons_lines_def cons_idx_eq)

lemma cons_edit_r [simp]: "cons_edit (cn\<lparr>cons_r := x\<rparr>) = cons_edit cn"
  by (simp add: cons_edit_def)

lemma either_copyout_user:
  "curproc s = Some p \<Longrightarrow> either_copyout UserDst dst bs s = (case copyout (p_pagetable (procs s ! p)) dst bs s of
     Ret r t \<Rightarrow> Ret (r, []) t | Panic m \<Rightarrow> Panic m | Swtch c t \<Rightarrow> Swtch c t | Spin \<Rightarrow> Spin)"
  by (simp add: either_copyout_def my_pagetable_def bindO_def split: outcome.splits)

lemma sint_diff_small: "k \<le> n \<Longrightarrow> n < 2 ^ 31 \<Longrightarrow> sint (of_nat n - of_nat k :: uint) = int (n - k)"
proof -
  assume "k \<le> n" "n < 2 ^ 31"
  then have e: "(of_nat n - of_nat k :: uint) = word_of_int (int (n - k))" by (simp add: of_nat_diff)
  show ?thesis unfolding e int_word_sint using \<open>n < 2 ^ 31\<close> by simp
qed

lemma of_nat_less_uint: "n < 2 ^ 31 \<Longrightarrow> k \<le> n \<Longrightarrow> (of_nat k < (of_nat n :: uint)) = (k < n)"
  by (simp add: word_less_nat_alt unat_of_nat take_bit_eq_mod)

lemma consoleread_loop_takes:
  assumes "line_read (n = N) n (cons_lines (cons s)) = Some (out, rest)" and "n \<le> N" and "N < 2 ^ 31" and "cons_ok (cons s)"
    and "curproc s = Some p" and "p_pagetable (procs s ! p) = pt" and "held s = LCons # h"
    and "\<And>j. j < length out \<Longrightarrow> uaddr m pt (dst + of_nat j) = Some (pa j)" and "\<And>x. x \<in> R \<Longrightarrow> mem s x = m x"
    and "\<And>j. j < length out \<Longrightarrow> pt_reads m pt (dst + of_nat j) \<subseteq> R \<and> pa j \<notin> R" and "inj_on pa {..<length out}"
  shows "\<exists>m' cn. consoleread_loop n UserDst dst (of_nat N) s =
      Ret (int (N - n + length out)) ((upd_cons (\<lambda>_. cn) s)\<lparr>mem := m', held := h\<rparr>) \<and>
    cons_lines cn = rest \<and> cons_edit cn = cons_edit (cons s) \<and> cons_ok cn \<and>
    (\<forall>j<length out. m' (pa j) = out ! j) \<and> (\<forall>x. x \<notin> pa ` {..<length out} \<longrightarrow> m' x = mem s x)"
  using assms
proof (induction n arbitrary: s dst pa out)
  case 0
  then have "out = []" "rest = cons_lines (cons s)" by simp_all
  moreover have "(upd_cons (\<lambda>_. cons s) s)\<lparr>mem := mem s, held := h\<rparr> = s\<lparr>held := h\<rparr>" by (simp add: upd_cons_def)
  moreover have "sint (of_nat N :: uint) = int N" using sint_diff_small[of 0 N] 0 by simp
  ultimately show ?case using 0 by (intro exI[of _ "mem s"] exI[of _ "cons s"]) simp
next
  case (Suc n)
  let ?cn = "cons s"
  have ne: "cons_r ?cn \<noteq> cons_w ?cn" using Suc.prems(1) cons_lines_empty[of ?cn] by (cases "cons_lines ?cn") auto
  note g = cons_get[OF ne]
  let ?c = "cons_buf ?cn ! cons_idx (cons_r ?cn)" and ?cn1 = "?cn\<lparr>cons_r := cons_r ?cn + 1\<rparr>"
  have ok1: "cons_ok ?cn1" using Suc.prems(4) g by (simp add: cons_ok_def)
  have N: "Suc n \<le> N" "n \<le> N" "n \<noteq> N" using Suc.prems(2) by simp_all
  have r: "sint (of_nat N - of_nat (Suc n) :: uint) = int (N - Suc n)" "sint (of_nat N - of_nat n :: uint) = int (N - n)"
    using sint_diff_small N Suc.prems(3) by blast+
  have lr: "line_read (Suc n = N) (Suc n) (?c # cons_lines ?cn1) = Some (out, rest)" using Suc.prems(1) g by simp
  consider (eof) "?c = 4" | (nl) "?c = 10" | (chr) "?c \<noteq> 4" "?c \<noteq> 10" by blast
  then show ?case
  proof cases
    case eof
    let ?cn2 = "if Suc n = N then ?cn1 else ?cn"
    have o: "out = []" "rest = cons_lines ?cn2" using lr eof g by (auto split: if_splits)
    have "(of_nat (Suc n) < (of_nat N :: uint)) = (Suc n \<noteq> N)" using of_nat_less_uint[of N "Suc n"] Suc.prems(3) N by auto
    then have "consoleread_loop (Suc n) UserDst dst (of_nat N) s = Ret (int (N - Suc n)) ((upd_cons (\<lambda>_. ?cn2) s)\<lparr>mem := mem s, held := h\<rparr>)"
      using ne eof Suc.prems(7) r(1) by (simp add: Let_def uint_byte_eq) (simp add: upd_cons_def)
    then show ?thesis using o ok1 Suc.prems(4) by (intro exI[of _ "mem s"] exI[of _ ?cn2]) simp
  next
    case nl
    have o: "out = [?c]" "rest = cons_lines ?cn1" using lr nl by simp_all
    have "copyout pt dst [?c] (upd_cons (\<lambda>_. ?cn1) s) = Ret 0 ((upd_cons (\<lambda>_. ?cn1) s)\<lparr>mem := (mem s)(pa 0 := ?c)\<rparr>)"
      using copyout_byte[of m pt dst "pa 0" "upd_cons (\<lambda>_. ?cn1) s" ?c] Suc.prems(8)[of 0] Suc.prems(9) Suc.prems(10)[of 0] o
      by (simp add: subset_iff)
    then have "consoleread_loop (Suc n) UserDst dst (of_nat N) s = Ret (int (N - n)) ((upd_cons (\<lambda>_. ?cn1) s)\<lparr>mem := (mem s)(pa 0 := ?c), held := h\<rparr>)"
      using ne nl Suc.prems(5-7) r(2) by (simp add: Let_def uint_byte_eq either_copyout_user) (simp add: upd_cons_def)
    then show ?thesis using o ok1 N by (intro exI[of _ "(mem s)(pa 0 := ?c)"] exI[of _ ?cn1]) (simp add: Suc_diff_le del: consoleread_loop.simps, simp add: fun_upd_def)
  next
    case chr
    obtain out' where o: "line_read False n (cons_lines ?cn1) = Some (out', rest)" "out = ?c # out'"
      using lr chr by (auto split: if_splits)
    let ?s1 = "upd_cons (\<lambda>_. ?cn1) s"
    let ?s2 = "?s1\<lparr>mem := (mem s)(pa 0 := ?c)\<rparr>"
    have "copyout pt dst [?c] ?s1 = Ret 0 ?s2"
      using copyout_byte[of m pt dst "pa 0" ?s1 ?c] Suc.prems(8)[of 0] Suc.prems(9) Suc.prems(10)[of 0] o
      by (simp add: subset_iff)
    then have step: "consoleread_loop (Suc n) UserDst dst (of_nat N) s = consoleread_loop n UserDst (dst + 1) (of_nat N) ?s2"
      using ne chr Suc.prems(5-7) by (simp add: Let_def uint_byte_eq either_copyout_user) (simp add: upd_cons_def)
    have "\<exists>m' cn. consoleread_loop n UserDst (dst + 1) (of_nat N) ?s2 =
        Ret (int (N - n + length out')) ((upd_cons (\<lambda>_. cn) ?s2)\<lparr>mem := m', held := h\<rparr>) \<and>
      cons_lines cn = rest \<and> cons_edit cn = cons_edit (cons ?s2) \<and> cons_ok cn \<and>
      (\<forall>j<length out'. m' ((pa \<circ> Suc) j) = out' ! j) \<and> (\<forall>x. x \<notin> (pa \<circ> Suc) ` {..<length out'} \<longrightarrow> m' x = mem ?s2 x)"
    proof (rule Suc.IH)
      show "line_read (n = N) n (cons_lines (cons ?s2)) = Some (out', rest)" using o(1) N by simp
      show "uaddr m pt (dst + 1 + of_nat j) = Some ((pa \<circ> Suc) j)" if "j < length out'" for j
        using Suc.prems(8)[of "Suc j"] that o(2) by (simp add: add.assoc)
      show "mem ?s2 x = m x" if "x \<in> R" for x using Suc.prems(9)[OF that] Suc.prems(10)[of 0] o(2) that by auto
      show "pt_reads m pt (dst + 1 + of_nat j) \<subseteq> R \<and> (pa \<circ> Suc) j \<notin> R" if "j < length out'" for j
        using Suc.prems(10)[of "Suc j"] that o(2) by (simp add: add.assoc)
      show "inj_on (pa \<circ> Suc) {..<length out'}"
        using Suc.prems(11) o(2) by (auto simp: inj_on_def)
    qed (use Suc.prems ok1 N in simp_all)
    then obtain m' cn where t: "consoleread_loop n UserDst (dst + 1) (of_nat N) ?s2 =
        Ret (int (N - n + length out')) ((upd_cons (\<lambda>_. cn) ?s2)\<lparr>mem := m', held := h\<rparr>)"
      "cons_lines cn = rest" "cons_edit cn = cons_edit ?cn" "cons_ok cn" "\<forall>j<length out'. m' (pa (Suc j)) = out' ! j"
      "\<And>x. x \<notin> (pa \<circ> Suc) ` {..<length out'} \<Longrightarrow> m' x = mem ?s2 x" by auto
    have e: "(upd_cons (\<lambda>_. cn) ?s2)\<lparr>mem := m', held := h\<rparr> = (upd_cons (\<lambda>_. cn) s)\<lparr>mem := m', held := h\<rparr>" by (simp add: upd_cons_def)
    have img: "pa ` {..<length out} = insert (pa 0) ((pa \<circ> Suc) ` {..<length out'})"
      unfolding o(2) by (simp add: lessThan_Suc_eq_insert_0 image_comp)
    have "pa 0 \<notin> (pa \<circ> Suc) ` {..<length out'}" using Suc.prems(11) o(2) by (auto simp: inj_on_def)
    then have "m' (pa 0) = ?c" using t(6) by simp
    then have "m' (pa j) = out ! j" if "j < length out" for j using t(5) that o(2) by (cases j) simp_all
    moreover have "m' x = mem s x" if "x \<notin> pa ` {..<length out}" for x using t(6)[of x] that unfolding img by auto
    moreover have "N - n + length out' = N - Suc n + length out" using N o(2) by simp
    ultimately show ?thesis using t(1-4) unfolding step e by (intro exI[of _ m'] exI[of _ cn]) simp
  qed
qed


section \<open>Properties\<close>

text \<open>
  (C19) The UART interrupt, without ^P (which prints the process list).  \<open>uartintr\<close> returns, having
  processed every byte that arrived: the waiting lines and the line being edited are what the line discipline makes of the
  bytes one after the other, with erase, kill, end of line and end of file; the console's invariant is kept,
  and the transmitter is restarted.
\<close>

theorem uartintr_lines:
  assumes "cons_ready s" and "uart_ready s" and "16 \<notin> set (hw_rx (uart s))"
  shows "\<exists>t. uartintr s = Ret () t \<and> cons_view t = fold line_edit (hw_rx (uart s)) (cons_view s) \<and>
    cons_ready t \<and> uart_ready t \<and> held t = held s"
proof -
  note u = assms(2)[unfolded uart_ready_def]
  obtain t where t: "uartintr_loop (length (hw_rx (uart s)) + 1) s = Ret () t" "cons_ready t"
      "cons_view t = fold line_edit (hw_rx (uart s)) (cons_view s)" "held t = held s"
      "tx_queue (uart t) = tx_queue (uart s)" "tx_buf (uart t) = tx_buf (uart s)"
    using uartintr_loop_eq[OF assms(1) refl assms(3), of "length (hw_rx (uart s)) + 1"] by auto
  note c = t(2)[unfolded cons_ready_def]
  let ?t = "t\<lparr>held := LUart # held t\<rparr>"
  define k where "k = idle_run (hw_idle (uart t)) (length (tx_queue (uart t)))"
  have "\<exists>u. uartstart_loop (length (tx_queue (uart t)) + 1) ?t = Ret () ((if k = 0 then id else woken ChUartR) (upd_uart (\<lambda>_. u) ?t)) \<and>
    tx_queue u = drop k (tx_queue (uart ?t)) \<and> hw_thr u = hw_thr (uart ?t) @ take k (tx_queue (uart ?t)) \<and> tx_buf u = tx_buf (uart ?t) \<and>
    (hw_idle (uart ?t) = [] \<longrightarrow> hw_idle u = [])"
    using c by (intro uartstart_loop_sends) (simp_all add: k_def proc_locks_free_def)
  then obtain v where v: "uartstart_loop (length (tx_queue (uart t)) + 1) ?t = Ret () ((if k = 0 then id else woken ChUartR) (upd_uart (\<lambda>_. v) ?t))"
    "tx_queue v = drop k (tx_queue (uart t))" "tx_buf v = tx_buf (uart t)" by auto
  let ?r = "(if k = 0 then id else woken ChUartR) (upd_uart (\<lambda>_. v) t)"
  have "uartstart ?t = Ret () ((if k = 0 then id else woken ChUartR) (upd_uart (\<lambda>_. v) ?t))"
    using v(1) by (simp add: uartstart_def tx_queue_def)
  then have "uartintr s = Ret () ?r"
    using t(1,4) u by (simp add: uartintr_def) (simp add: upd_uart_def woken_ptr_def)
  moreover have "uart_ok v" using u v(2,3) t(5,6) by (auto simp: uart_ok_def)
  then have "cons_ready ?r" "uart_ready ?r" using c u t(4) by (simp_all add: cons_ready_def uart_ready_def)
  ultimately show ?thesis using t by (intro exI[of _ ?r]) simp
qed

text \<open>A console to try it on: ``x'' is being edited, and \<open>rx\<close> arrives.\<close>

definition cons_state :: "bytes \<Rightarrow> kstate" where
  "cons_state rx = upd_proc 0 (\<lambda>p. p\<lparr>p_pagetable := 0x80001000\<rparr>)
     ((boot_state 0 0 0 zero_symbols (\<lambda>_. []))\<lparr>mem := test_mem 0x17, curproc := Some 0,
       cons := cons_store 120 \<lparr>cons_buf = replicate 128 0, cons_r = 0xFFFFFFFF, cons_w = 0xFFFFFFFF, cons_e = 0xFFFFFFFF\<rparr>,
       uart := \<lparr>tx_buf = replicate 32 0, tx_w = 0, tx_r = 0, hw_rx = rx, hw_thr = [], hw_idle = [], hw_cfg = []\<rparr>\<rparr>)"

lemma cons_state_fields:
  "cons_view (cons_state rx) = ([], [120])" "hw_rx (uart (cons_state rx)) = rx" "cons_ready (cons_state rx)" "uart_ready (cons_state rx)"
  "held (cons_state rx) = []" "curproc (cons_state rx) = Some 0" "p_pagetable (procs (cons_state rx) ! 0) = 0x80001000"
  "mem (cons_state rx) = test_mem 0x17"
proof -
  show v: "cons_view (cons_state rx) = ([], [120])"
    by (simp add: cons_state_def cons_store_def cons_lines_def cons_edit_def ring_queue_def cons_idx_eq upd_proc_def)
  then show "cons_ready (cons_state rx)"
    by (simp add: cons_ready_def cons_ok_def) (simp add: cons_state_def cons_store_def proc_locks_free_def upd_proc_def boot_state_def)
  show "uart_ready (cons_state rx)"
    by (simp add: uart_ready_def uart_ok_def tx_queue_def cons_state_def proc_locks_free_def upd_proc_def boot_state_def)
qed (simp_all add: cons_state_def upd_proc_def boot_state_def)

text \<open>Typing b, backspace, c and return completes the line ``xc''.\<close>

theorem uartintr_lines_witness:
  "\<exists>t. uartintr (cons_state [98, 8, 99, 13]) = Ret () t \<and> cons_view t = ([120, 99, 10], [])"
  using uartintr_lines[OF cons_state_fields(3,4), of "[98, 8, 99, 13]"]
  by (auto simp: cons_state_fields(1,2) line_edit_def)

text \<open>
  (C20) Reading the console.  If enough input is waiting, \<open>consoleread\<close> delivers to the user's buffer what a read of
  \<open>n\<close> bytes takes from the waiting lines: at most one line, at most \<open>n\<close> bytes, and an
  end-of-file mark ends it and is used up only by a read that would otherwise return nothing; it
  returns their number, takes nothing else from the queue and leaves the line being edited alone.
\<close>

theorem consoleread_takes:
  assumes "line_read True n (cons_lines (cons s)) = Some (out, rest)" and "n < 2 ^ 31" and ok: "cons_ok (cons s)"
    and "curproc s \<noteq> None" and "held s = []"
    and map: "\<And>j. j < length out \<Longrightarrow> uaddr (mem s) (my_pt s) (dst + of_nat j) = Some (pa j)" and inj: "inj_on pa {..<length out}"
    and sep: "\<And>i j. i < length out \<Longrightarrow> j < length out \<Longrightarrow> pa i \<notin> pt_reads (mem s) (my_pt s) (dst + of_nat j)"
  shows "\<exists>t. consoleread UserDst dst (int n) s = Ret (int (length out)) t \<and> cons_view t = (rest, cons_edit (cons s)) \<and> cons_ok (cons t) \<and>
    held t = [] \<and> (\<forall>j<length out. mem t (pa j) = out ! j) \<and> (\<forall>x. x \<notin> pa ` {..<length out} \<longrightarrow> mem t x = mem s x)"
proof -
  obtain p where p: "curproc s = Some p" using assms(4) by blast
  define R where "R = (\<Union>j<length out. pt_reads (mem s) (my_pt s) (dst + of_nat j))"
  have sub: "pt_reads (mem s) (my_pt s) (dst + of_nat j) \<subseteq> R \<and> pa j \<notin> R" if "j < length out" for j using sep that by (auto simp: R_def)
  let ?s = "s\<lparr>held := [LCons]\<rparr>"
  have pt: "p_pagetable (procs ?s ! p) = my_pt s" using p by (simp add: my_pt_def)
  have "\<exists>m' cn. consoleread_loop n UserDst dst (of_nat n) ?s =
      Ret (int (n - n + length out)) ((upd_cons (\<lambda>_. cn) ?s)\<lparr>mem := m', held := []\<rparr>) \<and>
    cons_lines cn = rest \<and> cons_edit cn = cons_edit (cons ?s) \<and> cons_ok cn \<and>
    (\<forall>j<length out. m' (pa j) = out ! j) \<and> (\<forall>x. x \<notin> pa ` {..<length out} \<longrightarrow> m' x = mem ?s x)"
    using assms(1,2) ok p by (intro consoleread_loop_takes[OF _ order_refl _ _ _ pt _ map _ sub inj]) simp_all
  then obtain m' cn where t: "consoleread_loop n UserDst dst (of_nat n) ?s =
      Ret (int (length out)) ((upd_cons (\<lambda>_. cn) ?s)\<lparr>mem := m', held := []\<rparr>)"
    "cons_lines cn = rest" "cons_edit cn = cons_edit (cons s)" "cons_ok cn"
    "\<forall>j<length out. m' (pa j) = out ! j" "\<forall>x. x \<notin> pa ` {..<length out} \<longrightarrow> m' x = mem s x" by auto
  have z: "n = 0 \<Longrightarrow> out = [] \<and> rest = cons_lines (cons s)" using assms(1) by simp
  show ?thesis
  proof (cases "n = 0")
    case True
    then have "consoleread UserDst dst (int n) s = Ret 0 s" using assms(5) by (simp add: consoleread_def)
    then show ?thesis using z True ok assms(5) by (intro exI[of _ s]) simp
  next
    case False
    then have "consoleread UserDst dst (int n) s = Ret (int (length out)) ((upd_cons (\<lambda>_. cn) ?s)\<lparr>mem := m', held := []\<rparr>)"
      using t(1) assms(5) by (simp add: consoleread_def)
    then show ?thesis using t by (intro exI[of _ "(upd_cons (\<lambda>_. cn) ?s)\<lparr>mem := m', held := []\<rparr>"]) simp
  qed
qed


definition read_state :: kstate where
  "read_state = (cons_state [])\<lparr>cons := \<lparr>cons_buf = (replicate 128 7)[127 := 104, 0 := 10], cons_r = 0xFFFFFFFF, cons_w = 2, cons_e = 3\<rparr>\<rparr>"

lemma read_state_view: "cons_view read_state = ([104, 10, 7], [7])"
  by (simp add: read_state_def cons_lines_def cons_edit_def ring_queue_def upt_rec)

theorem consoleread_takes_witness:
  "\<exists>t. consoleread UserDst 0 100 read_state = Ret 2 t \<and> cons_view t = ([7], [7]) \<and> mem t 0x80004000 = 104"
proof -
  let ?pa = "\<lambda>k. 0x80004000 + of_nat k :: uint64"
  have m: "mem read_state = test_mem 0x17" "my_pt read_state = 0x80001000" "held read_state = []" "curproc read_state \<noteq> None"
    using cons_state_fields(5-8)[of "[]"] by (simp_all add: read_state_def my_pt_def)
  have "\<exists>t. consoleread UserDst 0 (int 100) read_state = Ret (int (length [104, 10 :: uchar])) t \<and>
      cons_view t = ([7], cons_edit (cons read_state)) \<and> cons_ok (cons t) \<and> held t = [] \<and>
      (\<forall>j<length [104, 10 :: uchar]. mem t (?pa j) = [104, 10] ! j) \<and>
      (\<forall>x. x \<notin> ?pa ` {..<length [104, 10 :: uchar]} \<longrightarrow> mem t x = mem read_state x)"
  proof (rule consoleread_takes)
    show "line_read True 100 (cons_lines (cons read_state)) = Some ([104, 10], [7])"
    proof -
      have "line_read True (Suc (Suc 98)) [104, 10, 7] = Some ([104, 10], [7])" by (simp del: numeral_eq_Suc Suc_numeral)
      moreover have "Suc (Suc 98) = (100 :: nat)" by simp
      ultimately have "line_read True 100 [104, 10, 7] = Some ([104, 10], [7])" by (simp only:)
      then show ?thesis using read_state_view by simp
    qed
    show "cons_ok (cons read_state)" using read_state_view by (simp add: cons_ok_def) (simp add: read_state_def)
    show "uaddr (mem read_state) (my_pt read_state) (0 + of_nat j) = Some (?pa j)" if "j < length [104, 10 :: uchar]" for j
      using that test_mem_page(1)[of "0x17" j] m by simp
    show "inj_on ?pa {..<length [104, 10 :: uchar]}" by (rule test_mem_inj) simp
    show "?pa i \<notin> pt_reads (mem read_state) (my_pt read_state) (0 + of_nat j)"
      if "i < length [104, 10 :: uchar]" "j < length [104, 10 :: uchar]" for i j
      using that test_mem_sep[of "0x17" i j] m by simp
  qed (use m in simp_all)
  then obtain t where t: "consoleread UserDst 0 100 read_state = Ret 2 t" "cons_view t = ([7], [7])"
      "\<forall>j<2. mem t (?pa j) = [104, 10] ! j" using read_state_view by auto
  from t(3)[rule_format, of 0] t(1,2) show ?thesis by auto
qed

end
