(* ===== verification/Xv6_File.thy ===== *)
theory Xv6_File
  imports Xv6_Fs Xv6_Pipe Xv6_Console
begin

text \<open>
  \<^verbatim>\<open>kernel/file.c\<close> and \<open>pipealloc\<close> of \<^verbatim>\<open>kernel/pipe.c\<close>.  A \<open>struct file *\<close> is an index of the
  file table.
\<close>

section \<open>Operations\<close>

definition fileinit :: "unit kernel" where
  "fileinit = retK ()"

definition filealloc :: "nat option kernel" where
  "filealloc =
     thenK (acquire LFtable)
    (bindK (getK ftable) (\<lambda>tab.
       case List.find (\<lambda>f. f_ref (tab ! f) = 0) [0..<NFILE] of
         Some f \<Rightarrow> thenK (modK (upd_file f (\<lambda>x. x\<lparr>f_ref := 1\<rparr>))) (thenK (release LFtable) (retK (Some f)))
       | None \<Rightarrow> thenK (release LFtable) (retK None)))"

definition filedup :: "nat \<Rightarrow> nat kernel" where
  "filedup f =
     thenK (acquire LFtable)
    (bindK (getK (\<lambda>s. f_ref (ftable s ! f))) (\<lambda>ref.
       if ref < 1 then panicK ''filedup''
       else thenK (modK (upd_file f (\<lambda>x. x\<lparr>f_ref := f_ref x + 1\<rparr>)))
           (thenK (release LFtable)
                  (retK f))))"

definition fileclose :: "nat \<Rightarrow> unit kernel" where
  "fileclose f =
     thenK (acquire LFtable)
    (bindK (getK (\<lambda>s. f_ref (ftable s ! f))) (\<lambda>ref.
       if ref < 1 then panicK ''fileclose''
       else thenK (modK (upd_file f (\<lambda>x. x\<lparr>f_ref := f_ref x - 1\<rparr>)))
         (if ref - 1 > 0 then release LFtable
          else bindK (getK (\<lambda>s. ftable s ! f)) (\<lambda>ff.
            thenK (modK (upd_file f (\<lambda>x. x\<lparr>f_ref := 0, f_type := FD_NONE\<rparr>)))
           (thenK (release LFtable)
             (if f_type ff = FD_PIPE then pipeclose (f_pipe ff) (f_writable ff)
              else whenK (f_type ff = FD_INODE \<or> f_type ff = FD_DEVICE)
                (thenK begin_op (thenK (iput (f_ip ff)) end_op))))))))"

text \<open>The layout of \<open>struct stat\<close>; the four bytes before the 64-bit size are padding.\<close>

definition stat_bytes :: "stat \<Rightarrow> bytes \<Rightarrow> bytes" where
  "stat_bytes st pad = bytes_of 4 (st_dev st) @ bytes_of 4 (st_ino st) @ bytes_of 2 (st_type st) @
     bytes_of 2 (st_nlink st) @ pad @ bytes_of 8 (st_size st)"

definition stat_pad :: "kstate \<Rightarrow> bytes" where
  "stat_pad s = take 4 (stack_junk s @ replicate 4 0)"

definition filestat :: "nat \<Rightarrow> uint64 \<Rightarrow> int kernel" where
  "filestat f addr = bindK my_pagetable (\<lambda>pt.
     bindK (getK (\<lambda>s. ftable s ! f)) (\<lambda>fl.
     if f_type fl = FD_INODE \<or> f_type fl = FD_DEVICE then
       thenK (ilock (Some (f_ip fl)))
      (bindK (stati (f_ip fl)) (\<lambda>st.
       thenK (iunlock (Some (f_ip fl)))
      (bindK (getK stat_pad) (\<lambda>pad.
       bindK (copyout pt addr (stat_bytes st pad)) (\<lambda>r.
       retK (if r < 0 then - 1 else 0))))))
     else retK (- 1)))"

definition fileread :: "nat \<Rightarrow> uint64 \<Rightarrow> int \<Rightarrow> int kernel" where
  "fileread f addr n = bindK (getK (\<lambda>s. ftable s ! f)) (\<lambda>fl.
     if \<not> f_readable fl then retK (- 1)
     else if f_type fl = FD_PIPE then piperead (f_pipe fl) addr n
     else if f_type fl = FD_DEVICE then
       (if sint (f_major fl) < 0 \<or> sint (f_major fl) \<ge> int NDEV then retK (- 1)
        else bindK (getK (\<lambda>s. fst (devsw s ! unat (f_major fl)))) (\<lambda>rd.
          case rd of NoDev \<Rightarrow> retK (- 1) | ConsoleDev \<Rightarrow> consoleread UserDst addr n))
     else if f_type fl = FD_INODE then
       thenK (ilock (Some (f_ip fl)))
      (bindK (readi (f_ip fl) UserDst addr (f_off fl) (word_of_int n)) (\<lambda>(r, _).
       thenK (whenK (r > 0) (modK (upd_file f (\<lambda>x. x\<lparr>f_off := f_off x + word_of_int r\<rparr>))))
      (thenK (iunlock (Some (f_ip fl)))
             (retK r))))
     else panicK ''fileread'')"

text \<open>The most bytes one transaction of \<open>filewrite\<close> writes.\<close>

definition write_max :: int where
  "write_max = int (((MAXOPBLOCKS - 1 - 1 - 2) div 2) * BSIZE)"

fun filewrite_loop :: "nat \<Rightarrow> nat \<Rightarrow> uint64 \<Rightarrow> int \<Rightarrow> int \<Rightarrow> int kernel" where
  "filewrite_loop 0 f addr n i = (\<lambda>s. Spin)"
| "filewrite_loop (Suc fuel) f addr n i =
     (if i < n then
        let n1 = min (n - i) write_max in
        thenK begin_op
       (bindK (getK (\<lambda>s. ftable s ! f)) (\<lambda>fl.
        thenK (ilock (Some (f_ip fl)))
       (bindK (writei (f_ip fl) UserSrc (addr + of_int i) (f_off fl) (word_of_int n1)) (\<lambda>r.
        thenK (whenK (r > 0) (modK (upd_file f (\<lambda>x. x\<lparr>f_off := f_off x + word_of_int r\<rparr>))))
       (thenK (iunlock (Some (f_ip fl)))
       (thenK end_op
         (if r \<noteq> n1 then retK i else filewrite_loop fuel f addr n (i + r))))))))
      else retK i)"

definition filewrite :: "nat \<Rightarrow> uint64 \<Rightarrow> int \<Rightarrow> int kernel" where
  "filewrite f addr n = bindK (getK (\<lambda>s. ftable s ! f)) (\<lambda>fl.
     if \<not> f_writable fl then retK (- 1)
     else if f_type fl = FD_PIPE then pipewrite (f_pipe fl) addr n
     else if f_type fl = FD_DEVICE then
       (if sint (f_major fl) < 0 \<or> sint (f_major fl) \<ge> int NDEV then retK (- 1)
        else bindK (getK (\<lambda>s. snd (devsw s ! unat (f_major fl)))) (\<lambda>wr.
          case wr of NoDev \<Rightarrow> retK (- 1) | ConsoleDev \<Rightarrow> consolewrite UserSrc addr n))
     else if f_type fl = FD_INODE then
       bindK (filewrite_loop (nat n div 3072 + 2) f addr n 0) (\<lambda>i. retK (if i = n then n else - 1))
     else panicK ''filewrite'')"

definition pipealloc_bad :: "nat option \<Rightarrow> nat option \<Rightarrow> (nat \<times> nat) option kernel" where
  "pipealloc_bad f0 f1 =
     thenK (case f0 of None \<Rightarrow> retK () | Some f \<Rightarrow> fileclose f)
    (thenK (case f1 of None \<Rightarrow> retK () | Some f \<Rightarrow> fileclose f)
           (retK None))"

text \<open>
  \<open>pipealloc\<close> returns the two files, or \<^const>\<open>None\<close> for -1.  The pipe's data is what \<open>kalloc\<close>
  left in the page.
\<close>

definition pipealloc :: "(nat \<times> nat) option kernel" where
  "pipealloc = bindK filealloc (\<lambda>fo0. case fo0 of None \<Rightarrow> pipealloc_bad None None | Some f0 \<Rightarrow>
     bindK filealloc (\<lambda>fo1. case fo1 of None \<Rightarrow> pipealloc_bad (Some f0) None | Some f1 \<Rightarrow>
     bindK kalloc (\<lambda>pi.
       if pi = 0 then pipealloc_bad (Some f0) (Some f1)
       else thenK (modK (upd_pipe pi (\<lambda>_. \<lparr>pi_data = replicate 512 5, pi_nread = 0, pi_nwrite = 0,
                                            pi_readopen = True, pi_writeopen = True\<rparr>)))
           (thenK (modK (upd_file f0 (\<lambda>x. x\<lparr>f_type := FD_PIPE, f_readable := True, f_writable := False, f_pipe := pi\<rparr>)))
           (thenK (modK (upd_file f1 (\<lambda>x. x\<lparr>f_type := FD_PIPE, f_readable := False, f_writable := True, f_pipe := pi\<rparr>)))
                  (retK (Some (f0, f1))))))))"

end
