(* ===== verification/Xv6_Proc.thy ===== *)
theory Xv6_Proc
  imports Xv6_File
begin

text \<open>
  The process table of \<^verbatim>\<open>kernel/proc.c\<close>: allocation and release of processes, \<open>fork\<close>, \<open>exit\<close>,
  \<open>wait\<close>, memory growth and the scheduler (\<open>sleep\<close>, \<open>wakeup\<close>, \<open>kill\<close> are in theory
  \<open>Xv6_Sched\<close>, \<open>either_copyin\<close> and \<open>either_copyout\<close> in \<open>Xv6_Vm\<close>, \<open>procdump\<close> in
  \<open>Xv6_Console\<close>).  The trapframe lives in physical memory, at the byte offsets of
  \<^verbatim>\<open>struct trapframe\<close>.
\<close>

section \<open>Trapframes (kernel/proc.h)\<close>

definition tf_get :: "nat \<Rightarrow> tfreg \<Rightarrow> uint64 kernel" where
  "tf_get p r = getK (\<lambda>s. load64 (mem s) (p_trapframe (procs s ! p) + of_nat (tf_off r)))"

definition tf_set :: "nat \<Rightarrow> tfreg \<Rightarrow> uint64 \<Rightarrow> unit kernel" where
  "tf_set p r v = modK (\<lambda>s. s\<lparr>mem := store64 (mem s) (p_trapframe (procs s ! p) + of_nat (tf_off r)) v\<rparr>)"

section \<open>Allocation\<close>

definition procinit :: "unit kernel" where
  "procinit = forK [0..<NPROC] (\<lambda>i. modK (upd_proc i (\<lambda>p. p\<lparr>p_state := UNUSED, p_kstack := KSTACK i\<rparr>)))"

definition cpuid :: "int kernel" where
  "cpuid = getK (\<lambda>s. sint (ucast (tp (csr s)) :: 32 word))"

text \<open>\<open>nextpid\<close> is a C \<open>int\<close>: counting past the largest one is undefined.\<close>

definition allocpid :: "int kernel" where
  "allocpid =
     thenK (acquire LPid)
    (bindK (getK nextpid) (\<lambda>pid.
     thenK (if pid = 2 ^ 31 - 1 then undefK else modK (\<lambda>s. s\<lparr>nextpid := pid + 1\<rparr>))
    (thenK (release LPid)
           (retK pid))))"

definition proc_freepagetable :: "uint64 \<Rightarrow> uint64 \<Rightarrow> unit kernel" where
  "proc_freepagetable pagetable sz =
     thenK (uvmunmap pagetable TRAMPOLINE 1 False)
    (thenK (uvmunmap pagetable TRAPFRAME 1 False)
           (uvmfree pagetable sz))"

definition freeproc :: "nat \<Rightarrow> unit kernel" where
  "freeproc i = bindK (getK (\<lambda>s. procs s ! i)) (\<lambda>p.
     thenK (whenK (p_trapframe p \<noteq> 0) (kfree (p_trapframe p)))
    (thenK (modK (upd_proc i (\<lambda>p. p\<lparr>p_trapframe := 0\<rparr>)))
    (thenK (whenK (p_pagetable p \<noteq> 0) (proc_freepagetable (p_pagetable p) (p_sz p)))
           (modK (upd_proc i (\<lambda>p. p\<lparr>p_pagetable := 0, p_sz := 0, p_pid := 0, p_parent := None,
              p_name := (p_name p)[0 := 0], p_chan := None, p_killed := False, p_xstate := 0,
              p_state := UNUSED\<rparr>))))))"

definition proc_pagetable :: "nat \<Rightarrow> uint64 kernel" where
  "proc_pagetable i = bindK uvmcreate (\<lambda>pagetable.
     if pagetable = 0 then retK 0
     else bindK (getK k_trampoline) (\<lambda>trampoline.
       bindK (mappages pagetable TRAMPOLINE PGSIZE trampoline (PTE_R OR PTE_X)) (\<lambda>r.
       if r < 0 then thenK (uvmfree pagetable 0) (retK 0)
       else bindK (getK (\<lambda>s. p_trapframe (procs s ! i))) (\<lambda>tf.
         bindK (mappages pagetable TRAPFRAME PGSIZE tf (PTE_R OR PTE_W)) (\<lambda>r.
         if r < 0 then
           thenK (uvmunmap pagetable TRAMPOLINE 1 False)
          (thenK (uvmfree pagetable 0)
                 (retK 0))
         else retK pagetable)))))"

text \<open>The search of \<open>allocproc\<close> leaves the lock of the process it finds held.\<close>

fun allocproc_find :: "nat list \<Rightarrow> nat option kernel" where
  "allocproc_find [] = retK None"
| "allocproc_find (i # is) =
     thenK (acquire (LProc i))
    (bindK (getK (\<lambda>s. p_state (procs s ! i))) (\<lambda>st.
       if st = UNUSED then retK (Some i)
       else thenK (release (LProc i)) (allocproc_find is)))"

definition allocproc :: "nat option kernel" where
  "allocproc = bindK (allocproc_find [0..<NPROC]) (\<lambda>r. case r of None \<Rightarrow> retK None | Some i \<Rightarrow>
     bindK allocpid (\<lambda>pid.
     thenK (modK (upd_proc i (\<lambda>p. p\<lparr>p_pid := pid\<rparr>)))
    (thenK (modK (upd_proc i (\<lambda>p. p\<lparr>p_state := USED\<rparr>)))
    (bindK kalloc (\<lambda>tf.
     thenK (modK (upd_proc i (\<lambda>p. p\<lparr>p_trapframe := tf\<rparr>)))
    (if tf = 0 then thenK (freeproc i) (thenK (release (LProc i)) (retK None))
     else bindK (proc_pagetable i) (\<lambda>pt.
       thenK (modK (upd_proc i (\<lambda>p. p\<lparr>p_pagetable := pt\<rparr>)))
      (if pt = 0 then thenK (freeproc i) (thenK (release (LProc i)) (retK None))
       else thenK (modK (\<lambda>s. upd_proc i (\<lambda>p. p\<lparr>p_context := \<lparr>ctx_ra = sym_forkret (syms s),
                      ctx_sp = p_kstack p + PGSIZE, ctx_s = replicate 12 0\<rparr>\<rparr>) s))
                  (retK (Some i))))))))))"

definition initcode :: bytes where
  "initcode = [
  0x17, 0x05, 0x00, 0x00, 0x13, 0x05, 0x45, 0x02,
  0x97, 0x05, 0x00, 0x00, 0x93, 0x85, 0x35, 0x02,
  0x93, 0x08, 0x70, 0x00, 0x73, 0x00, 0x00, 0x00,
  0x93, 0x08, 0x20, 0x00, 0x73, 0x00, 0x00, 0x00,
  0xef, 0xf0, 0x9f, 0xff, 0x2f, 0x69, 0x6e, 0x69,
  0x74, 0x00, 0x00, 0x24, 0x00, 0x00, 0x00, 0x00,
  0x00, 0x00, 0x00, 0x00]"

definition copy_name :: "bytes \<Rightarrow> bytes \<Rightarrow> bytes" where
  "copy_name old new = splice old 0 (safestrcpy (cstr_of new) 16)"

definition userinit :: "unit kernel" where
  "userinit = bindK allocproc (\<lambda>r.
     thenK (modK (\<lambda>s. s\<lparr>initproc := r\<rparr>))
    (case r of None \<Rightarrow> null_fault | Some p \<Rightarrow>
     bindK (getK (\<lambda>s. p_pagetable (procs s ! p))) (\<lambda>pt.
     thenK (uvmfirst pt initcode)
    (thenK (modK (upd_proc p (\<lambda>q. q\<lparr>p_sz := PGSIZE\<rparr>)))
    (thenK (tf_set p TF_epc 0)
    (thenK (tf_set p TF_sp PGSIZE)
    (thenK (modK (upd_proc p (\<lambda>q. q\<lparr>p_name := copy_name (p_name q) (map of_char ''initcode'')\<rparr>)))
    (bindK (namei [slash]) (\<lambda>cwd.
     thenK (modK (upd_proc p (\<lambda>q. q\<lparr>p_cwd := cwd\<rparr>)))
    (thenK (modK (upd_proc p (\<lambda>q. q\<lparr>p_state := RUNNABLE\<rparr>)))
           (release (LProc p))))))))))))"

definition growproc :: "int \<Rightarrow> int kernel" where
  "growproc n = bindK myproc (\<lambda>p.
     bindK (getK (\<lambda>s. procs s ! p)) (\<lambda>q.
     if n > 0 then
       bindK (uvmalloc (p_pagetable q) (p_sz q) (p_sz q + of_int n) PTE_W) (\<lambda>sz.
         if sz = 0 then retK (- 1)
         else thenK (modK (upd_proc p (\<lambda>q. q\<lparr>p_sz := sz\<rparr>))) (retK 0))
     else if n < 0 then
       bindK (uvmdealloc (p_pagetable q) (p_sz q) (p_sz q + of_int n)) (\<lambda>sz.
         thenK (modK (upd_proc p (\<lambda>q. q\<lparr>p_sz := sz\<rparr>))) (retK 0))
     else thenK (modK (upd_proc p (\<lambda>q'. q'\<lparr>p_sz := p_sz q\<rparr>))) (retK 0)))"

section \<open>fork, exit, wait\<close>

definition fork_file :: "nat \<Rightarrow> nat \<Rightarrow> nat \<Rightarrow> unit kernel" where
  "fork_file p np fd = bindK (getK (\<lambda>s. p_ofile (procs s ! p) ! fd)) (\<lambda>fo.
     case fo of None \<Rightarrow> retK ()
     | Some f \<Rightarrow> bindK (filedup f) (\<lambda>f'.
         modK (upd_proc np (\<lambda>q. q\<lparr>p_ofile := (p_ofile q)[fd := Some f']\<rparr>))))"

definition fork :: "int kernel" where
  "fork = bindK myproc (\<lambda>p.
     bindK allocproc (\<lambda>r. case r of None \<Rightarrow> retK (- 1) | Some np \<Rightarrow>
     bindK (getK (\<lambda>s. (procs s ! p, procs s ! np))) (\<lambda>(q, nq).
     bindK (uvmcopy (p_pagetable q) (p_pagetable nq) (p_sz q)) (\<lambda>c.
     if c < 0 then thenK (freeproc np) (thenK (release (LProc np)) (retK (- 1)))
     else
       thenK (modK (upd_proc np (\<lambda>nq. nq\<lparr>p_sz := p_sz q, p_mask := p_mask q, p_parent := Some p\<rparr>)))
      (thenK (modK (\<lambda>s. s\<lparr>mem := store_bytes (mem s) (p_trapframe (procs s ! np))
                              (load_bytes (mem s) (p_trapframe (procs s ! p)) 288)\<rparr>))
      (thenK (tf_set np TF_a0 0)
      (thenK (forK [0..<NOFILE] (fork_file p np))
      (bindK (getK (\<lambda>s. p_cwd (procs s ! p))) (\<lambda>cwd. case cwd of None \<Rightarrow> null_fault | Some d \<Rightarrow>
       bindK (idup d) (\<lambda>d'.
       thenK (modK (upd_proc np (\<lambda>nq. nq\<lparr>p_cwd := Some d'\<rparr>)))
      (thenK (modK (upd_proc np (\<lambda>nq. nq\<lparr>p_name := copy_name (p_name nq) (p_name q)\<rparr>)))
      (bindK (getK (\<lambda>s. p_pid (procs s ! np))) (\<lambda>pid.
       thenK (release (LProc np))
      (thenK (acquire LWait)
      (thenK (modK (upd_proc np (\<lambda>nq. nq\<lparr>p_parent := Some p\<rparr>)))
      (thenK (release LWait)
      (thenK (acquire (LProc np))
      (thenK (modK (upd_proc np (\<lambda>nq. nq\<lparr>p_state := RUNNABLE\<rparr>)))
      (thenK (release (LProc np))
             (retK pid))))))))))))))))))))"

definition reparent :: "nat \<Rightarrow> unit kernel" where
  "reparent p = forK [0..<NPROC] (\<lambda>pp.
     bindK (getK (\<lambda>s. p_parent (procs s ! pp))) (\<lambda>par.
     whenK (par = Some p)
       (thenK (modK (\<lambda>s. upd_proc pp (\<lambda>q. q\<lparr>p_parent := initproc s\<rparr>) s))
              (bindK (getK initproc) (\<lambda>ip. wakeup_ptr (map_option ChProc ip))))))"

definition exit_file :: "nat \<Rightarrow> nat \<Rightarrow> unit kernel" where
  "exit_file p fd = bindK (getK (\<lambda>s. p_ofile (procs s ! p) ! fd)) (\<lambda>fo.
     case fo of None \<Rightarrow> retK ()
     | Some f \<Rightarrow> thenK (fileclose f) (modK (upd_proc p (\<lambda>q. q\<lparr>p_ofile := (p_ofile q)[fd := None]\<rparr>))))"

definition exit :: "int \<Rightarrow> unit kernel" where
  "exit status = bindK myproc (\<lambda>p.
     bindK (getK initproc) (\<lambda>ip.
     if ip = Some p then panicK ''init exiting''
     else
       thenK (forK [0..<NOFILE] (exit_file p))
      (thenK begin_op
      (bindK (getK (\<lambda>s. p_cwd (procs s ! p))) (\<lambda>cwd.
       thenK (case cwd of None \<Rightarrow> null_fault | Some d \<Rightarrow> iput d)
      (thenK end_op
      (thenK (modK (upd_proc p (\<lambda>q. q\<lparr>p_cwd := None\<rparr>)))
      (thenK (acquire LWait)
      (thenK (reparent p)
      (bindK (getK (\<lambda>s. p_parent (procs s ! p))) (\<lambda>par.
       thenK (wakeup_ptr (map_option ChProc par))
      (thenK (acquire (LProc p))
      (thenK (modK (upd_proc p (\<lambda>q. q\<lparr>p_xstate := status, p_state := ZOMBIE\<rparr>)))
      (thenK (release LWait)
      (thenK sched
             (panicK ''zombie exit''))))))))))))))))"

text \<open>
  One pass of \<open>wait\<close> over the table: \<open>Inl r\<close> when \<open>wait\<close> returns \<open>r\<close>, with all locks released,
  and \<open>Inr havekids\<close> when it goes on.
\<close>

fun wait_scan :: "nat \<Rightarrow> uint64 \<Rightarrow> nat list \<Rightarrow> bool \<Rightarrow> (int + bool) kernel" where
  "wait_scan p addr [] havekids = retK (Inr havekids)"
| "wait_scan p addr (pp # pps) havekids =
     bindK (getK (\<lambda>s. p_parent (procs s ! pp))) (\<lambda>par.
     if par = Some p then
       thenK (acquire (LProc pp))
      (bindK (getK (\<lambda>s. procs s ! pp)) (\<lambda>q.
       if p_state q = ZOMBIE then
         bindK (if addr \<noteq> 0 then
                  bindK (getK (\<lambda>s. p_pagetable (procs s ! p))) (\<lambda>pt.
                    copyout pt addr (bytes_of 4 (word_of_int (p_xstate q) :: uint)))
                else retK 0) (\<lambda>r.
         if r < 0 then
           thenK (release (LProc pp)) (thenK (release LWait) (retK (Inl (- 1))))
         else
           thenK (freeproc pp)
          (thenK (release (LProc pp))
          (thenK (release LWait)
                 (retK (Inl (p_pid q))))))
       else thenK (release (LProc pp)) (wait_scan p addr pps True)))
     else wait_scan p addr pps havekids)"

text \<open>When \<open>wait\<close> sleeps it continues, after \<open>sleep_resume\<close>, with \<open>wait_loop\<close>.\<close>

definition wait_loop :: "nat \<Rightarrow> uint64 \<Rightarrow> int kernel" where
  "wait_loop p addr = bindK (wait_scan p addr [0..<NPROC] False) (\<lambda>r. case r of
       Inl v \<Rightarrow> retK v
     | Inr havekids \<Rightarrow>
         bindK (if \<not> havekids then retK True else killed p) (\<lambda>stop.
         if stop then thenK (release LWait) (retK (- 1))
         else bindK (sleep (ChProc p) LWait) (\<lambda>_. retK 0)))"

definition wait :: "uint64 \<Rightarrow> int kernel" where
  "wait addr = bindK myproc (\<lambda>p. thenK (acquire LWait) (wait_loop p addr))"

section \<open>The scheduler\<close>

text \<open>
  One round of the inner loop of \<open>scheduler\<close> up to the context switch, which it reports, and what
  the scheduler does when the process switches back to it.
\<close>

definition scheduler_enter :: "nat \<Rightarrow> bool kernel" where
  "scheduler_enter p =
     thenK (acquire (LProc p))
    (bindK (getK (\<lambda>s. p_state (procs s ! p))) (\<lambda>st.
       if st = RUNNABLE then
         thenK (modK (upd_proc p (\<lambda>q. q\<lparr>p_state := RUNNING\<rparr>)))
        (thenK (modK (\<lambda>s. s\<lparr>curproc := Some p\<rparr>))
               (retK True))
       else thenK (release (LProc p)) (retK False)))"

definition scheduler_return :: "nat \<Rightarrow> unit kernel" where
  "scheduler_return p =
     thenK (modK (\<lambda>s. s\<lparr>curproc := None\<rparr>))
           (release (LProc p))"

text \<open>The scan of one pass: the first runnable process from the current position on.\<close>

fun scheduler_scan :: "nat list \<Rightarrow> nat option kernel" where
  "scheduler_scan [] = retK None"
| "scheduler_scan (p # ps) = bindK (scheduler_enter p) (\<lambda>run.
     if run then retK (Some p) else scheduler_scan ps)"

end
