(* ===== verification/Xv6_Exec.thy ===== *)
theory Xv6_Exec
  imports Xv6_Proc
begin

text \<open>
  \<^verbatim>\<open>kernel/exec.c\<close>.  ELF and program headers are decoded from their bytes at the offsets of
  \<^verbatim>\<open>kernel/elf.h\<close> (64 and 56 bytes).  The arguments are the strings that \<open>argv\<close> points to, without
  their nuls.
\<close>

section \<open>Headers (kernel/elf.h)\<close>

definition get64 :: "bytes \<Rightarrow> nat \<Rightarrow> uint64" where
  "get64 d i = word_of (slice d i 8)"

definition ELF_MAGIC :: uint where "ELF_MAGIC = 0x464C457F"
definition ELF_PROG_LOAD :: uint where "ELF_PROG_LOAD = 1"

record elfhdr =
  elf_magic :: uint
  elf_entry :: uint64
  elf_phoff :: uint64
  elf_phnum :: ushort

definition elf_of_bytes :: "bytes \<Rightarrow> elfhdr" where
  "elf_of_bytes d = \<lparr>elf_magic = get32 d 0, elf_entry = get64 d 24, elf_phoff = get64 d 32,
     elf_phnum = get16 d 56\<rparr>"

record proghdr =
  ph_type :: uint
  ph_flags :: uint
  ph_off :: uint64
  ph_vaddr :: uint64
  ph_filesz :: uint64
  ph_memsz :: uint64

definition ph_of_bytes :: "bytes \<Rightarrow> proghdr" where
  "ph_of_bytes d = \<lparr>ph_type = get32 d 0, ph_flags = get32 d 4, ph_off = get64 d 8, ph_vaddr = get64 d 16,
     ph_filesz = get64 d 32, ph_memsz = get64 d 40\<rparr>"

section \<open>Operations\<close>

definition flags2perm :: "uint \<Rightarrow> uint64" where
  "flags2perm flags =
     (let perm = (if flags AND 1 \<noteq> 0 then PTE_X else 0)
      in if flags AND 2 \<noteq> 0 then perm OR PTE_W else perm)"

fun loadseg_loop :: "nat \<Rightarrow> uint64 \<Rightarrow> uint64 \<Rightarrow> nat \<Rightarrow> uint \<Rightarrow> uint \<Rightarrow> uint \<Rightarrow> int kernel" where
  "loadseg_loop 0 pagetable va ip offset sz i = (\<lambda>s. Spin)"
| "loadseg_loop (Suc fuel) pagetable va ip offset sz i =
     (if i < sz then
        bindK (walkaddr pagetable (va + ucast i)) (\<lambda>pa.
          if pa = 0 then panicK ''loadseg: address should exist''
          else let n = (if sz - i < ucast PGSIZE then sz - i else ucast PGSIZE) in
            bindK (readi ip PhysDst pa (offset + i) n) (\<lambda>(r, _).
              if word_of_int r \<noteq> n then retK (- 1)
              else loadseg_loop fuel pagetable va ip offset sz (i + ucast PGSIZE)))
      else retK 0)"

definition loadseg :: "uint64 \<Rightarrow> uint64 \<Rightarrow> nat \<Rightarrow> uint \<Rightarrow> uint \<Rightarrow> int kernel" where
  "loadseg pagetable va ip offset sz = loadseg_loop (unat sz div 4096 + 2) pagetable va ip offset sz 0"

text \<open>
  The loop over the program headers: whether it got through, and the size reached.  \<open>k\<close> counts the
  headers left.
\<close>

fun exec_load :: "nat \<Rightarrow> nat \<Rightarrow> uint64 \<Rightarrow> uint \<Rightarrow> uint64 \<Rightarrow> (bool \<times> uint64) kernel" where
  "exec_load 0 ip pagetable off sz = retK (True, sz)"
| "exec_load (Suc k) ip pagetable off sz =
     bindK (readi ip LocalDst 0 off 56) (\<lambda>(r, bs).
       if r \<noteq> 56 then retK (False, sz)
       else let ph = ph_of_bytes bs in
         if ph_type ph \<noteq> ELF_PROG_LOAD then exec_load k ip pagetable (off + 56) sz
         else if ph_memsz ph < ph_filesz ph then retK (False, sz)
         else if ph_vaddr ph + ph_memsz ph < ph_vaddr ph then retK (False, sz)
         else if ph_vaddr ph mod PGSIZE \<noteq> 0 then retK (False, sz)
         else bindK (uvmalloc pagetable sz (ph_vaddr ph + ph_memsz ph) (flags2perm (ph_flags ph))) (\<lambda>sz1.
           if sz1 = 0 then retK (False, sz)
           else bindK (loadseg pagetable (ph_vaddr ph) ip (ucast (ph_off ph)) (ucast (ph_filesz ph))) (\<lambda>l.
             if l < 0 then retK (False, sz1)
             else exec_load k ip pagetable (off + 56) sz1)))"

text \<open>Pushing the argument strings: the stack pointer and the addresses of the strings.\<close>

fun exec_args :: "nat \<Rightarrow> bytes list \<Rightarrow> uint64 \<Rightarrow> uint64 \<Rightarrow> uint64 \<Rightarrow> uint64 list \<Rightarrow> (uint64 \<times> uint64 list) option kernel" where
  "exec_args argc [] pagetable stackbase sp ustack = retK (Some (sp, ustack))"
| "exec_args argc (arg # args) pagetable stackbase sp ustack =
     (if argc \<ge> MAXARG then retK None
      else let sp1 = sp - of_nat (length arg + 1);
               sp2 = sp1 - sp1 mod 16
        in if sp2 < stackbase then retK None
           else bindK (copyout pagetable sp2 (arg @ [0])) (\<lambda>r.
             if r < 0 then retK None
             else exec_args (argc + 1) args pagetable stackbase sp2 (ustack @ [sp2])))"

definition exec_bad :: "uint64 \<Rightarrow> uint64 \<Rightarrow> nat option \<Rightarrow> int kernel" where
  "exec_bad pagetable sz ipo =
     thenK (whenK (pagetable \<noteq> 0) (proc_freepagetable pagetable sz))
    (thenK (case ipo of None \<Rightarrow> retK () | Some ip \<Rightarrow> thenK (iunlockput ip) end_op)
           (retK (- 1)))"

definition last_elem :: "bytes \<Rightarrow> bytes" where
  "last_elem path = rev (takeWhile (\<lambda>c. c \<noteq> slash) (rev path))"

text \<open>The part of \<open>exec\<close> after the file has been loaded: the stack, and the commit to the new image.\<close>

definition exec_stack :: "nat \<Rightarrow> bytes \<Rightarrow> bytes list \<Rightarrow> uint64 \<Rightarrow> uint64 \<Rightarrow> uint64 \<Rightarrow> int kernel" where
  "exec_stack p path argv pagetable sz0 entry =
    (let szr = PGROUNDUP sz0 in
     bindK (getK (\<lambda>s. p_sz (procs s ! p))) (\<lambda>oldsz.
     bindK (uvmalloc pagetable szr (szr + 2 * PGSIZE) PTE_W) (\<lambda>sz.
     if sz = 0 then exec_bad pagetable szr None
     else
       thenK (uvmclear pagetable (sz - 2 * PGSIZE))
      (let stackbase = sz - PGSIZE in
       bindK (exec_args 0 argv pagetable stackbase sz []) (\<lambda>r.
       case r of None \<Rightarrow> exec_bad pagetable sz None
       | Some (sp, ustack) \<Rightarrow>
         if length ustack \<ge> MAXARG then undefK
         else let sp1 = sp - of_nat (length ustack + 1) * 8;
                  sp2 = sp1 - sp1 mod 16
           in if sp2 < stackbase then exec_bad pagetable sz None
              else bindK (copyout pagetable sp2 (concat (map (bytes_of 8) (ustack @ [0])))) (\<lambda>r.
                if r < 0 then exec_bad pagetable sz None
                else
                  thenK (tf_set p TF_a1 sp2)
                 (thenK (modK (upd_proc p (\<lambda>q. q\<lparr>p_name := copy_name (p_name q) (last_elem path)\<rparr>)))
                 (bindK (getK (\<lambda>s. p_pagetable (procs s ! p))) (\<lambda>oldpagetable.
                  thenK (modK (upd_proc p (\<lambda>q. q\<lparr>p_pagetable := pagetable, p_sz := sz\<rparr>)))
                 (thenK (tf_set p TF_epc entry)
                 (thenK (tf_set p TF_sp sp2)
                 (thenK (proc_freepagetable oldpagetable oldsz)
                        (retK (int (length ustack)))))))))))))))"

definition exec :: "bytes \<Rightarrow> bytes list \<Rightarrow> int kernel" where
  "exec path argv = bindK myproc (\<lambda>p.
     thenK begin_op
    (bindK (namei path) (\<lambda>ipo. case ipo of None \<Rightarrow> thenK end_op (retK (- 1)) | Some ip \<Rightarrow>
     thenK (ilock (Some ip))
    (bindK (readi ip LocalDst 0 0 64) (\<lambda>(r, bs).
     if r \<noteq> 64 then exec_bad 0 0 (Some ip)
     else let elf = elf_of_bytes bs in
       if elf_magic elf \<noteq> ELF_MAGIC then exec_bad 0 0 (Some ip)
       else bindK (proc_pagetable p) (\<lambda>pagetable.
         if pagetable = 0 then exec_bad 0 0 (Some ip)
         else bindK (exec_load (unat (elf_phnum elf)) ip pagetable (ucast (elf_phoff elf)) 0) (\<lambda>(ok, sz).
           if \<not> ok then exec_bad pagetable sz (Some ip)
           else thenK (iunlockput ip)
               (thenK end_op
                      (exec_stack p path argv pagetable sz (elf_entry elf))))))))))"

end
