(* ===== verification/Xv6_Syscall.thy ===== *)
theory Xv6_Syscall
  imports Xv6_Exec
begin

text \<open>
  \<^verbatim>\<open>kernel/syscall.c\<close>, \<^verbatim>\<open>kernel/sysproc.c\<close> and \<^verbatim>\<open>kernel/sysfile.c\<close>.  The functions that fill in
  a result through a pointer return it; a system call's \<open>int\<close> result is sign-extended into \<open>a0\<close>.
\<close>

section \<open>Arguments (kernel/syscall.c)\<close>

definition fetchaddr :: "uint64 \<Rightarrow> uint64 option kernel" where
  "fetchaddr addr = bindK myproc (\<lambda>p. bindK (getK (\<lambda>s. procs s ! p)) (\<lambda>q.
     if addr \<ge> p_sz q \<or> addr + 8 > p_sz q then retK None
     else bindK (copyin (p_pagetable q) addr 8) (\<lambda>(r, bs).
       retK (if r \<noteq> 0 then None else Some (word_of bs)))))"

text \<open>\<open>fetchstr\<close> returns the length and the bytes stored in \<open>buf\<close>.\<close>

definition fetchstr :: "uint64 \<Rightarrow> nat \<Rightarrow> (int \<times> bytes) kernel" where
  "fetchstr addr maxlen = bindK my_pagetable (\<lambda>pt.
     bindK (copyinstr pt addr maxlen) (\<lambda>(r, bs).
     if r < 0 then retK (- 1, bs)
     else case strlen (cstr_of bs) of None \<Rightarrow> (\<lambda>s. Spin) | Some n \<Rightarrow> retK (int n, bs)))"

definition argraw :: "nat \<Rightarrow> uint64 kernel" where
  "argraw n = bindK myproc (\<lambda>p.
     if n = 0 then tf_get p TF_a0
     else if n = 1 then tf_get p TF_a1
     else if n = 2 then tf_get p TF_a2
     else if n = 3 then tf_get p TF_a3
     else if n = 4 then tf_get p TF_a4
     else if n = 5 then tf_get p TF_a5
     else panicK ''argraw'')"

definition argint :: "nat \<Rightarrow> int kernel" where
  "argint n = bindK (argraw n) (\<lambda>v. retK (sint (ucast v :: 32 word)))"

definition argaddr :: "nat \<Rightarrow> uint64 kernel" where
  "argaddr n = argraw n"

definition argstr :: "nat \<Rightarrow> nat \<Rightarrow> (int \<times> bytes) kernel" where
  "argstr n maxlen = bindK (argaddr n) (\<lambda>addr. fetchstr addr maxlen)"

section \<open>Process system calls (kernel/sysproc.c)\<close>

definition sys_exit :: "uint64 kernel" where
  "sys_exit = bindK (argint 0) (\<lambda>n. thenK (exit n) (retK 0))"

definition sys_getpid :: "uint64 kernel" where
  "sys_getpid = bindK myproc (\<lambda>p. getK (\<lambda>s. of_int (p_pid (procs s ! p))))"

definition sys_fork :: "uint64 kernel" where
  "sys_fork = bindK fork (\<lambda>r. retK (of_int r))"

definition sys_wait :: "uint64 kernel" where
  "sys_wait = bindK (argaddr 0) (\<lambda>p. bindK (wait p) (\<lambda>r. retK (of_int r)))"

definition sys_sbrk :: "uint64 kernel" where
  "sys_sbrk = bindK (argint 0) (\<lambda>n.
     bindK myproc (\<lambda>p. bindK (getK (\<lambda>s. p_sz (procs s ! p))) (\<lambda>addr.
     bindK (growproc n) (\<lambda>r. retK (if r < 0 then - 1 else addr)))))"

text \<open>
  \<open>ticks - ticks0\<close> is unsigned, so the comparison with the \<open>int\<close> argument is too.  When \<open>sys_sleep\<close>
  sleeps it continues, after \<open>sleep_resume\<close>, with \<open>sys_sleep_loop\<close>.
\<close>

definition sys_sleep_loop :: "uint \<Rightarrow> int \<Rightarrow> uint64 kernel" where
  "sys_sleep_loop ticks0 n = bindK (getK ticks) (\<lambda>t.
     if t - ticks0 < word_of_int n then
       bindK myproc (\<lambda>p. bindK (killed p) (\<lambda>k.
         if k then thenK (release LTicks) (retK (- 1))
         else bindK (sleep ChTicks LTicks) (\<lambda>_. retK 0)))
     else thenK (release LTicks) (retK 0))"

definition sys_sleep :: "uint64 kernel" where
  "sys_sleep = bindK (argint 0) (\<lambda>n.
     thenK (acquire LTicks)
    (bindK (getK ticks) (\<lambda>ticks0. sys_sleep_loop ticks0 n)))"

definition sys_kill :: "uint64 kernel" where
  "sys_kill = bindK (argint 0) (\<lambda>pid. bindK (kill pid) (\<lambda>r. retK (of_int r)))"

definition sys_uptime :: "uint64 kernel" where
  "sys_uptime =
     thenK (acquire LTicks)
    (bindK (getK ticks) (\<lambda>t.
     thenK (release LTicks) (retK (ucast t))))"

definition sys_trace :: "uint64 kernel" where
  "sys_trace = bindK (argint 0) (\<lambda>m. bindK myproc (\<lambda>p.
     thenK (modK (upd_proc p (\<lambda>q. q\<lparr>p_mask := word_of_int m\<rparr>))) (retK 0)))"

section \<open>File system calls (kernel/sysfile.c)\<close>

definition argfd :: "nat \<Rightarrow> (nat \<times> nat) option kernel" where
  "argfd n = bindK (argint n) (\<lambda>fd.
     if fd < 0 \<or> fd \<ge> int NOFILE then retK None
     else bindK myproc (\<lambda>p. bindK (getK (\<lambda>s. p_ofile (procs s ! p) ! nat fd)) (\<lambda>fo.
       retK (map_option (\<lambda>f. (nat fd, f)) fo))))"

definition fdalloc :: "nat \<Rightarrow> nat option kernel" where
  "fdalloc f = bindK myproc (\<lambda>p. bindK (getK (\<lambda>s. p_ofile (procs s ! p))) (\<lambda>ofile.
     case List.find (\<lambda>fd. ofile ! fd = None) [0..<NOFILE] of
       None \<Rightarrow> retK None
     | Some fd \<Rightarrow>
         thenK (modK (upd_proc p (\<lambda>q. q\<lparr>p_ofile := (p_ofile q)[fd := Some f]\<rparr>))) (retK (Some fd))))"

definition clear_fd :: "nat \<Rightarrow> unit kernel" where
  "clear_fd fd = bindK myproc (\<lambda>p. modK (upd_proc p (\<lambda>q. q\<lparr>p_ofile := (p_ofile q)[fd := None]\<rparr>)))"

definition sys_dup :: "uint64 kernel" where
  "sys_dup = bindK (argfd 0) (\<lambda>a. case a of None \<Rightarrow> retK (- 1) | Some (_, f) \<Rightarrow>
     bindK (fdalloc f) (\<lambda>fdo. case fdo of None \<Rightarrow> retK (- 1) | Some fd \<Rightarrow>
     bindK (filedup f) (\<lambda>_. retK (of_nat fd))))"

definition sys_read :: "uint64 kernel" where
  "sys_read = bindK (argaddr 1) (\<lambda>p. bindK (argint 2) (\<lambda>n.
     bindK (argfd 0) (\<lambda>a. case a of None \<Rightarrow> retK (- 1) | Some (_, f) \<Rightarrow>
     bindK (fileread f p n) (\<lambda>r. retK (of_int r)))))"

definition sys_write :: "uint64 kernel" where
  "sys_write = bindK (argaddr 1) (\<lambda>p. bindK (argint 2) (\<lambda>n.
     bindK (argfd 0) (\<lambda>a. case a of None \<Rightarrow> retK (- 1) | Some (_, f) \<Rightarrow>
     bindK (filewrite f p n) (\<lambda>r. retK (of_int r)))))"

definition sys_close :: "uint64 kernel" where
  "sys_close = bindK (argfd 0) (\<lambda>a. case a of None \<Rightarrow> retK (- 1) | Some (fd, f) \<Rightarrow>
     thenK (clear_fd fd)
    (thenK (fileclose f)
           (retK 0)))"

definition sys_fstat :: "uint64 kernel" where
  "sys_fstat = bindK (argaddr 1) (\<lambda>st.
     bindK (argfd 0) (\<lambda>a. case a of None \<Rightarrow> retK (- 1) | Some (_, f) \<Rightarrow>
     bindK (filestat f st) (\<lambda>r. retK (of_int r))))"

definition upd_nlink :: "nat \<Rightarrow> (ushort \<Rightarrow> ushort) \<Rightarrow> unit kernel" where
  "upd_nlink i f = modK (upd_inode i (\<lambda>ip. ip\<lparr>ip_nlink := f (ip_nlink ip)\<rparr>))"

definition sys_link_bad :: "nat \<Rightarrow> uint64 kernel" where
  "sys_link_bad ip =
     thenK (ilock (Some ip))
    (thenK (upd_nlink ip (\<lambda>n. n - 1))
    (thenK (iupdate ip)
    (thenK (iunlockput ip)
    (thenK end_op
           (retK (- 1))))))"

definition sys_link :: "uint64 kernel" where
  "sys_link = bindK (argstr 0 MAXPATH) (\<lambda>(r, old). if r < 0 then retK (- 1) else
     bindK (argstr 1 MAXPATH) (\<lambda>(r, new). if r < 0 then retK (- 1) else
     thenK begin_op
    (bindK (namei (c_str old)) (\<lambda>ipo. case ipo of None \<Rightarrow> thenK end_op (retK (- 1)) | Some ip \<Rightarrow>
     thenK (ilock (Some ip))
    (bindK (getK (\<lambda>s. ip_type (itable s ! ip))) (\<lambda>type.
     if type = T_DIR then thenK (iunlockput ip) (thenK end_op (retK (- 1)))
     else
       thenK (upd_nlink ip (\<lambda>n. n + 1))
      (thenK (iupdate ip)
      (thenK (iunlock (Some ip))
      (bindK (nameiparent (c_str new)) (\<lambda>(dpo, name). case dpo of None \<Rightarrow> sys_link_bad ip | Some dp \<Rightarrow>
       thenK (ilock (Some dp))
      (bindK (getK (\<lambda>s. (ip_dev (itable s ! dp) \<noteq> ip_dev (itable s ! ip), ip_inum (itable s ! ip)))) (\<lambda>(diff, inum).
       bindK (if diff then retK (- 1) else dirlink dp (cstr_of name) inum) (\<lambda>l.
       if l < 0 then thenK (iunlockput dp) (sys_link_bad ip)
       else
         thenK (iunlockput dp)
        (thenK (iput ip)
        (thenK end_op
               (retK 0))))))))))))))))"

fun isdirempty_loop :: "nat \<Rightarrow> nat \<Rightarrow> uint \<Rightarrow> bool kernel" where
  "isdirempty_loop 0 dp off = (\<lambda>s. Spin)"
| "isdirempty_loop (Suc fuel) dp off = bindK (getK (\<lambda>s. ip_size (itable s ! dp))) (\<lambda>sz.
     if off < sz then
       bindK (readi dp LocalDst 0 off 16) (\<lambda>(r, de).
         if r \<noteq> 16 then panicK ''isdirempty: readi''
         else if de_inum de \<noteq> 0 then retK False
         else isdirempty_loop fuel dp (off + 16))
     else retK True)"

definition isdirempty :: "nat \<Rightarrow> bool kernel" where
  "isdirempty dp = bindK (getK (\<lambda>s. unat (ip_size (itable s ! dp)))) (\<lambda>sz. isdirempty_loop (sz div 16 + 2) dp 32)"

definition dot :: cstring where "dot = cstr_of [46]"
definition dotdot :: cstring where "dotdot = cstr_of [46, 46]"

definition sys_unlink_bad :: "nat \<Rightarrow> uint64 kernel" where
  "sys_unlink_bad dp = thenK (iunlockput dp) (thenK end_op (retK (- 1)))"

definition sys_unlink :: "uint64 kernel" where
  "sys_unlink = bindK (argstr 0 MAXPATH) (\<lambda>(r, path). if r < 0 then retK (- 1) else
     thenK begin_op
    (bindK (nameiparent (c_str path)) (\<lambda>(dpo, name). case dpo of None \<Rightarrow> thenK end_op (retK (- 1)) | Some dp \<Rightarrow>
     thenK (ilock (Some dp))
    (if namecmp (cstr_of name) dot = 0 \<or> namecmp (cstr_of name) dotdot = 0 then sys_unlink_bad dp
     else bindK (dirlookup dp (cstr_of name)) (\<lambda>r. case r of None \<Rightarrow> sys_unlink_bad dp | Some (ip, off) \<Rightarrow>
       thenK (ilock (Some ip))
      (bindK (getK (\<lambda>s. itable s ! ip)) (\<lambda>ino.
       if sint (ip_nlink ino) < 1 then panicK ''unlink: nlink < 1''
       else bindK (if ip_type ino = T_DIR then isdirempty ip else retK True) (\<lambda>empty.
         if \<not> empty then thenK (iunlockput ip) (sys_unlink_bad dp)
         else bindK (writei dp (LocalSrc (replicate 16 0)) 0 off 16) (\<lambda>w.
           if w \<noteq> 16 then panicK ''unlink: writei''
           else
             bindK (getK (\<lambda>s. ip_type (itable s ! ip))) (\<lambda>type.
             thenK (whenK (type = T_DIR) (thenK (upd_nlink dp (\<lambda>n. n - 1)) (iupdate dp)))
            (thenK (iunlockput dp)
            (thenK (upd_nlink ip (\<lambda>n. n - 1))
            (thenK (iupdate ip)
            (thenK (iunlockput ip)
            (thenK end_op
                   (retK 0))))))))))))))))"

definition create_fail :: "nat \<Rightarrow> nat \<Rightarrow> nat option kernel" where
  "create_fail ip dp =
     thenK (upd_nlink ip (\<lambda>_. 0))
    (thenK (iupdate ip)
    (thenK (iunlockput ip)
    (thenK (iunlockput dp)
           (retK None))))"

definition create :: "bytes \<Rightarrow> ushort \<Rightarrow> ushort \<Rightarrow> ushort \<Rightarrow> nat option kernel" where
  "create path type major minor =
     bindK (nameiparent path) (\<lambda>(dpo, name). case dpo of None \<Rightarrow> retK None | Some dp \<Rightarrow>
     thenK (ilock (Some dp))
    (bindK (dirlookup dp (cstr_of name)) (\<lambda>r. case r of
       Some (ip, _) \<Rightarrow>
         thenK (iunlockput dp)
        (thenK (ilock (Some ip))
        (bindK (getK (\<lambda>s. ip_type (itable s ! ip))) (\<lambda>t.
         if type = T_FILE \<and> (t = T_FILE \<or> t = T_DEVICE) then retK (Some ip)
         else thenK (iunlockput ip) (retK None))))
     | None \<Rightarrow>
         bindK (getK (\<lambda>s. ip_dev (itable s ! dp))) (\<lambda>dev.
         bindK (ialloc dev type) (\<lambda>ipo. case ipo of None \<Rightarrow> thenK (iunlockput dp) (retK None) | Some ip \<Rightarrow>
         thenK (ilock (Some ip))
        (thenK (modK (upd_inode ip (\<lambda>x. x\<lparr>ip_major := major, ip_minor := minor, ip_nlink := 1\<rparr>)))
        (thenK (iupdate ip)
        (bindK (getK (\<lambda>s. (ip_inum (itable s ! ip), ip_inum (itable s ! dp)))) (\<lambda>(inum, dinum).
         bindK (if type = T_DIR then
                  bindK (dirlink ip dot inum) (\<lambda>l. if l < 0 then retK l else dirlink ip dotdot dinum)
                else retK 0) (\<lambda>l.
         if l < 0 then create_fail ip dp
         else bindK (dirlink dp (cstr_of name) inum) (\<lambda>l.
           if l < 0 then create_fail ip dp
           else
             thenK (whenK (type = T_DIR) (thenK (upd_nlink dp (\<lambda>n. n + 1)) (iupdate dp)))
            (thenK (iunlockput dp)
                   (retK (Some ip))))))))))))))"

definition O_WRONLY :: uint where "O_WRONLY = 1"
definition O_RDWR :: uint where "O_RDWR = 2"
definition O_CREATE :: uint where "O_CREATE = 0x200"
definition O_TRUNC :: uint where "O_TRUNC = 0x400"

text \<open>The first half of \<open>sys_open\<close>: the locked inode, or \<^const>\<open>None\<close> after \<open>end_op\<close>.\<close>

definition open_inode :: "bytes \<Rightarrow> uint \<Rightarrow> nat option kernel" where
  "open_inode path omode =
     (if omode AND O_CREATE \<noteq> 0 then
        bindK (create path T_FILE 0 0) (\<lambda>ipo. case ipo of
            None \<Rightarrow> thenK end_op (retK None)
          | Some ip \<Rightarrow> retK (Some ip))
      else
        bindK (namei path) (\<lambda>ipo. case ipo of
            None \<Rightarrow> thenK end_op (retK None)
          | Some ip \<Rightarrow>
              thenK (ilock (Some ip))
             (bindK (getK (\<lambda>s. ip_type (itable s ! ip))) (\<lambda>type.
              if type = T_DIR \<and> omode \<noteq> 0 then thenK (iunlockput ip) (thenK end_op (retK None))
              else retK (Some ip)))))"

definition sys_open :: "uint64 kernel" where
  "sys_open = bindK (argint 1) (\<lambda>om. bindK (argstr 0 MAXPATH) (\<lambda>(n, path). if n < 0 then retK (- 1) else
     let omode = word_of_int om :: uint in
     thenK begin_op
    (bindK (open_inode (c_str path) omode) (\<lambda>ipo. case ipo of None \<Rightarrow> retK (- 1) | Some ip \<Rightarrow>
     bindK (getK (\<lambda>s. itable s ! ip)) (\<lambda>ino.
     if ip_type ino = T_DEVICE \<and> (sint (ip_major ino) < 0 \<or> sint (ip_major ino) \<ge> int NDEV) then
       thenK (iunlockput ip) (thenK end_op (retK (- 1)))
     else bindK filealloc (\<lambda>fo. case fo of None \<Rightarrow> thenK (iunlockput ip) (thenK end_op (retK (- 1))) | Some f \<Rightarrow>
     bindK (fdalloc f) (\<lambda>fdo. case fdo of
         None \<Rightarrow> thenK (fileclose f) (thenK (iunlockput ip) (thenK end_op (retK (- 1))))
       | Some fd \<Rightarrow>
           thenK (modK (upd_file f (\<lambda>x. if ip_type ino = T_DEVICE then x\<lparr>f_type := FD_DEVICE, f_major := ip_major ino\<rparr>
                                        else x\<lparr>f_type := FD_INODE, f_off := 0\<rparr>)))
          (thenK (modK (upd_file f (\<lambda>x. x\<lparr>f_ip := ip, f_readable := (omode AND O_WRONLY = 0),
                          f_writable := (omode AND O_WRONLY \<noteq> 0 \<or> omode AND O_RDWR \<noteq> 0)\<rparr>)))
          (thenK (whenK (omode AND O_TRUNC \<noteq> 0 \<and> ip_type ino = T_FILE) (itrunc ip))
          (thenK (iunlock (Some ip))
          (thenK end_op
                 (retK (of_nat fd)))))))))))))"

definition sys_mkdir :: "uint64 kernel" where
  "sys_mkdir =
     thenK begin_op
    (bindK (argstr 0 MAXPATH) (\<lambda>(r, path).
     bindK (if r < 0 then retK None else create (c_str path) T_DIR 0 0) (\<lambda>ipo. case ipo of
         None \<Rightarrow> thenK end_op (retK (- 1))
       | Some ip \<Rightarrow> thenK (iunlockput ip) (thenK end_op (retK 0)))))"

definition sys_mknod :: "uint64 kernel" where
  "sys_mknod =
     thenK begin_op
    (bindK (argint 1) (\<lambda>major. bindK (argint 2) (\<lambda>minor.
     bindK (argstr 0 MAXPATH) (\<lambda>(r, path).
     bindK (if r < 0 then retK None else create (c_str path) T_DEVICE (word_of_int major) (word_of_int minor)) (\<lambda>ipo. case ipo of
         None \<Rightarrow> thenK end_op (retK (- 1))
       | Some ip \<Rightarrow> thenK (iunlockput ip) (thenK end_op (retK 0)))))))"

definition sys_chdir :: "uint64 kernel" where
  "sys_chdir = bindK myproc (\<lambda>p.
     thenK begin_op
    (bindK (argstr 0 MAXPATH) (\<lambda>(r, path).
     bindK (if r < 0 then retK None else namei (c_str path)) (\<lambda>ipo. case ipo of
         None \<Rightarrow> thenK end_op (retK (- 1))
       | Some ip \<Rightarrow>
           thenK (ilock (Some ip))
          (bindK (getK (\<lambda>s. ip_type (itable s ! ip))) (\<lambda>type.
           if type \<noteq> T_DIR then thenK (iunlockput ip) (thenK end_op (retK (- 1)))
           else
             thenK (iunlock (Some ip))
            (bindK (getK (\<lambda>s. p_cwd (procs s ! p))) (\<lambda>cwd.
             thenK (case cwd of None \<Rightarrow> null_fault | Some d \<Rightarrow> iput d)
            (thenK end_op
            (thenK (modK (upd_proc p (\<lambda>q. q\<lparr>p_cwd := Some ip\<rparr>)))
                   (retK 0)))))))))))"

text \<open>
  The loop of \<open>sys_exec\<close> that fetches the arguments.  The result is whether it got to the null
  pointer, the pages allocated, and the strings.
\<close>

fun exec_fetch :: "nat \<Rightarrow> nat \<Rightarrow> uint64 \<Rightarrow> uint64 list \<Rightarrow> bytes list \<Rightarrow> (bool \<times> uint64 list \<times> bytes list) kernel" where
  "exec_fetch 0 i uargv pages args = retK (False, pages, args)"
| "exec_fetch (Suc left) i uargv pages args =
     bindK (fetchaddr (uargv + 8 * of_nat i)) (\<lambda>ua. case ua of
         None \<Rightarrow> retK (False, pages, args)
       | Some uarg \<Rightarrow>
           if uarg = 0 then retK (True, pages, args)
           else bindK kalloc (\<lambda>pg.
             if pg = 0 then retK (False, pages, args)
             else bindK (fetchstr uarg (unat PGSIZE)) (\<lambda>(r, bs).
               thenK (modK (\<lambda>s. s\<lparr>mem := store_bytes (mem s) pg bs\<rparr>))
                 (if r < 0 then retK (False, pages @ [pg], args)
                  else exec_fetch left (i + 1) uargv (pages @ [pg]) (args @ [c_str bs])))))"

definition sys_exec :: "uint64 kernel" where
  "sys_exec = bindK (argaddr 1) (\<lambda>uargv.
     bindK (argstr 0 MAXPATH) (\<lambda>(r, path). if r < 0 then retK (- 1) else
     bindK (exec_fetch MAXARG 0 uargv [] []) (\<lambda>(ok, pages, args).
     if ok then
       bindK (exec (c_str path) args) (\<lambda>ret.
       thenK (forK pages kfree) (retK (of_int ret)))
     else thenK (forK pages kfree) (retK (- 1)))))"

definition sys_pipe :: "uint64 kernel" where
  "sys_pipe = bindK my_pagetable (\<lambda>pt.
     bindK (argaddr 0) (\<lambda>fdarray.
     bindK pipealloc (\<lambda>pa. case pa of None \<Rightarrow> retK (- 1) | Some (rfile, wfile) \<Rightarrow>
     bindK (fdalloc rfile) (\<lambda>fo0. case fo0 of
         None \<Rightarrow> thenK (fileclose rfile) (thenK (fileclose wfile) (retK (- 1)))
       | Some fd0 \<Rightarrow>
     bindK (fdalloc wfile) (\<lambda>fo1. case fo1 of
         None \<Rightarrow> thenK (clear_fd fd0) (thenK (fileclose rfile) (thenK (fileclose wfile) (retK (- 1))))
       | Some fd1 \<Rightarrow>
     bindK (copyout pt fdarray (bytes_of 4 (of_nat fd0 :: uint))) (\<lambda>r.
     bindK (if r < 0 then retK r else copyout pt (fdarray + 4) (bytes_of 4 (of_nat fd1 :: uint))) (\<lambda>r.
     if r < 0 then
       thenK (clear_fd fd0)
      (thenK (clear_fd fd1)
      (thenK (fileclose rfile)
      (thenK (fileclose wfile)
             (retK (- 1)))))
     else retK 0)))))))"

section \<open>Dispatch\<close>

text \<open>The table \<open>syscalls\<close>, indexed by the numbers of \<^verbatim>\<open>kernel/syscall.h\<close>; entry 0 is empty.\<close>

definition syscalls :: "uint64 kernel option list" where
  "syscalls = [None, Some sys_fork, Some sys_exit, Some sys_wait, Some sys_pipe, Some sys_read, Some sys_kill,
     Some sys_exec, Some sys_fstat, Some sys_chdir, Some sys_dup, Some sys_getpid, Some sys_sbrk,
     Some sys_sleep, Some sys_uptime, Some sys_open, Some sys_write, Some sys_mknod, Some sys_unlink,
     Some sys_link, Some sys_mkdir, Some sys_close, Some sys_trace]"

definition syscall :: "unit kernel" where
  "syscall = bindK myproc (\<lambda>p.
     bindK (tf_get p TF_a7) (\<lambda>a7.
     let num = sint (ucast a7 :: 32 word) in
     case (if num > 0 \<and> num < int (length syscalls) then syscalls ! nat num else None) of
       Some handler \<Rightarrow>
         bindK handler (\<lambda>r.
         thenK (tf_set p TF_a0 r)
        (bindK (getK (\<lambda>s. procs s ! p)) (\<lambda>q.
         whenK (push_bit (nat num) 1 AND p_mask q \<noteq> 0)
           (bindK (tf_get p TF_a0) (\<lambda>a0.
            printf ''%d: syscall %s -> %d\<newline>''
              [PInt (p_pid q), PStr (Some (c_str (p_name q))), PInt (sint (ucast a0 :: 32 word))])))))
     | None \<Rightarrow>
         bindK (getK (\<lambda>s. procs s ! p)) (\<lambda>q.
         thenK (printf ''%d %s: unknown sys call %d\<newline>''
                 [PInt (p_pid q), PStr (Some (c_str (p_name q))), PInt num])
               (tf_set p TF_a0 (- 1)))))"

end
