(* ===== verification/Xv6_Trap.thy ===== *)
theory Xv6_Trap
  imports Xv6_Syscall
begin

text \<open>
  \<^verbatim>\<open>kernel/trap.c\<close>, \<^verbatim>\<open>kernel/plic.c\<close>, \<^verbatim>\<open>kernel/main.c\<close> and \<open>forkret\<close> of \<^verbatim>\<open>kernel/proc.c\<close>.  The
  disk driver's \<open>virtio_disk_intr\<close> and \<open>virtio_disk_init\<close> work on the driver's own state and are
  arguments here (\<open>vintr\<close>, \<open>vinit\<close>).  The jump of \<open>usertrapret\<close> to the trampoline is its result: the
  address of \<open>userret\<close> and the \<open>satp\<close> value passed to it.  \<open>usertrap\<close> and \<open>kerneltrap\<close> that gave up the CPU
  continue, after \<open>yield_resume\<close>, with \<open>usertrapret\<close> and \<open>kerneltrap_return\<close>.
\<close>

section \<open>Registers (kernel/riscv.h)\<close>

definition upd_csr :: "(csrst \<Rightarrow> csrst) \<Rightarrow> unit kernel" where
  "upd_csr f = modK (\<lambda>s. s\<lparr>csr := f (csr s)\<rparr>)"

definition intr_on :: "unit kernel" where
  "intr_on = upd_csr (\<lambda>c. c\<lparr>sstatus := sstatus c OR SSTATUS_SIE\<rparr>)"

definition intr_off :: "unit kernel" where
  "intr_off = upd_csr (\<lambda>c. c\<lparr>sstatus := sstatus c AND NOT SSTATUS_SIE\<rparr>)"

definition intr_get :: "bool kernel" where
  "intr_get = getK (\<lambda>s. sstatus (csr s) AND SSTATUS_SIE \<noteq> 0)"

section \<open>The interrupt controller (kernel/plic.c)\<close>

definition UART0_IRQ :: int where "UART0_IRQ = 10"
definition VIRTIO0_IRQ :: int where "VIRTIO0_IRQ = 1"

definition PLIC_SENABLE :: "int \<Rightarrow> uint64" where
  "PLIC_SENABLE hart = PLIC + 0x2080 + of_int hart * 0x100"

definition PLIC_SPRIORITY :: "int \<Rightarrow> uint64" where
  "PLIC_SPRIORITY hart = PLIC + 0x201000 + of_int hart * 0x2000"

definition plic_write :: "uint64 \<Rightarrow> uint \<Rightarrow> unit kernel" where
  "plic_write a v = modK (\<lambda>s. s\<lparr>plic_regs := plic_regs s @ [(a, v)]\<rparr>)"

definition plicinit :: "unit kernel" where
  "plicinit =
     thenK (plic_write (PLIC + of_int UART0_IRQ * 4) 1)
           (plic_write (PLIC + of_int VIRTIO0_IRQ * 4) 1)"

definition plicinithart :: "unit kernel" where
  "plicinithart = bindK cpuid (\<lambda>hart.
     thenK (plic_write (PLIC_SENABLE hart) (push_bit (nat UART0_IRQ) 1 OR push_bit (nat VIRTIO0_IRQ) 1))
           (plic_write (PLIC_SPRIORITY hart) 0))"

definition plic_claim :: "int kernel" where
  "plic_claim = bindK (getK plic_irqs) (\<lambda>q. case q of
       [] \<Rightarrow> retK 0
     | irq # rest \<Rightarrow> thenK (modK (\<lambda>s. s\<lparr>plic_irqs := rest\<rparr>)) (retK irq))"

definition plic_complete :: "int \<Rightarrow> unit kernel" where
  "plic_complete irq = modK (\<lambda>s. s\<lparr>plic_done := plic_done s @ [irq]\<rparr>)"

section \<open>Traps (kernel/trap.c)\<close>

definition trapinit :: "unit kernel" where
  "trapinit = retK ()"

definition trapinithart :: "unit kernel" where
  "trapinithart = modK (\<lambda>s. s\<lparr>csr := (csr s)\<lparr>stvec := sym_kernelvec (syms s)\<rparr>\<rparr>)"

definition clockintr :: "unit kernel" where
  "clockintr =
     thenK (acquire LTicks)
    (thenK (modK (\<lambda>s. s\<lparr>ticks := ticks s + 1\<rparr>))
    (thenK (wakeup ChTicks)
           (release LTicks)))"

definition devintr :: "unit kernel \<Rightarrow> int kernel" where
  "devintr vintr = bindK (getK (\<lambda>s. scause (csr s))) (\<lambda>cause.
     if cause AND 0x8000000000000000 \<noteq> 0 \<and> cause AND 0xff = 9 then
       bindK plic_claim (\<lambda>irq.
       thenK (if irq = UART0_IRQ then uartintr
              else if irq = VIRTIO0_IRQ then vintr
              else whenK (irq \<noteq> 0) (printf ''unexpected interrupt irq=%d\<newline>'' [PInt irq]))
      (thenK (whenK (irq \<noteq> 0) (plic_complete irq))
             (retK 1)))
     else if cause = 0x8000000000000001 then
       bindK cpuid (\<lambda>id.
       thenK (whenK (id = 0) clockintr)
      (thenK (upd_csr (\<lambda>c. c\<lparr>sip := sip c AND NOT 2\<rparr>))
             (retK 2)))
     else retK 0)"

definition usertrapret :: "(uint64 \<times> uint64) kernel" where
  "usertrapret = bindK myproc (\<lambda>p.
     thenK intr_off
    (thenK (modK (\<lambda>s. s\<lparr>csr := (csr s)\<lparr>stvec := TRAMPOLINE + (sym_uservec (syms s) - k_trampoline s)\<rparr>\<rparr>))
    (bindK (getK (\<lambda>s. satp (csr s))) (\<lambda>v. thenK (tf_set p TF_kernel_satp v)
    (bindK (getK (\<lambda>s. p_kstack (procs s ! p) + PGSIZE)) (\<lambda>v. thenK (tf_set p TF_kernel_sp v)
    (bindK (getK (\<lambda>s. sym_usertrap (syms s))) (\<lambda>v. thenK (tf_set p TF_kernel_trap v)
    (bindK (getK (\<lambda>s. tp (csr s))) (\<lambda>v. thenK (tf_set p TF_kernel_hartid v)
    (thenK (upd_csr (\<lambda>c. c\<lparr>sstatus := (sstatus c AND NOT SSTATUS_SPP) OR SSTATUS_SPIE\<rparr>))
    (bindK (tf_get p TF_epc) (\<lambda>epc.
     thenK (upd_csr (\<lambda>c. c\<lparr>sepc := epc\<rparr>))
    (getK (\<lambda>s. (TRAMPOLINE + (sym_userret (syms s) - k_trampoline s),
                MAKE_SATP (p_pagetable (procs s ! p))))))))))))))))))"

definition usertrap :: "unit kernel \<Rightarrow> (uint64 \<times> uint64) kernel" where
  "usertrap vintr = bindK (getK csr) (\<lambda>c.
     if sstatus c AND SSTATUS_SPP \<noteq> 0 then panicK ''usertrap: not from user mode''
     else
       thenK trapinithart
      (bindK myproc (\<lambda>p.
       thenK (tf_set p TF_epc (sepc c))
      (bindK (if scause c = 8 then
                bindK (killed p) (\<lambda>k.
                thenK (whenK k (exit (- 1)))
               (bindK (tf_get p TF_epc) (\<lambda>epc.
                thenK (tf_set p TF_epc (epc + 4))
               (thenK intr_on
               (thenK syscall
                      (retK 0))))))
              else bindK (devintr vintr) (\<lambda>which_dev.
                if which_dev \<noteq> 0 then retK which_dev
                else bindK (getK (\<lambda>s. (csr s, p_pid (procs s ! p)))) (\<lambda>(r, pid).
                  thenK (printf ''usertrap(): unexpected scause %p pid=%d\<newline>'' [PPtr (scause r), PInt pid])
                 (thenK (printf ''            sepc=%p stval=%p\<newline>'' [PPtr (sepc r), PPtr (stval r)])
                 (thenK (setkilled p)
                        (retK 0)))))) (\<lambda>which_dev.
       bindK (killed p) (\<lambda>k.
       thenK (whenK k (exit (- 1)))
      (thenK (whenK (which_dev = 2) yield)
             usertrapret)))))))"

definition kerneltrap_return :: "uint64 \<Rightarrow> uint64 \<Rightarrow> unit kernel" where
  "kerneltrap_return pc status = upd_csr (\<lambda>c. c\<lparr>sepc := pc, sstatus := status\<rparr>)"

definition kerneltrap :: "unit kernel \<Rightarrow> unit kernel" where
  "kerneltrap vintr = bindK (getK csr) (\<lambda>c.
     if sstatus c AND SSTATUS_SPP = 0 then panicK ''kerneltrap: not from supervisor mode''
     else bindK intr_get (\<lambda>on. if on then panicK ''kerneltrap: interrupts enabled''
     else bindK (devintr vintr) (\<lambda>which_dev.
       if which_dev = 0 then
         thenK (printf ''scause %p\<newline>'' [PPtr (scause c)])
        (bindK (getK csr) (\<lambda>r.
         thenK (printf ''sepc=%p stval=%p\<newline>'' [PPtr (sepc r), PPtr (stval r)])
               (panicK ''kerneltrap'')))
       else
         bindK (getK (\<lambda>s. case curproc s of None \<Rightarrow> False | Some p \<Rightarrow> p_state (procs s ! p) = RUNNING)) (\<lambda>run.
         thenK (whenK (which_dev = 2 \<and> run) yield)
               (kerneltrap_return (sepc c) (sstatus c))))))"

section \<open>First return to user space (kernel/proc.c)\<close>

definition forkret :: "(uint64 \<times> uint64) kernel" where
  "forkret = bindK myproc (\<lambda>p.
     thenK (release (LProc p))
    (bindK (getK fs_first) (\<lambda>first.
     thenK (whenK first (thenK (modK (\<lambda>s. s\<lparr>fs_first := False\<rparr>)) (fsinit ROOTDEV)))
           usertrapret)))"

section \<open>Boot (kernel/main.c)\<close>

text \<open>\<open>main\<close> up to its call of \<open>scheduler\<close>; a hart other than 0 spins until \<open>started\<close>.\<close>

definition main :: "unit kernel \<Rightarrow> unit kernel" where
  "main vinit = bindK cpuid (\<lambda>id.
     if id = 0 then
       thenK consoleinit
      (thenK printfinit
      (thenK (printf ''\<newline>'' [])
      (thenK (printf ''xv6 kernel is booting\<newline>'' [])
      (thenK (printf ''\<newline>'' [])
      (thenK kinit
      (thenK kvminit
      (thenK kvminithart
      (thenK procinit
      (thenK trapinit
      (thenK trapinithart
      (thenK plicinit
      (thenK plicinithart
      (thenK binit
      (thenK iinit
      (thenK fileinit
      (thenK vinit
      (thenK userinit
             (modK (\<lambda>s. s\<lparr>started := True\<rparr>)))))))))))))))))))
     else bindK (getK started) (\<lambda>st.
       if \<not> st then (\<lambda>s. Spin)
       else
         thenK (printf ''hart %d starting\<newline>'' [PInt id])
        (thenK kvminithart
        (thenK trapinithart
               plicinithart))))"

end
