(* ===== verification/Xv6_Spinlock.thy ===== *)
theory Xv6_Spinlock
  imports Xv6_Kstate
begin

text \<open>
  \<^verbatim>\<open>kernel/spinlock.c\<close> on several CPUs.  \<open>acquire\<close> and \<open>release\<close> run one shared-memory access at a time,
  interleaved with the accesses of the other CPUs; \<open>push_off\<close> and \<open>pop_off\<close> touch the CPU's own state only and
  are single steps.  A CPU carries a stack of frames, because a device interrupt may start a handler, which takes
  locks itself, wherever interrupts are enabled.  The ghost fields \<open>own\<close> and \<open>pushes\<close> record which locks a CPU
  won in the atomic swap and did not yet unlock, and how many \<open>push_off\<close> calls of its own it has not undone;
  no operation reads them.
\<close>

section \<open>State\<close>

record spinlock =
  lk_locked :: uint
  lk_name :: string
  lk_cpu :: "nat option"

record cpu =
  c_noff :: int
  c_intena :: bool

text \<open>Where a CPU is in \<open>acquire\<close> and in \<open>release\<close>.\<close>

datatype acq_pos = APush | ALocked | ACpu | ASwap | ASetCpu
datatype rel_pos = RLocked | RCpu | RClear | RUnlock | RPop
datatype frame = Body | Acq acq_pos lock_id | Rel rel_pos lock_id | Stopped string lock_id

record smp =
  lks :: "lock_id \<Rightarrow> spinlock"
  cpus :: "nat \<Rightarrow> cpu"
  hart_sstatus :: "nat \<Rightarrow> uint64"
  frames :: "nat \<Rightarrow> frame list"
  own :: "nat \<Rightarrow> lock_id list"
  pushes :: "nat \<Rightarrow> nat"

definition sie :: "nat \<Rightarrow> smp \<Rightarrow> bool" where
  "sie c s \<longleftrightarrow> hart_sstatus s c AND SSTATUS_SIE \<noteq> 0"

definition hart_intr_on :: "nat \<Rightarrow> smp \<Rightarrow> smp" where
  "hart_intr_on c s = s\<lparr>hart_sstatus := (hart_sstatus s)(c := hart_sstatus s c OR SSTATUS_SIE)\<rparr>"

definition hart_intr_off :: "nat \<Rightarrow> smp \<Rightarrow> smp" where
  "hart_intr_off c s = s\<lparr>hart_sstatus := (hart_sstatus s)(c := hart_sstatus s c AND NOT SSTATUS_SIE)\<rparr>"

definition goto :: "nat \<Rightarrow> frame \<Rightarrow> smp \<Rightarrow> smp" where
  "goto c f s = s\<lparr>frames := (frames s)(c := f # tl (frames s c))\<rparr>"

section \<open>Operations\<close>

definition initlock :: "lock_id \<Rightarrow> string \<Rightarrow> smp \<Rightarrow> smp" where
  "initlock l nm s = s\<lparr>lks := (lks s)(l := \<lparr>lk_locked = 0, lk_name = nm, lk_cpu = None\<rparr>)\<rparr>"

definition push_off :: "nat \<Rightarrow> smp \<Rightarrow> smp" where
  "push_off c s = (let old = sie c s; s = hart_intr_off c s; p = cpus s c;
     p = (if c_noff p = 0 then p\<lparr>c_intena := old\<rparr> else p)
     in s\<lparr>cpus := (cpus s)(c := p\<lparr>c_noff := c_noff p + 1\<rparr>)\<rparr>)"

definition pop_off :: "nat \<Rightarrow> smp \<Rightarrow> string + smp" where
  "pop_off c s =
     (if sie c s then Inl ''pop_off - interruptible''
      else if c_noff (cpus s c) < 1 then Inl ''pop_off''
      else let p = (cpus s c)\<lparr>c_noff := c_noff (cpus s c) - 1\<rparr>; s = s\<lparr>cpus := (cpus s)(c := p)\<rparr>
        in Inr (if c_noff p = 0 \<and> c_intena p then hart_intr_on c s else s))"

text \<open>
  \<open>holding\<close> reads \<open>lk->locked\<close> and then, if it is set, \<open>lk->cpu\<close>; \<open>acquire\<close> and \<open>release\<close> below make these two
  reads in separate steps.
\<close>

definition holding :: "nat \<Rightarrow> lock_id \<Rightarrow> smp \<Rightarrow> bool" where
  "holding c l s \<longleftrightarrow> lk_locked (lks s l) \<noteq> 0 \<and> lk_cpu (lks s l) = Some c"

fun acquire_step :: "nat \<Rightarrow> lock_id \<Rightarrow> acq_pos \<Rightarrow> smp \<Rightarrow> smp" where
  "acquire_step c l APush s = goto c (Acq ALocked l) (push_off c s)"
| "acquire_step c l ALocked s = goto c (if lk_locked (lks s l) \<noteq> 0 then Acq ACpu l else Acq ASwap l) s"
| "acquire_step c l ACpu s = goto c (if lk_cpu (lks s l) = Some c then Stopped ''acquire'' l else Acq ASwap l) s"
| "acquire_step c l ASwap s =
     (let old = lk_locked (lks s l); s = s\<lparr>lks := (lks s)(l := (lks s l)\<lparr>lk_locked := 1\<rparr>)\<rparr>
      in if old \<noteq> 0 then s else goto c (Acq ASetCpu l) (s\<lparr>own := (own s)(c := l # own s c)\<rparr>))"
| "acquire_step c l ASetCpu s = goto c Body (s\<lparr>lks := (lks s)(l := (lks s l)\<lparr>lk_cpu := Some c\<rparr>)\<rparr>)"

fun release_step :: "nat \<Rightarrow> lock_id \<Rightarrow> rel_pos \<Rightarrow> smp \<Rightarrow> smp" where
  "release_step c l RLocked s = goto c (if lk_locked (lks s l) \<noteq> 0 then Rel RCpu l else Stopped ''release'' l) s"
| "release_step c l RCpu s = goto c (if lk_cpu (lks s l) = Some c then Rel RClear l else Stopped ''release'' l) s"
| "release_step c l RClear s = goto c (Rel RUnlock l) (s\<lparr>lks := (lks s)(l := (lks s l)\<lparr>lk_cpu := None\<rparr>)\<rparr>)"
| "release_step c l RUnlock s = goto c (Rel RPop l)
     (s\<lparr>lks := (lks s)(l := (lks s l)\<lparr>lk_locked := 0\<rparr>), own := (own s)(c := remove1 l (own s c))\<rparr>)"
| "release_step c l RPop s = (case pop_off c s of Inl msg \<Rightarrow> goto c (Stopped msg l) s | Inr s \<Rightarrow> goto c Body s)"

section \<open>The machine\<close>

text \<open>
  Code outside \<open>spinlock.c\<close> is free to call \<open>acquire\<close>, \<open>release\<close> and \<open>push_off\<close> at any time, rightly or wrongly;
  it undoes only its own \<open>push_off\<close> calls, and it enables interrupts (\<open>scheduler\<close>, \<open>usertrap\<close>) only at nesting depth 0.
  \<open>resched\<close> is the assignment of \<open>intena\<close> by \<open>sched\<close> after it switched threads.  A trap is taken
  when interrupts are enabled; the handler returns at nesting depth 0.
\<close>

inductive smp_step :: "nat \<Rightarrow> smp \<Rightarrow> smp \<Rightarrow> bool" for c where
  call_acquire: "hd (frames s c) = Body \<Longrightarrow> smp_step c s (goto c (Acq APush l) s)"
| call_release: "hd (frames s c) = Body \<Longrightarrow> smp_step c s (goto c (Rel RLocked l) s)"
| in_acquire: "hd (frames s c) = Acq k l \<Longrightarrow> smp_step c s (acquire_step c l k s)"
| in_release: "hd (frames s c) = Rel k l \<Longrightarrow> smp_step c s (release_step c l k s)"
| call_push: "hd (frames s c) = Body \<Longrightarrow> smp_step c s ((push_off c s)\<lparr>pushes := (pushes s)(c := pushes s c + 1)\<rparr>)"
| call_pop: "hd (frames s c) = Body \<Longrightarrow> 0 < pushes s c \<Longrightarrow> pop_off c s = Inr t \<Longrightarrow>
    smp_step c s (t\<lparr>pushes := (pushes s)(c := pushes s c - 1)\<rparr>)"
| enable: "hd (frames s c) = Body \<Longrightarrow> c_noff (cpus s c) = 0 \<Longrightarrow> smp_step c s (hart_intr_on c s)"
| disable: "hd (frames s c) = Body \<Longrightarrow> smp_step c s (hart_intr_off c s)"
| resched: "hd (frames s c) = Body \<Longrightarrow> c_noff (cpus s c) = 1 \<Longrightarrow>
    smp_step c s (s\<lparr>cpus := (cpus s)(c := (cpus s c)\<lparr>c_intena := b\<rparr>)\<rparr>)"
| trap: "sie c s \<Longrightarrow> smp_step c s (s\<lparr>frames := (frames s)(c := Body # frames s c),
    hart_sstatus := (hart_sstatus s)(c := (hart_sstatus s c AND NOT SSTATUS_SIE) OR SSTATUS_SPIE)\<rparr>)"
| trapret: "frames s c = Body # fs \<Longrightarrow> fs \<noteq> [] \<Longrightarrow> c_noff (cpus s c) = 0 \<Longrightarrow>
    smp_step c s (hart_intr_on c (s\<lparr>frames := (frames s)(c := fs)\<rparr>))"

definition smp_init :: smp where
  "smp_init = \<lparr>lks = (\<lambda>_. \<lparr>lk_locked = 0, lk_name = [], lk_cpu = None\<rparr>), cpus = (\<lambda>_. \<lparr>c_noff = 0, c_intena = False\<rparr>),
     hart_sstatus = (\<lambda>_. 0), frames = (\<lambda>_. [Body]), own = (\<lambda>_. []), pushes = (\<lambda>_. 0)\<rparr>"

inductive smp_reach :: "smp \<Rightarrow> bool" where
  smp_start: "smp_reach smp_init"
| smp_next: "smp_reach s \<Longrightarrow> smp_step c s t \<Longrightarrow> smp_reach t"

section \<open>Interrupt enable\<close>

lemma sie_bit: "sie c s \<longleftrightarrow> bit (hart_sstatus s c) 1"
  using and_exp_eq_0_iff_not_bit[of "hart_sstatus s c" 1] by (simp add: sie_def SSTATUS_SIE_def push_bit_eq_mult)

lemma sie_simps [simp]:
  "sie d (hart_intr_on c s) \<longleftrightarrow> d = c \<or> sie d s"
  "sie d (hart_intr_off c s) \<longleftrightarrow> d \<noteq> c \<and> sie d s"
  "sie d (goto c f s) \<longleftrightarrow> sie d s"
  by (auto simp: sie_bit hart_intr_on_def hart_intr_off_def goto_def SSTATUS_SIE_def bit_simps)

lemma sie_trap [simp]: "\<not> sie c (s\<lparr>frames := fs, hart_sstatus := (hart_sstatus s)(c := (hart_sstatus s c AND NOT SSTATUS_SIE) OR SSTATUS_SPIE)\<rparr>)"
  by (simp add: sie_bit SSTATUS_SIE_def SSTATUS_SPIE_def bit_simps)

lemma sie_update [simp]:
  "sie c (s\<lparr>lks := ls\<rparr>) = sie c s" "sie c (s\<lparr>cpus := cs\<rparr>) = sie c s" "sie c (s\<lparr>frames := fs\<rparr>) = sie c s"
  "sie c (s\<lparr>own := os\<rparr>) = sie c s" "sie c (s\<lparr>pushes := ps\<rparr>) = sie c s"
  by (simp_all add: sie_def)


lemma hart_frame [simp]:
  "lks (hart_intr_on c s) = lks s" "cpus (hart_intr_on c s) = cpus s" "frames (hart_intr_on c s) = frames s"
  "own (hart_intr_on c s) = own s" "pushes (hart_intr_on c s) = pushes s"
  "lks (hart_intr_off c s) = lks s" "cpus (hart_intr_off c s) = cpus s" "frames (hart_intr_off c s) = frames s"
  "own (hart_intr_off c s) = own s" "pushes (hart_intr_off c s) = pushes s"
  by (simp_all add: hart_intr_on_def hart_intr_off_def)

lemma goto_frame [simp]:
  "lks (goto c f s) = lks s" "cpus (goto c f s) = cpus s" "own (goto c f s) = own s" "pushes (goto c f s) = pushes s"
  "frames (goto c f s) = (frames s)(c := f # tl (frames s c))" "hart_sstatus (goto c f s) = hart_sstatus s"
  by (simp_all add: goto_def)

lemma push_off_frame [simp]:
  "lks (push_off c s) = lks s" "frames (push_off c s) = frames s" "own (push_off c s) = own s" "pushes (push_off c s) = pushes s"
  "c_noff (cpus (push_off c s) c) = c_noff (cpus s c) + 1" "d \<noteq> c \<Longrightarrow> cpus (push_off c s) d = cpus s d"
  "sie d (push_off c s) \<longleftrightarrow> d \<noteq> c \<and> sie d s"
proof -
  show "sie d (push_off c s) \<longleftrightarrow> d \<noteq> c \<and> sie d s" by (simp add: push_off_def Let_def)
qed (simp_all add: push_off_def Let_def)

lemma pop_off_frame:
  assumes "pop_off c s = Inr t"
  shows "lks t = lks s" "frames t = frames s" "own t = own s" "pushes t = pushes s" "c_noff (cpus t c) = c_noff (cpus s c) - 1"
    "d \<noteq> c \<Longrightarrow> cpus t d = cpus s d" "d \<noteq> c \<Longrightarrow> sie d t = sie d s" "sie c t \<Longrightarrow> c_noff (cpus s c) = 1"
  using assms by (auto simp: pop_off_def Let_def hart_intr_on_def sie_def split: if_splits)

section \<open>The invariant\<close>

text \<open>The nesting depth a frame itself contributes, and what a frame says about the locks its CPU owns.\<close>

fun frame_depth :: "frame \<Rightarrow> int" where
  "frame_depth Body = 0"
| "frame_depth (Acq k l) = (if k \<in> {ALocked, ACpu, ASwap} then 1 else 0)"
| "frame_depth (Rel k l) = (if k = RPop then 1 else 0)"
| "frame_depth (Stopped msg l) = (if msg = ''acquire'' then 1 else 0)"

fun frame_ok :: "lock_id list \<Rightarrow> frame \<Rightarrow> bool" where
  "frame_ok ls Body \<longleftrightarrow> True"
| "frame_ok ls (Acq k l) \<longleftrightarrow> (k = ASwap \<longrightarrow> l \<notin> set ls) \<and> (k = ASetCpu \<longrightarrow> l \<in> set ls)"
| "frame_ok ls (Rel k l) \<longleftrightarrow> (k = RClear \<or> k = RUnlock \<longrightarrow> l \<in> set ls)"
| "frame_ok ls (Stopped msg l) \<longleftrightarrow> msg = ''acquire'' \<and> l \<in> set ls \<or> msg = ''release'' \<and> l \<notin> set ls"

text \<open>The locks: set exactly while owned, by one CPU, and named after the owner except in the middle of an operation.\<close>

definition locks_ok :: "smp \<Rightarrow> bool" where
  "locks_ok s \<longleftrightarrow>
     (\<forall>l. lk_locked (lks s l) \<noteq> 0 \<longleftrightarrow> (\<exists>c. l \<in> set (own s c))) \<and>
     (\<forall>l c d. l \<in> set (own s c) \<longrightarrow> l \<in> set (own s d) \<longrightarrow> c = d) \<and>
     (\<forall>l c. lk_cpu (lks s l) = Some c \<longrightarrow> l \<in> set (own s c) \<and> hd (frames s c) \<noteq> Rel RUnlock l) \<and>
     (\<forall>l c. l \<in> set (own s c) \<longrightarrow> hd (frames s c) \<noteq> Acq ASetCpu l \<longrightarrow> hd (frames s c) \<noteq> Rel RUnlock l \<longrightarrow>
        lk_cpu (lks s l) = Some c)"

definition cpu_ok :: "smp \<Rightarrow> nat \<Rightarrow> bool" where
  "cpu_ok s c \<longleftrightarrow> frames s c \<noteq> [] \<and> distinct (own s c) \<and> frame_ok (own s c) (hd (frames s c)) \<and>
     c_noff (cpus s c) = int (length (own s c)) + int (pushes s c) + frame_depth (hd (frames s c)) \<and>
     (sie c s \<longrightarrow> int (length (own s c)) + int (pushes s c) + frame_depth (hd (frames s c)) = 0) \<and>
     (\<forall>f\<in>set (tl (frames s c)). frame_ok [] f \<and> frame_depth f = 0)"

definition smp_inv :: "smp \<Rightarrow> bool" where
  "smp_inv s \<longleftrightarrow> locks_ok s \<and> (\<forall>c. cpu_ok s c)"

lemma frame_depth_nonneg: "0 \<le> frame_depth f"
  by (cases f) auto

lemma depth0: "cpu_ok s c \<Longrightarrow> c_noff (cpus s c) = 0 \<Longrightarrow> own s c = [] \<and> pushes s c = 0 \<and> frame_depth (hd (frames s c)) = 0"
proof -
  assume "cpu_ok s c" "c_noff (cpus s c) = 0"
  then have "int (length (own s c)) + int (pushes s c) + frame_depth (hd (frames s c)) = 0" by (simp add: cpu_ok_def)
  then have "length (own s c) = 0 \<and> pushes s c = 0 \<and> frame_depth (hd (frames s c)) = 0"
    using frame_depth_nonneg[of "hd (frames s c)"] by linarith
  then show ?thesis by simp
qed

lemma cpu_ok_other:
  assumes "cpu_ok s d" "frames t d = frames s d" "own t d = own s d" "pushes t d = pushes s d" "cpus t d = cpus s d" "sie d t = sie d s"
  shows "cpu_ok t d"
  using assms(1) unfolding cpu_ok_def assms(2-) .

text \<open>A step that leaves the locks and the owners alone keeps \<open>locks_ok\<close>, if it does not leave or enter an unlocking frame.\<close>

lemma locks_okD:
  assumes "locks_ok s"
  shows "\<And>l. lk_locked (lks s l) \<noteq> 0 \<longleftrightarrow> (\<exists>c. l \<in> set (own s c))"
    "\<And>l c d. l \<in> set (own s c) \<Longrightarrow> l \<in> set (own s d) \<Longrightarrow> c = d"
    "\<And>l c. lk_cpu (lks s l) = Some c \<Longrightarrow> l \<in> set (own s c)"
    "\<And>l c. lk_cpu (lks s l) = Some c \<Longrightarrow> hd (frames s c) \<noteq> Rel RUnlock l"
    "\<And>l c. l \<in> set (own s c) \<Longrightarrow> hd (frames s c) \<noteq> Acq ASetCpu l \<Longrightarrow> hd (frames s c) \<noteq> Rel RUnlock l \<Longrightarrow> lk_cpu (lks s l) = Some c"
  using assms unfolding locks_ok_def by blast+

lemma locks_ok_frame:
  assumes "locks_ok s" "lks t = lks s" "own t = own s" "\<And>d. d \<noteq> c \<Longrightarrow> frames t d = frames s d"
    and "\<And>l. hd (frames s c) \<noteq> Acq ASetCpu l" "\<And>l. hd (frames s c) \<noteq> Rel RUnlock l" "\<And>l. hd (frames t c) \<noteq> Rel RUnlock l"
  shows "locks_ok t"
proof -
  note D = locks_okD[OF assms(1)]
  show ?thesis unfolding locks_ok_def assms(2,3)
  proof (intro conjI allI impI)
    show "hd (frames t d) \<noteq> Rel RUnlock m" if "lk_cpu (lks s m) = Some d" for m d
      using that D(4)[of m d] assms(4)[of d] assms(7)[of m] by (cases "d = c") auto
    show "lk_cpu (lks s m) = Some d"
      if "m \<in> set (own s d)" "hd (frames t d) \<noteq> Acq ASetCpu m" "hd (frames t d) \<noteq> Rel RUnlock m" for m d
      using that D(5)[of m d] assms(4)[of d] assms(5,6)[of m] by (cases "d = c") auto
  qed (use D(1) in blast, use D(2) in blast, use D(3) in blast)
qed


lemma locks_ok_same:
  assumes "locks_ok s" "own t = own s" "frames t = frames s"
    and "\<And>l. lk_locked (lks t l) = 0 \<longleftrightarrow> lk_locked (lks s l) = 0" "\<And>l. lk_cpu (lks t l) = lk_cpu (lks s l)"
  shows "locks_ok t"
  using assms(1) unfolding locks_ok_def assms(2-) .

lemma locks_ok_take:
  assumes "locks_ok s" "lk_locked (lks s l) = 0" "hd (frames s c) = Acq ASwap l"
    and t: "own t = (own s)(c := l # own s c)" "lks t = (lks s)(l := (lks s l)\<lparr>lk_locked := 1\<rparr>)"
      "frames t = (frames s)(c := Acq ASetCpu l # fs)"
  shows "locks_ok t"
proof -
  note D = locks_okD[OF assms(1)]
  have free: "l \<notin> set (own s d)" for d using D(1)[of l] assms(2) by auto
  have unset: "lk_cpu (lks s l) \<noteq> Some d" for d using D(3)[of l d] free by auto
  show ?thesis unfolding locks_ok_def
  proof (intro conjI allI impI)
    show "(lk_locked (lks t m) \<noteq> 0) = (\<exists>d. m \<in> set (own t d))" for m
      using D(1)[of m] by (cases "m = l") (auto simp: t)
    show "d = e" if "m \<in> set (own t d)" "m \<in> set (own t e)" for m d e
      using that D(2)[of m d e] free by (auto simp: t split: if_splits)
    show "m \<in> set (own t d)" if "lk_cpu (lks t m) = Some d" for m d
      using that D(3)[of m d] unset by (auto simp: t split: if_splits)
    show "hd (frames t d) \<noteq> Rel RUnlock m" if "lk_cpu (lks t m) = Some d" for m d
      using that D(4)[of m d] unset by (auto simp: t split: if_splits)
    show "lk_cpu (lks t m) = Some d"
      if "m \<in> set (own t d)" "hd (frames t d) \<noteq> Acq ASetCpu m" "hd (frames t d) \<noteq> Rel RUnlock m" for m d
      using that D(5)[of m d] free assms(3) by (auto simp: t split: if_splits)
  qed
qed

lemma locks_ok_name:
  assumes "locks_ok s" "l \<in> set (own s c)" "hd (frames s c) = Acq ASetCpu l"
    and t: "own t = own s" "lks t = (lks s)(l := (lks s l)\<lparr>lk_cpu := Some c\<rparr>)" "frames t = (frames s)(c := Body # fs)"
  shows "locks_ok t"
proof -
  note D = locks_okD[OF assms(1)]
  show ?thesis unfolding locks_ok_def
  proof (intro conjI allI impI)
    show "(lk_locked (lks t m) \<noteq> 0) = (\<exists>d. m \<in> set (own t d))" for m using D(1)[of m] D(1)[of l] by (simp add: t)
    show "d = e" if "m \<in> set (own t d)" "m \<in> set (own t e)" for m d e using that D(2)[of m d e] by (simp add: t)
    show "m \<in> set (own t d)" if "lk_cpu (lks t m) = Some d" for m d
      using that D(3)[of m d] assms(2) by (auto simp: t split: if_splits)
    show "hd (frames t d) \<noteq> Rel RUnlock m" if "lk_cpu (lks t m) = Some d" for m d
      using that D(4)[of m d] by (auto simp: t split: if_splits)
    show "lk_cpu (lks t m) = Some d"
      if "m \<in> set (own t d)" "hd (frames t d) \<noteq> Acq ASetCpu m" "hd (frames t d) \<noteq> Rel RUnlock m" for m d
      using that D(5)[of m d] D(2)[of m d c] assms(2,3) by (auto simp: t split: if_splits)
  qed
qed

lemma locks_ok_unname:
  assumes "locks_ok s" "l \<in> set (own s c)" "hd (frames s c) = Rel RClear l"
    and t: "own t = own s" "lks t = (lks s)(l := (lks s l)\<lparr>lk_cpu := None\<rparr>)" "frames t = (frames s)(c := Rel RUnlock l # fs)"
  shows "locks_ok t"
proof -
  note D = locks_okD[OF assms(1)]
  show ?thesis unfolding locks_ok_def
  proof (intro conjI allI impI)
    show "(lk_locked (lks t m) \<noteq> 0) = (\<exists>d. m \<in> set (own t d))" for m using D(1)[of m] D(1)[of l] by (simp add: t)
    show "d = e" if "m \<in> set (own t d)" "m \<in> set (own t e)" for m d e using that D(2)[of m d e] by (simp add: t)
    show "m \<in> set (own t d)" if "lk_cpu (lks t m) = Some d" for m d
      using that D(3)[of m d] by (auto simp: t split: if_splits)
    show "hd (frames t d) \<noteq> Rel RUnlock m" if "lk_cpu (lks t m) = Some d" for m d
      using that D(4)[of m d] by (auto simp: t split: if_splits)
    show "lk_cpu (lks t m) = Some d"
      if "m \<in> set (own t d)" "hd (frames t d) \<noteq> Acq ASetCpu m" "hd (frames t d) \<noteq> Rel RUnlock m" for m d
      using that D(5)[of m d] D(2)[of m d c] assms(2,3) by (auto simp: t split: if_splits)
  qed
qed

lemma locks_ok_drop:
  assumes "locks_ok s" "l \<in> set (own s c)" "distinct (own s c)" "hd (frames s c) = Rel RUnlock l"
    and t: "own t = (own s)(c := remove1 l (own s c))" "lks t = (lks s)(l := (lks s l)\<lparr>lk_locked := 0\<rparr>)"
      "frames t = (frames s)(c := Rel RPop l # fs)"
  shows "locks_ok t"
proof -
  note D = locks_okD[OF assms(1)]
  have only: "l \<in> set (own s d) \<longleftrightarrow> d = c" for d using D(2)[of l c d] assms(2) by auto
  have mem: "m \<in> set (own t d) \<longleftrightarrow> m \<in> set (own s d) \<and> m \<noteq> l" for m d using only[of d] assms(3) by (auto simp: t)
  have unset: "lk_cpu (lks s l) \<noteq> Some d" for d using D(3,4)[of l d] only[of d] assms(4) by auto
  show ?thesis unfolding locks_ok_def
  proof (intro conjI allI impI)
    show "(lk_locked (lks t m) \<noteq> 0) = (\<exists>d. m \<in> set (own t d))" for m
      using D(1)[of m] unfolding mem by (cases "m = l") (simp_all add: t)
    show "d = e" if "m \<in> set (own t d)" "m \<in> set (own t e)" for m d e
      using that D(2)[of m d e] unfolding mem by blast
    show "m \<in> set (own t d)" if "lk_cpu (lks t m) = Some d" for m d
      using that D(3)[of m d] unset[of d] unfolding mem by (cases "m = l") (simp_all add: t)
    show "hd (frames t d) \<noteq> Rel RUnlock m" if "lk_cpu (lks t m) = Some d" for m d
      using that D(4)[of m d] by (auto simp: t split: if_splits)
    show "lk_cpu (lks t m) = Some d"
      if "m \<in> set (own t d)" "hd (frames t d) \<noteq> Acq ASetCpu m" "hd (frames t d) \<noteq> Rel RUnlock m" for m d
      using that D(5)[of m d] assms(4) unfolding mem by (auto simp: t split: if_splits)
  qed
qed

lemma cpu_ok_step:
  assumes "\<forall>d. cpu_ok s d" and "cpu_ok t c"
    and "\<And>d. d \<noteq> c \<Longrightarrow> frames t d = frames s d \<and> own t d = own s d \<and> pushes t d = pushes s d \<and> cpus t d = cpus s d \<and> sie d t = sie d s"
  shows "\<forall>d. cpu_ok t d"
proof
  fix d
  show "cpu_ok t d" using assms by (cases "d = c") (auto intro: cpu_ok_other[of s])
qed

lemma smp_inv_init: "smp_inv smp_init"
  by (simp add: smp_inv_def locks_ok_def cpu_ok_def smp_init_def sie_def)

lemma acquire_step_inv:
  assumes inv: "smp_inv s" and top: "hd (frames s c) = Acq k l"
  shows "smp_inv (acquire_step c l k s)"
proof -
  have L: "locks_ok s" and C: "\<forall>d. cpu_ok s d" using inv by (simp_all add: smp_inv_def)
  have c: "cpu_ok s c" using C by blast
  have "locks_ok (acquire_step c l k s)"
  proof (cases k)
    case ASwap
    show ?thesis
    proof (cases "lk_locked (lks s l) = 0")
      case True
      then show ?thesis using top ASwap by (intro locks_ok_take[OF L True, where c = c]) (simp_all add: Let_def)
    next
      case False
      then show ?thesis using ASwap by (intro locks_ok_same[OF L]) (auto simp: Let_def)
    qed
  next
    case ASetCpu
    then have mine: "l \<in> set (own s c)" using c top by (simp add: cpu_ok_def)
    then show ?thesis using top ASetCpu by (intro locks_ok_name[OF L mine]) simp_all
  qed (rule locks_ok_frame[OF L, where c = c]; use top in simp)+
  moreover have free: "lk_locked (lks s l) = 0 \<Longrightarrow> l \<notin> set (own s c)" using locks_okD(1)[OF L, of l] by auto
  have named: "k = ACpu \<Longrightarrow> lk_cpu (lks s l) = Some c \<longleftrightarrow> l \<in> set (own s c)" using locks_okD(3,5)[OF L, of l c] top by auto
  have "cpu_ok (acquire_step c l k s) c"
    using c top free named by (cases k) (auto simp: cpu_ok_def Let_def)
  then have "\<forall>d. cpu_ok (acquire_step c l k s) d"
    by (rule cpu_ok_step[OF C]) (cases k; auto simp: Let_def)
  ultimately show ?thesis by (simp add: smp_inv_def)
qed

lemma pop_off_ok:
  assumes "cpu_ok s c" and "0 < c_noff (cpus s c)"
  shows "\<exists>t. pop_off c s = Inr t"
  using assms by (auto simp: pop_off_def cpu_ok_def Let_def)

lemma release_step_inv:
  assumes inv: "smp_inv s" and top: "hd (frames s c) = Rel k l"
  shows "smp_inv (release_step c l k s)"
proof -
  have L: "locks_ok s" and C: "\<forall>d. cpu_ok s d" using inv by (simp_all add: smp_inv_def)
  have c: "cpu_ok s c" using C by blast
  have mine: "k = RClear \<or> k = RUnlock \<Longrightarrow> l \<in> set (own s c)" using c top by (auto simp: cpu_ok_def)
  obtain t where t: "k = RPop \<Longrightarrow> pop_off c s = Inr t"
    using pop_off_ok[OF c] c top by (cases "k = RPop") (auto simp: cpu_ok_def)
  have "locks_ok (release_step c l k s)"
  proof (cases k)
    case RClear
    then show ?thesis using top mine by (intro locks_ok_unname[OF L]) simp_all
  next
    case RUnlock
    then show ?thesis using top mine c by (intro locks_ok_drop[OF L]) (simp_all add: cpu_ok_def)
  next
    case RPop
    then show ?thesis using top t by (intro locks_ok_frame[OF L, where c = c]) (simp_all add: pop_off_frame)
  qed (rule locks_ok_frame[OF L, where c = c]; use top in simp)+
  moreover have free: "lk_locked (lks s l) = 0 \<Longrightarrow> l \<notin> set (own s c)" using locks_okD(1)[OF L, of l] by auto
  have named: "k = RCpu \<Longrightarrow> lk_cpu (lks s l) = Some c \<longleftrightarrow> l \<in> set (own s c)" using locks_okD(3,5)[OF L, of l c] top by auto
  have len: "k = RUnlock \<Longrightarrow> length (own s c) = Suc (length (remove1 l (own s c)))"
    using mine length_pos_if_in_set[of l "own s c"] by (simp add: length_remove1)
  have pop: "k = RPop \<Longrightarrow> sie c t \<Longrightarrow> c_noff (cpus s c) = 1" using t pop_off_frame(8) by blast
  have "cpu_ok (release_step c l k s) c"
    using c top free named t pop len by (cases k) (auto simp: cpu_ok_def pop_off_frame)
  then have "\<forall>d. cpu_ok (release_step c l k s) d"
    by (rule cpu_ok_step[OF C]) (use t in \<open>cases k; auto simp: pop_off_frame\<close>)
  ultimately show ?thesis by (simp add: smp_inv_def)
qed

lemma smp_step_inv:
  assumes "smp_step c s t" and inv: "smp_inv s"
  shows "smp_inv t"
proof -
  have L: "locks_ok s" and C: "\<forall>d. cpu_ok s d" using inv by (simp_all add: smp_inv_def)
  have c: "cpu_ok s c" using C by blast
  have quiet: "smp_inv u" if "lks u = lks s" "own u = own s" "hd (frames s c) = Body" "\<And>l. hd (frames u c) \<noteq> Rel RUnlock l" "cpu_ok u c"
     "\<And>d. d \<noteq> c \<Longrightarrow> frames u d = frames s d \<and> pushes u d = pushes s d \<and> cpus u d = cpus s d \<and> sie d u = sie d s" for u
    using locks_ok_frame[OF L, of u c] cpu_ok_step[OF C, of u c] that by (simp add: smp_inv_def)
  from assms(1) show ?thesis
  proof cases
    case (in_acquire k l)
    then show ?thesis using acquire_step_inv[OF inv] by simp
  next
    case (in_release k l)
    then show ?thesis using release_step_inv[OF inv] by simp
  next
    case (call_pop u)
    then show ?thesis using c pop_off_frame[OF call_pop(4)] by (intro quiet) (auto simp: cpu_ok_def)
  next
    case trap
    have z: "own s c = []" "pushes s c = 0" "frame_depth (hd (frames s c)) = 0" "c_noff (cpus s c) = 0"
      using trap(2) depth0[OF c] c by (auto simp: cpu_ok_def)
    have top: "frame_ok [] (hd (frames s c))" using c z(1) by (simp add: cpu_ok_def)
    obtain f fs where fs: "frames s c = f # fs" using c by (cases "frames s c") (simp_all add: cpu_ok_def)
    have "locks_ok t" using trap top by (intro locks_ok_frame[OF L, where c = c]) auto
    moreover have "cpu_ok t c" using c z top fs by (simp add: cpu_ok_def trap)
    then have "\<forall>d. cpu_ok t d" by (rule cpu_ok_step[OF C]) (simp add: trap sie_def)
    ultimately show ?thesis by (simp add: smp_inv_def)
  next
    case (trapret fs)
    note z = depth0[OF c trapret(4)]
    have lower: "\<forall>f\<in>set fs. frame_ok [] f \<and> frame_depth f = 0" using c trapret(2) by (simp add: cpu_ok_def)
    then have top: "frame_ok [] (hd fs)" "frame_depth (hd fs) = 0" "\<forall>f\<in>set (tl fs). frame_ok [] f \<and> frame_depth f = 0"
      using trapret(3) by (cases fs; simp)+
    have "cpu_ok t c" using z top trapret by (simp add: cpu_ok_def)
    moreover have "hd (frames t c) \<noteq> Rel RUnlock l" for l using top(1) by (auto simp: trapret)
    ultimately show ?thesis using trapret by (intro quiet) auto
  next
    case (call_acquire l)
    then show ?thesis using c by (intro quiet) (simp_all add: cpu_ok_def)
  next
    case (call_release l)
    then show ?thesis using c by (intro quiet) (simp_all add: cpu_ok_def)
  next
    case call_push
    then show ?thesis using c by (intro quiet) (simp_all add: cpu_ok_def)
  next
    case enable
    then show ?thesis using c by (intro quiet) (simp_all add: cpu_ok_def)
  next
    case disable
    then show ?thesis using c by (intro quiet) (simp_all add: cpu_ok_def)
  next
    case (resched b)
    then have "\<not> sie c s" using c by (auto simp: cpu_ok_def)
    with resched show ?thesis using c by (intro quiet) (simp_all add: cpu_ok_def)
  qed
qed


lemma smp_reach_inv: "smp_reach s \<Longrightarrow> smp_inv s"
  by (induction rule: smp_reach.induct) (blast intro: smp_inv_init smp_step_inv)+

inductive_cases smp_stepE: "smp_step c s t"

section \<open>Properties\<close>

text \<open>
  (C8) Mutual exclusion.  However the CPUs interleave, whatever they call and wherever interrupts strike, a lock is
  owned by at most one CPU, its \<open>locked\<close> word is set exactly while it is owned, and a CPU that is not inside
  \<open>acquire\<close> or \<open>release\<close> gets the right answer from \<open>holding\<close>.
\<close>

theorem spinlock_mutual_exclusion:
  assumes "smp_reach s"
  shows "(l \<in> set (own s c) \<longrightarrow> l \<in> set (own s d) \<longrightarrow> c = d) \<and> (lk_locked (lks s l) \<noteq> 0 \<longleftrightarrow> (\<exists>c. l \<in> set (own s c))) \<and>
    (hd (frames s c) = Body \<longrightarrow> (holding c l s \<longleftrightarrow> l \<in> set (own s c)))"
proof -
  have "locks_ok s" using smp_reach_inv[OF assms] by (simp add: smp_inv_def)
  note D = locks_okD[OF this]
  have "holding c l s \<longleftrightarrow> l \<in> set (own s c)" if "hd (frames s c) = Body"
    using that D(1)[of l] D(3,5)[of l c] by (auto simp: holding_def)
  then show ?thesis using D(1)[of l] D(2)[of l c d] by blast
qed

text \<open>Two CPUs that contend for one lock: CPU 0 has it, CPU 1 spins.\<close>

fun acquire_steps :: "nat \<Rightarrow> lock_id \<Rightarrow> acq_pos list \<Rightarrow> smp \<Rightarrow> smp" where
  "acquire_steps c l [] s = s"
| "acquire_steps c l (k # ks) s = acquire_steps c l ks (acquire_step c l k s)"

fun acquire_path :: "nat \<Rightarrow> lock_id \<Rightarrow> acq_pos list \<Rightarrow> smp \<Rightarrow> bool" where
  "acquire_path c l [] s \<longleftrightarrow> True"
| "acquire_path c l (k # ks) s \<longleftrightarrow> hd (frames s c) = Acq k l \<and> acquire_path c l ks (acquire_step c l k s)"

lemma acquire_steps_reach:
  "smp_reach s \<Longrightarrow> acquire_path c l ks s \<Longrightarrow> smp_reach (acquire_steps c l ks s)"
  by (induction ks arbitrary: s) (auto intro: smp_next in_acquire)

definition contended :: smp where
  "contended = acquire_steps 1 LKmem [APush, ALocked, ACpu, ASwap] (goto 1 (Acq APush LKmem)
     (acquire_steps 0 LKmem [APush, ALocked, ASwap, ASetCpu] (goto 0 (Acq APush LKmem) (hart_intr_on 0 smp_init))))"

lemmas contended_simps = contended_def smp_init_def push_off_def hart_intr_on_def hart_intr_off_def goto_def sie_def
  SSTATUS_SIE_def Let_def push_bit_eq_mult

lemma contended_reach: "smp_reach contended"
  unfolding contended_def
  by (intro acquire_steps_reach smp_next[OF _ call_acquire] smp_next[OF smp_start enable])
    (simp_all add: contended_simps)

theorem spinlock_mutual_exclusion_witness:
  "LKmem \<in> set (own contended 0) \<and> lk_locked (lks contended LKmem) \<noteq> 0 \<and> hd (frames contended 1) = Acq ASwap LKmem \<and>
   holding 0 LKmem contended \<and> \<not> LKmem \<in> set (own contended 1)"
  using spinlock_mutual_exclusion[OF contended_reach, of LKmem 0 1] by (simp add: contended_simps)

text \<open>
  (C28) Interrupts.  While a CPU owns a lock its interrupts are off, so that no handler can start on this CPU and
  spin for a lock that the interrupted code holds; the nesting depth counts the locks.
\<close>

theorem locked_interrupts_off:
  assumes "smp_reach s" and "own s c \<noteq> []"
  shows "\<not> sie c s \<and> int (length (own s c)) \<le> c_noff (cpus s c)"
proof -
  have c: "cpu_ok s c" using smp_reach_inv[OF assms(1)] by (simp add: smp_inv_def)
  moreover have "0 < length (own s c)" using assms(2) by simp
  ultimately show ?thesis using frame_depth_nonneg[of "hd (frames s c)"] by (auto simp: cpu_ok_def)
qed

theorem locked_interrupts_off_witness:
  "own contended 0 = [LKmem] \<and> \<not> sie 0 contended \<and> 1 \<le> c_noff (cpus contended 0)"
  using locked_interrupts_off[OF contended_reach, of 0] by (simp add: contended_simps)

text \<open>
  (C9) Refinement.  What a CPU sees of the machine is the lock list \<open>held\<close> that the rest of the development works
  with: every step of any CPU leaves the list of CPU \<open>c\<close> alone, or changes it as \<open>acquire\<close> or
  \<open>release\<close> on the list does; and a CPU that stops in a panic stops in one that the list-level
  operation predicts, so that the two racy reads of \<open>holding\<close> never mislead it.
\<close>

theorem smp_refines_held:
  assumes "smp_reach s" and "smp_step d s t"
  shows "(own t c = own s c \<or> (\<exists>l. acquire l (k\<lparr>held := own s c\<rparr>) = Ret () (k\<lparr>held := own t c\<rparr>)) \<or>
      (\<exists>l. release l (k\<lparr>held := own s c\<rparr>) = Ret () (k\<lparr>held := own t c\<rparr>))) \<and>
    (\<forall>msg l. hd (frames t c) = Stopped msg l \<longrightarrow>
       acquire l (k\<lparr>held := own t c\<rparr>) = Panic msg \<or> release l (k\<lparr>held := own t c\<rparr>) = Panic msg)"
proof -
  have s: "cpu_ok s d" and t: "cpu_ok t c"
    using smp_reach_inv[OF assms(1)] smp_reach_inv[OF smp_next[OF assms]] by (simp_all add: smp_inv_def)
  have "own t c = own s c \<or> (\<exists>l. acquire l (k\<lparr>held := own s c\<rparr>) = Ret () (k\<lparr>held := own t c\<rparr>)) \<or>
      (\<exists>l. release l (k\<lparr>held := own s c\<rparr>) = Ret () (k\<lparr>held := own t c\<rparr>))"
    using assms(2)
  proof cases
    case (in_acquire a l)
    then have "a = ASwap \<Longrightarrow> l \<notin> set (own s d)" using s by (simp add: cpu_ok_def)
    with in_acquire show ?thesis by (cases a; cases "c = d") (auto simp: Let_def acquire_def)
  next
    case (in_release a l)
    have pop: "own u = own s" if "pop_off d s = Inr u" for u by (rule pop_off_frame(3)[OF that])
    have "a = RUnlock \<Longrightarrow> l \<in> set (own s d)" using in_release s by (simp add: cpu_ok_def)
    with in_release pop show ?thesis by (cases a; cases "c = d") (auto simp: release_def split: sum.splits)
  qed (simp_all add: pop_off_frame)
  moreover have "acquire l (k\<lparr>held := own t c\<rparr>) = Panic msg \<or> release l (k\<lparr>held := own t c\<rparr>) = Panic msg"
    if "hd (frames t c) = Stopped msg l" for msg l
    using t that by (auto simp: cpu_ok_def)
  ultimately show ?thesis by blast
qed

theorem smp_refines_held_witness:
  "release LKmem ((boot_state 0 0 0 zero_symbols (\<lambda>_. []))\<lparr>held := own contended 0\<rparr>) =
     Ret () (boot_state 0 0 0 zero_symbols (\<lambda>_. []))\<and>
   own (acquire_step 1 LKmem ASwap contended) 0 = own contended 0"
proof -
  have "smp_step 1 contended (acquire_step 1 LKmem ASwap contended)"
    by (rule in_acquire) (simp add: contended_simps)
  from smp_refines_held[OF contended_reach this, of 0 "boot_state 0 0 0 zero_symbols (\<lambda>_. [])"] show ?thesis
    by (simp add: contended_simps boot_state_def)
qed

text \<open>\<open>push_off\<close> and \<open>pop_off\<close> are matched: n of the one and n of the other leave the CPU's interrupt state as it was.\<close>

fun pop_offs :: "nat \<Rightarrow> nat \<Rightarrow> smp \<Rightarrow> string + smp" where
  "pop_offs 0 c s = Inr s"
| "pop_offs (Suc n) c s = (case pop_off c s of Inl e \<Rightarrow> Inl e | Inr t \<Rightarrow> pop_offs n c t)"

lemma push_offs_state:
  assumes "c_noff (cpus s c) = 0"
  shows "((push_off c) ^^ Suc n) s = s\<lparr>hart_sstatus := (hart_sstatus s)(c := hart_sstatus s c AND NOT SSTATUS_SIE),
     cpus := (cpus s)(c := (cpus s c)\<lparr>c_intena := sie c s, c_noff := int (Suc n)\<rparr>)\<rparr>"
proof (induction n)
  case 0
  then show ?case using assms by (simp add: push_off_def Let_def hart_intr_off_def) (simp add: fun_upd_def)
next
  case (Suc n)
  have e: "(push_off c ^^ Suc (Suc n)) s = push_off c ((push_off c ^^ Suc n) s)" by simp
  show ?case unfolding e Suc
    by (simp add: push_off_def Let_def hart_intr_off_def and.assoc) (simp add: fun_upd_def)
qed

lemma sie_restore: "sie c s \<Longrightarrow> (hart_sstatus s c AND NOT SSTATUS_SIE) OR SSTATUS_SIE = hart_sstatus s c"
  unfolding sie_bit by (rule bit_eqI) (auto simp: SSTATUS_SIE_def bit_simps)

lemma sie_off: "\<not> sie c s \<Longrightarrow> hart_sstatus s c AND NOT SSTATUS_SIE = hart_sstatus s c"
  unfolding sie_bit by (rule bit_eqI) (auto simp: SSTATUS_SIE_def bit_simps)

lemma pop_offs_state:
  assumes "\<not> sie c s" and "c_noff (cpus s c) = int (Suc n)"
  shows "pop_offs (Suc n) c s = Inr ((if c_intena (cpus s c) then hart_intr_on c else id)
     (s\<lparr>cpus := (cpus s)(c := (cpus s c)\<lparr>c_noff := 0\<rparr>)\<rparr>))"
  using assms
proof (induction n arbitrary: s)
  case 0
  then show ?case by (simp add: pop_off_def Let_def) (simp add: fun_upd_def)
next
  case (Suc n)
  let ?u = "s\<lparr>cpus := (cpus s)(c := (cpus s c)\<lparr>c_noff := int (Suc n)\<rparr>)\<rparr>"
  have "pop_off c s = Inr ?u" using Suc.prems by (simp add: pop_off_def Let_def)
  moreover have "pop_offs (Suc n) c ?u = Inr ((if c_intena (cpus ?u c) then hart_intr_on c else id)
     (?u\<lparr>cpus := (cpus ?u)(c := (cpus ?u c)\<lparr>c_noff := 0\<rparr>)\<rparr>))"
    using Suc.prems by (intro Suc.IH) simp_all
  ultimately show ?case by simp (simp add: fun_upd_def)
qed

theorem push_pop_matched:
  assumes "c_noff (cpus s c) = 0"
  shows "\<exists>t. pop_offs n c ((push_off c ^^ n) s) = Inr t \<and> hart_sstatus t = hart_sstatus s \<and> c_noff (cpus t c) = 0"
proof (cases n)
  case (Suc m)
  let ?u = "(push_off c ^^ Suc m) s"
  have u: "\<not> sie c ?u" "c_noff (cpus ?u c) = int (Suc m)" "c_intena (cpus ?u c) = sie c s"
    using push_offs_state[OF assms, of m] by (simp_all del: funpow.simps add: sie_bit SSTATUS_SIE_def bit_simps)
  have "hart_sstatus ?u = (hart_sstatus s)(c := hart_sstatus s c AND NOT SSTATUS_SIE)"
    using push_offs_state[OF assms, of m] by (simp del: funpow.simps)
  then show ?thesis
    using pop_offs_state[OF u(1,2)] u(3) sie_restore[of c s] sie_off[of c s]
    by (cases "sie c s") (simp_all del: funpow.simps pop_offs.simps add: Suc hart_intr_on_def fun_upd_idem)
qed (use assms in simp)

theorem push_pop_matched_witness:
  "\<exists>t. pop_offs 3 0 ((push_off 0 ^^ 3) (hart_intr_on 0 smp_init)) = Inr t \<and> sie 0 t"
proof -
  have "c_noff (cpus (hart_intr_on 0 smp_init) 0) = 0" by (simp add: smp_init_def)
  from push_pop_matched[OF this, of 3] obtain t where
    t: "pop_offs 3 0 ((push_off 0 ^^ 3) (hart_intr_on 0 smp_init)) = Inr t" "hart_sstatus t = hart_sstatus (hart_intr_on 0 smp_init)" by blast
  then have "sie 0 t" using sie_simps(1)[of 0 0 smp_init] by (simp add: sie_def)
  with t show ?thesis by blast
qed

end
