(* ===== verification/Xv6_Asm.thy ===== *)
theory Xv6_Asm
  imports Xv6_Kstate
begin

text \<open>
  The kernel's assembly: \<^verbatim>\<open>kernel/trampoline.S\<close>, \<^verbatim>\<open>kernel/kernelvec.S\<close>, \<^verbatim>\<open>kernel/swtch.S\<close> and
  \<^verbatim>\<open>kernel/entry.S\<close> as lists of instructions of a small RISC-V machine, and \<^verbatim>\<open>kernel/start.c\<close>, which runs
  in machine mode on the same state.  Outside machine mode addresses are virtual; the memory management unit is an
  argument, a function from the \<open>satp\<close> register and a virtual address to the physical address, as is
  the linker's table of symbols.  The C functions that the assembly calls are arguments, too.
\<close>

section \<open>The machine\<close>

datatype reg =
    Zero | RA | SP | GP | TP | T0 | T1 | T2 | T3 | T4 | T5 | T6 | S0 | S1 | S2 | S3
  | S4 | S5 | S6 | S7 | S8 | S9 | S10 | S11 | A0 | A1 | A2 | A3 | A4 | A5 | A6 | A7

datatype hcsr =
    MHARTID | MSTATUS | MEPC | MEDELEG | MIDELEG | MIE | MTVEC | MSCRATCH | PMPADDR0 | PMPCFG0
  | SSTATUS | SIE | SIP | SATP | SSCRATCH | SEPC

datatype priv = UserMode | SupervisorMode | MachineMode

text \<open>\<open>hpc\<close> is the target of the last jump.\<close>

record hart =
  rg :: "reg \<Rightarrow> uint64"
  cs :: "hcsr \<Rightarrow> uint64"
  hmode :: priv
  hpc :: uint64
  hmem :: memory

datatype instr =
    Sd reg nat reg | Ld reg nat reg | Addi reg reg uint64 | Add reg reg reg | Mul reg reg reg
  | Li reg uint64 | La reg string | Csrw hcsr reg | Csrr reg hcsr | Csrrw reg hcsr reg
  | Sfence_vma | Jr reg | J string | Call string | Ret | Sret | Mret

definition set_reg :: "reg \<Rightarrow> uint64 \<Rightarrow> hart \<Rightarrow> hart" where
  "set_reg r v h = (if r = Zero then h else h\<lparr>rg := (rg h)(r := v)\<rparr>)"

definition set_csr :: "hcsr \<Rightarrow> uint64 \<Rightarrow> hart \<Rightarrow> hart" where
  "set_csr c v h = h\<lparr>cs := (cs h)(c := v)\<rparr>"

type_synonym mmu = "uint64 \<Rightarrow> uint64 \<Rightarrow> uint64"

definition hart_addr :: "mmu \<Rightarrow> hart \<Rightarrow> uint64 \<Rightarrow> uint64" where
  "hart_addr mmu h va = (if hmode h = MachineMode then va else mmu (cs h SATP) va)"

text \<open>Bits of \<open>mstatus\<close>; \<open>sret\<close> and \<open>mret\<close> take the mode and the interrupt enable from the saved bits.\<close>

definition MSTATUS_MPP_MASK :: uint64 where "MSTATUS_MPP_MASK = push_bit 11 3"
definition MSTATUS_MPP_S :: uint64 where "MSTATUS_MPP_S = push_bit 11 1"
definition MSTATUS_MIE :: uint64 where "MSTATUS_MIE = push_bit 3 1"
definition MSTATUS_MPIE :: uint64 where "MSTATUS_MPIE = push_bit 7 1"

definition do_sret :: "hart \<Rightarrow> hart" where
  "do_sret h = (let x = cs h SSTATUS;
     y = (if x AND SSTATUS_SPIE \<noteq> 0 then x OR SSTATUS_SIE else x AND NOT SSTATUS_SIE)
     in h\<lparr>hmode := (if x AND SSTATUS_SPP \<noteq> 0 then SupervisorMode else UserMode), hpc := cs h SEPC,
          cs := (cs h)(SSTATUS := (y OR SSTATUS_SPIE) AND NOT SSTATUS_SPP)\<rparr>)"

definition do_mret :: "hart \<Rightarrow> hart" where
  "do_mret h = (let x = cs h MSTATUS; p = x AND MSTATUS_MPP_MASK;
     y = (if x AND MSTATUS_MPIE \<noteq> 0 then x OR MSTATUS_MIE else x AND NOT MSTATUS_MIE)
     in h\<lparr>hmode := (if p = MSTATUS_MPP_MASK then MachineMode else if p = MSTATUS_MPP_S then SupervisorMode else UserMode),
          hpc := cs h MEPC, cs := (cs h)(MSTATUS := (y OR MSTATUS_MPIE) AND NOT MSTATUS_MPP_MASK)\<rparr>)"

text \<open>A call leaves its return address, the value of the symbol with a tick, in \<open>ra\<close>.\<close>

fun exec1 :: "mmu \<Rightarrow> (string \<Rightarrow> uint64) \<Rightarrow> instr \<Rightarrow> hart \<Rightarrow> hart" where
  "exec1 mmu lbl (Sd r off b) h = h\<lparr>hmem := store64 (hmem h) (hart_addr mmu h (rg h b + of_nat off)) (rg h r)\<rparr>"
| "exec1 mmu lbl (Ld r off b) h = set_reg r (load64 (hmem h) (hart_addr mmu h (rg h b + of_nat off))) h"
| "exec1 mmu lbl (Addi r a k) h = set_reg r (rg h a + k) h"
| "exec1 mmu lbl (Add r a b) h = set_reg r (rg h a + rg h b) h"
| "exec1 mmu lbl (Mul r a b) h = set_reg r (rg h a * rg h b) h"
| "exec1 mmu lbl (Li r k) h = set_reg r k h"
| "exec1 mmu lbl (La r l) h = set_reg r (lbl l) h"
| "exec1 mmu lbl (Csrw c r) h = set_csr c (rg h r) h"
| "exec1 mmu lbl (Csrr r c) h = set_reg r (cs h c) h"
| "exec1 mmu lbl (Csrrw r c a) h = set_reg r (cs h c) (set_csr c (rg h a) h)"
| "exec1 mmu lbl Sfence_vma h = h"
| "exec1 mmu lbl (Jr r) h = h\<lparr>hpc := rg h r\<rparr>"
| "exec1 mmu lbl (J l) h = h\<lparr>hpc := lbl l\<rparr>"
| "exec1 mmu lbl (Call f) h = (set_reg RA (lbl (f @ [CHR 0x27])) h)\<lparr>hpc := lbl f\<rparr>"
| "exec1 mmu lbl Ret h = h\<lparr>hpc := rg h RA\<rparr>"
| "exec1 mmu lbl Sret h = do_sret h"
| "exec1 mmu lbl Mret h = do_mret h"

definition exec_code :: "mmu \<Rightarrow> (string \<Rightarrow> uint64) \<Rightarrow> instr list \<Rightarrow> hart \<Rightarrow> hart" where
  "exec_code mmu lbl is h = fold (exec1 mmu lbl) is h"

section \<open>kernel/trampoline.S\<close>

definition uservec :: "instr list" where
  "uservec = [Csrw SSCRATCH A0, Li A0 TRAPFRAME, Sd RA 40 A0, Sd SP 48 A0, Sd GP 56 A0, Sd TP 64 A0, Sd T0 72 A0,
     Sd T1 80 A0, Sd T2 88 A0, Sd S0 96 A0, Sd S1 104 A0, Sd A1 120 A0, Sd A2 128 A0, Sd A3 136 A0,
     Sd A4 144 A0, Sd A5 152 A0, Sd A6 160 A0, Sd A7 168 A0, Sd S2 176 A0, Sd S3 184 A0, Sd S4 192 A0,
     Sd S5 200 A0, Sd S6 208 A0, Sd S7 216 A0, Sd S8 224 A0, Sd S9 232 A0, Sd S10 240 A0, Sd S11 248 A0,
     Sd T3 256 A0, Sd T4 264 A0, Sd T5 272 A0, Sd T6 280 A0, Csrr T0 SSCRATCH, Sd T0 112 A0, Ld SP 8 A0,
     Ld TP 32 A0, Ld T0 16 A0, Ld T1 0 A0, Sfence_vma, Csrw SATP T1, Sfence_vma, Jr T0]"

definition userret :: "instr list" where
  "userret = [Sfence_vma, Csrw SATP A0, Sfence_vma, Li A0 TRAPFRAME, Ld RA 40 A0, Ld SP 48 A0, Ld GP 56 A0,
     Ld TP 64 A0, Ld T0 72 A0, Ld T1 80 A0, Ld T2 88 A0, Ld S0 96 A0, Ld S1 104 A0, Ld A1 120 A0,
     Ld A2 128 A0, Ld A3 136 A0, Ld A4 144 A0, Ld A5 152 A0, Ld A6 160 A0, Ld A7 168 A0, Ld S2 176 A0,
     Ld S3 184 A0, Ld S4 192 A0, Ld S5 200 A0, Ld S6 208 A0, Ld S7 216 A0, Ld S8 224 A0, Ld S9 232 A0,
     Ld S10 240 A0, Ld S11 248 A0, Ld T3 256 A0, Ld T4 264 A0, Ld T5 272 A0, Ld T6 280 A0, Ld A0 112 A0,
     Sret]"

section \<open>kernel/swtch.S\<close>

definition swtch :: "instr list" where
  "swtch = [Sd RA 0 A0, Sd SP 8 A0, Sd S0 16 A0, Sd S1 24 A0, Sd S2 32 A0, Sd S3 40 A0, Sd S4 48 A0, Sd S5 56 A0,
     Sd S6 64 A0, Sd S7 72 A0, Sd S8 80 A0, Sd S9 88 A0, Sd S10 96 A0, Sd S11 104 A0, Ld RA 0 A1, Ld SP 8 A1,
     Ld S0 16 A1, Ld S1 24 A1, Ld S2 32 A1, Ld S3 40 A1, Ld S4 48 A1, Ld S5 56 A1, Ld S6 64 A1, Ld S7 72 A1,
     Ld S8 80 A1, Ld S9 88 A1, Ld S10 96 A1, Ld S11 104 A1, Ret]"

section \<open>kernel/kernelvec.S\<close>

definition kernelvec_save :: "instr list" where
  "kernelvec_save = [Addi SP SP (- 256), Sd RA 0 SP, Sd SP 8 SP, Sd GP 16 SP, Sd TP 24 SP, Sd T0 32 SP, Sd T1 40 SP,
     Sd T2 48 SP, Sd S0 56 SP, Sd S1 64 SP, Sd A0 72 SP, Sd A1 80 SP, Sd A2 88 SP, Sd A3 96 SP, Sd A4 104 SP,
     Sd A5 112 SP, Sd A6 120 SP, Sd A7 128 SP, Sd S2 136 SP, Sd S3 144 SP, Sd S4 152 SP, Sd S5 160 SP,
     Sd S6 168 SP, Sd S7 176 SP, Sd S8 184 SP, Sd S9 192 SP, Sd S10 200 SP, Sd S11 208 SP, Sd T3 216 SP,
     Sd T4 224 SP, Sd T5 232 SP, Sd T6 240 SP, Call ''kerneltrap'']"

definition kernelvec_restore :: "instr list" where
  "kernelvec_restore = [Ld RA 0 SP, Ld SP 8 SP, Ld GP 16 SP, Ld T0 32 SP, Ld T1 40 SP, Ld T2 48 SP, Ld S0 56 SP, Ld S1 64 SP,
     Ld A0 72 SP, Ld A1 80 SP, Ld A2 88 SP, Ld A3 96 SP, Ld A4 104 SP, Ld A5 112 SP, Ld A6 120 SP,
     Ld A7 128 SP, Ld S2 136 SP, Ld S3 144 SP, Ld S4 152 SP, Ld S5 160 SP, Ld S6 168 SP, Ld S7 176 SP,
     Ld S8 184 SP, Ld S9 192 SP, Ld S10 200 SP, Ld S11 208 SP, Ld T3 216 SP, Ld T4 224 SP, Ld T5 232 SP,
     Ld T6 240 SP, Addi SP SP 256, Sret]"

text \<open>\<open>handler\<close> is the effect of \<open>kerneltrap\<close> on the machine.\<close>

definition kernelvec :: "mmu \<Rightarrow> (string \<Rightarrow> uint64) \<Rightarrow> (hart \<Rightarrow> hart) \<Rightarrow> hart \<Rightarrow> hart" where
  "kernelvec mmu lbl handler h =
     exec_code mmu lbl kernelvec_restore (handler (exec_code mmu lbl kernelvec_save h))"

definition timervec :: "instr list" where
  "timervec = [Csrrw A0 MSCRATCH A0, Sd A1 0 A0, Sd A2 8 A0, Sd A3 16 A0, Ld A1 24 A0, Ld A2 32 A0, Ld A3 0 A1,
     Add A3 A3 A2, Sd A3 0 A1, Li A1 2, Csrw SIP A1, Ld A3 16 A0, Ld A2 8 A0, Ld A1 0 A0,
     Csrrw A0 MSCRATCH A0, Mret]"

section \<open>kernel/entry.S\<close>

definition entry :: "instr list" where
  "entry = [La SP ''stack0'', Li A0 (1024 * 4), Csrr A1 MHARTID, Addi A1 A1 1, Mul A0 A0 A1, Add SP SP A0,
     Call ''start'']"

section \<open>kernel/start.c\<close>

definition r_mhartid :: "hart \<Rightarrow> uint64" where "r_mhartid h = cs h MHARTID"
definition r_mstatus :: "hart \<Rightarrow> uint64" where "r_mstatus h = cs h MSTATUS"
definition w_mstatus :: "uint64 \<Rightarrow> hart \<Rightarrow> hart" where "w_mstatus x h = set_csr MSTATUS x h"
definition w_mepc :: "uint64 \<Rightarrow> hart \<Rightarrow> hart" where "w_mepc x h = set_csr MEPC x h"
definition r_sie :: "hart \<Rightarrow> uint64" where "r_sie h = cs h SIE"
definition w_sie :: "uint64 \<Rightarrow> hart \<Rightarrow> hart" where "w_sie x h = set_csr SIE x h"
definition r_mie :: "hart \<Rightarrow> uint64" where "r_mie h = cs h MIE"
definition w_mie :: "uint64 \<Rightarrow> hart \<Rightarrow> hart" where "w_mie x h = set_csr MIE x h"
definition w_medeleg :: "uint64 \<Rightarrow> hart \<Rightarrow> hart" where "w_medeleg x h = set_csr MEDELEG x h"
definition w_mideleg :: "uint64 \<Rightarrow> hart \<Rightarrow> hart" where "w_mideleg x h = set_csr MIDELEG x h"
definition w_mtvec :: "uint64 \<Rightarrow> hart \<Rightarrow> hart" where "w_mtvec x h = set_csr MTVEC x h"
definition w_pmpcfg0 :: "uint64 \<Rightarrow> hart \<Rightarrow> hart" where "w_pmpcfg0 x h = set_csr PMPCFG0 x h"
definition w_pmpaddr0 :: "uint64 \<Rightarrow> hart \<Rightarrow> hart" where "w_pmpaddr0 x h = set_csr PMPADDR0 x h"
definition w_satp :: "uint64 \<Rightarrow> hart \<Rightarrow> hart" where "w_satp x h = set_csr SATP x h"
definition w_mscratch :: "uint64 \<Rightarrow> hart \<Rightarrow> hart" where "w_mscratch x h = set_csr MSCRATCH x h"

definition w_tp :: "uint64 \<Rightarrow> hart \<Rightarrow> hart" where "w_tp x h = set_reg TP x h"

definition SIE_SEIE :: uint64 where "SIE_SEIE = push_bit 9 1"
definition SIE_STIE :: uint64 where "SIE_STIE = push_bit 5 1"
definition SIE_SSIE :: uint64 where "SIE_SSIE = push_bit 1 1"
definition MIE_MTIE :: uint64 where "MIE_MTIE = push_bit 7 1"
definition CLINT :: uint64 where "CLINT = 0x2000000"
definition CLINT_MTIMECMP :: "uint64 \<Rightarrow> uint64" where "CLINT_MTIMECMP hartid = CLINT + 0x4000 + 8 * hartid"
definition CLINT_MTIME :: uint64 where "CLINT_MTIME = CLINT + 0xBFF8"

definition put64 :: "uint64 \<Rightarrow> uint64 \<Rightarrow> hart \<Rightarrow> hart" where
  "put64 a v h = h\<lparr>hmem := store64 (hmem h) a v\<rparr>"

text \<open>
  The hart number is kept in an \<open>int\<close>: converted from a \<open>uint64\<close> it loses its upper half, and it is sign-extended where
  an address is computed from it.  \<open>timer_scratch[NCPU][5]\<close> lies at the address of its symbol.
\<close>

definition as_int :: "uint64 \<Rightarrow> uint64" where
  "as_int x = signed_take_bit 31 x"

lemma as_int_small:
  assumes "x < 0x80000000"
  shows "as_int x = x"
proof -
  have "take_bit 31 x = x"
    using assms by (simp add: word_less_nat_alt word_unat_eq_iff unsigned_take_bit_eq take_bit_nat_eq_self_iff)
  moreover from this have "\<not> bit x 31" by (metis bit_take_bit_iff less_irrefl)
  ultimately show ?thesis by (simp add: as_int_def signed_take_bit_def)
qed

definition timerinit :: "(string \<Rightarrow> uint64) \<Rightarrow> hart \<Rightarrow> hart" where
  "timerinit lbl h = (
     let id = as_int (r_mhartid h);
         interval = 1000000;
         h = put64 (CLINT_MTIMECMP id) (load64 (hmem h) CLINT_MTIME + interval) h;
         scratch = lbl ''timer_scratch'' + 40 * id;
         h = put64 (scratch + 24) (CLINT_MTIMECMP id) h;
         h = put64 (scratch + 32) interval h;
         h = w_mscratch scratch h;
         h = w_mtvec (lbl ''timervec'') h;
         h = w_mstatus (r_mstatus h OR MSTATUS_MIE) h
     in w_mie (r_mie h OR MIE_MTIE) h)"

definition start :: "(string \<Rightarrow> uint64) \<Rightarrow> hart \<Rightarrow> hart" where
  "start lbl h = (
     let x = r_mstatus h;
         x = x AND NOT MSTATUS_MPP_MASK;
         x = x OR MSTATUS_MPP_S;
         h = w_mstatus x h;
         h = w_mepc (lbl ''main'') h;
         h = w_satp 0 h;
         h = w_medeleg 0xffff h;
         h = w_mideleg 0xffff h;
         h = w_sie (r_sie h OR SIE_SEIE OR SIE_STIE OR SIE_SSIE) h;
         h = w_pmpaddr0 0x3fffffffffffff h;
         h = w_pmpcfg0 0xf h;
         h = timerinit lbl h;
         id = as_int (r_mhartid h);
         h = w_tp id h
     in do_mret h)"


text \<open>A machine to run the code on.\<close>

definition test_hart :: "priv \<Rightarrow> hart" where
  "test_hart p = \<lparr>rg = (\<lambda>r. if r = Zero then 0 else if r = SP then 0x80008000 else if r = A0 then 0x80001000 else if r = A1 then 0x80001200 else 7),
     cs = (\<lambda>_. 1), hmode = p, hpc = 0, hmem = (\<lambda>_. 0)\<rparr>"

section \<open>Saving and restoring registers\<close>

lemma exec_code_append [simp]: "exec_code mmu lbl (is @ js) h = exec_code mmu lbl js (exec_code mmu lbl is h)"
  by (simp add: exec_code_def)

lemma exec_code_Nil [simp]: "exec_code mmu lbl [] h = h"
  by (simp add: exec_code_def)

lemma exec_code_Cons [simp]: "exec_code mmu lbl (i # is) h = exec_code mmu lbl is (exec1 mmu lbl i h)"
  by (simp add: exec_code_def)

lemma set_reg_frame [simp]:
  "cs (set_reg r v h) = cs h" "hmode (set_reg r v h) = hmode h" "hpc (set_reg r v h) = hpc h" "hmem (set_reg r v h) = hmem h"
  "r \<noteq> Zero \<Longrightarrow> rg (set_reg r v h) = (rg h)(r := v)"
  by (simp_all add: set_reg_def)

lemma set_csr_frame [simp]:
  "rg (set_csr c v h) = rg h" "hmode (set_csr c v h) = hmode h" "hpc (set_csr c v h) = hpc h" "hmem (set_csr c v h) = hmem h"
  "cs (set_csr c v h) = (cs h)(c := v)"
  by (simp_all add: set_csr_def)

lemma hart_addr_frame [simp]:
  "hart_addr mmu (set_reg r v h) = hart_addr mmu h" "hart_addr mmu (h\<lparr>hmem := m\<rparr>) = hart_addr mmu h" "hart_addr mmu (h\<lparr>rg := R\<rparr>) = hart_addr mmu h"
  "c \<noteq> SATP \<Longrightarrow> hart_addr mmu (set_csr c v h) = hart_addr mmu h"
  by (simp_all add: hart_addr_def fun_eq_iff)

text \<open>A table of registers and the offsets of their slots in a save area at \<open>pb\<close>.\<close>

definition slots :: "(reg \<times> nat) list \<Rightarrow> bool" where
  "slots tab \<longleftrightarrow> distinct (map snd tab) \<and> distinct (map fst tab) \<and> Zero \<notin> fst ` set tab \<and> (\<forall>(r, off)\<in>set tab. 8 dvd off \<and> off < 4096)"

definition saved :: "(reg \<times> nat) list \<Rightarrow> uint64 \<Rightarrow> (reg \<Rightarrow> uint64) \<Rightarrow> memory \<Rightarrow> memory" where
  "saved tab pb R m = fold (\<lambda>(r, off) m. store64 m (pb + of_nat off) (R r)) tab m"

definition restored :: "(reg \<times> nat) list \<Rightarrow> uint64 \<Rightarrow> memory \<Rightarrow> (reg \<Rightarrow> uint64) \<Rightarrow> reg \<Rightarrow> uint64" where
  "restored tab pb m R = fold (\<lambda>(r, off) R. R(r := load64 m (pb + of_nat off))) tab R"

lemma slots_disjoint:
  assumes "a \<noteq> b" and "8 dvd a" "8 dvd b" and "a < 4096" "b < 4096"
  shows "disjoint (p + of_nat a) 8 (p + of_nat b) 8"
  unfolding disjoint_def
proof (intro allI impI)
  fix i :: nat assume i: "i < 8"
  have e: "p + of_nat b + of_nat i - (p + of_nat a) = (of_nat (b + i) - of_nat a :: uint64)" by simp
  have u: "unat (of_nat (b + i) :: uint64) = b + i" "unat (of_nat a :: uint64) = a"
    using assms i by (intro unat_of_nat64; simp)+
  obtain x y where "a = 8 * x" "b = 8 * y" using assms(2,3) by (auto elim!: dvdE)
  then have "a + 8 \<le> b \<or> b + 8 \<le> a" using assms(1) by auto
  then show "8 \<le> unat (p + of_nat b + of_nat i - (p + of_nat a))"
    unfolding e unat_sub_if' u using i assms(4,5) by auto
qed

lemma load_store_slot:
  assumes "a \<noteq> b" and "8 dvd a" "8 dvd b" and "a < 4096" "b < 4096"
  shows "load64 (store64 m (p + of_nat a) v) (p + of_nat b) = load64 m (p + of_nat b)"
  unfolding store64_def using slots_disjoint[OF assms] by (intro load64_store_disjoint) simp

lemma saved_Cons: "saved ((r, off) # tab) pb R m = saved tab pb R (store64 m (pb + of_nat off) (R r))"
  by (simp add: saved_def)

lemma slots_lt: "slots tab \<Longrightarrow> (r, off) \<in> set tab \<Longrightarrow> off < 4096"
  by (auto simp: slots_def)

lemma slots_ConsD: "slots (x # tab) \<Longrightarrow> slots tab"
  by (auto simp: slots_def)

lemma load_saved_other:
  "slots tab \<Longrightarrow> k \<notin> snd ` set tab \<Longrightarrow> 8 dvd k \<Longrightarrow> k < 4096 \<Longrightarrow> load64 (saved tab pb R m) (pb + of_nat k) = load64 m (pb + of_nat k)"
proof (induction tab arbitrary: m)
  case (Cons x tab)
  obtain r off where x: "x = (r, off)" by force
  have "load64 (saved (x # tab) pb R m) (pb + of_nat k) = load64 (store64 m (pb + of_nat off) (R r)) (pb + of_nat k)"
    unfolding x saved_Cons using Cons.prems by (intro Cons.IH) (auto dest: slots_ConsD)
  also have "\<dots> = load64 m (pb + of_nat k)" using Cons.prems x by (intro load_store_slot) (auto simp: slots_def)
  finally show ?case .
qed (simp add: saved_def)

lemma load_saved: "slots tab \<Longrightarrow> (r, off) \<in> set tab \<Longrightarrow> load64 (saved tab pb R m) (pb + of_nat off) = R r"
proof (induction tab arbitrary: m)
  case (Cons x tab)
  obtain r' off' where x: "x = (r', off')" by force
  show ?case
  proof (cases "x = (r, off)")
    case True
    then have "off \<notin> snd ` set tab" "8 dvd off" "off < 4096" using Cons.prems(1) by (auto simp: slots_def)
    then show ?thesis unfolding True saved_Cons using slots_ConsD[OF Cons.prems(1)] by (simp add: load_saved_other)
  next
    case False
    then show ?thesis unfolding x saved_Cons using Cons x by (auto dest: slots_ConsD)
  qed
qed simp

lemma restored_other: "r \<notin> fst ` set tab \<Longrightarrow> restored tab pb m R r = R r"
  unfolding restored_def by (induction tab arbitrary: R) auto

lemma restored_in: "slots tab \<Longrightarrow> (r, off) \<in> set tab \<Longrightarrow> restored tab pb m R r = load64 m (pb + of_nat off)"
proof (induction tab arbitrary: R)
  case (Cons x tab)
  obtain r' off' where x: "x = (r', off')" by force
  have rec: "restored (x # tab) pb m R = restored tab pb m (R(r' := load64 m (pb + of_nat off')))" by (simp add: restored_def x)
  show ?case
  proof (cases "x = (r, off)")
    case True
    then have "r \<notin> fst ` set tab" using Cons.prems(1) by (auto simp: slots_def)
    then show ?thesis unfolding rec using True x by (simp add: restored_other)
  next
    case False
    then show ?thesis unfolding rec using Cons x by (auto dest: slots_ConsD)
  qed
qed simp

lemma exec_save:
  assumes "\<And>r off. (r, off) \<in> set tab \<Longrightarrow> hart_addr mmu h (rg h b + of_nat off) = pb + of_nat off"
  shows "exec_code mmu lbl (map (\<lambda>(r, off). Sd r off b) tab) h = h\<lparr>hmem := saved tab pb (rg h) (hmem h)\<rparr>"
  using assms
proof (induction tab arbitrary: h)
  case (Cons x tab)
  obtain r off where x: "x = (r, off)" by force
  let ?h = "h\<lparr>hmem := store64 (hmem h) (pb + of_nat off) (rg h r)\<rparr>"
  have "hart_addr mmu h (rg h b + of_nat off) = pb + of_nat off" using Cons.prems[of r off] x by simp
  moreover have "exec_code mmu lbl (map (\<lambda>(r, off). Sd r off b) tab) ?h = ?h\<lparr>hmem := saved tab pb (rg ?h) (hmem ?h)\<rparr>"
    using Cons.prems by (intro Cons.IH) auto
  ultimately show ?case by (simp add: x saved_Cons)
qed (simp add: saved_def)

lemma exec_restore:
  assumes "\<And>r off. (r, off) \<in> set tab \<Longrightarrow> hart_addr mmu h (rg h b + of_nat off) = pb + of_nat off"
    and "\<And>off. (b, off) \<in> set tab \<Longrightarrow> load64 (hmem h) (pb + of_nat off) = rg h b" and "Zero \<notin> fst ` set tab"
  shows "exec_code mmu lbl (map (\<lambda>(r, off). Ld r off b) tab) h = h\<lparr>rg := restored tab pb (hmem h) (rg h)\<rparr>"
  using assms
proof (induction tab arbitrary: h)
  case (Cons x tab)
  obtain r off where x: "x = (r, off)" by force
  let ?h = "set_reg r (load64 (hmem h) (pb + of_nat off)) h"
  have a: "hart_addr mmu h (rg h b + of_nat off) = pb + of_nat off" using Cons.prems(1)[of r off] x by simp
  have r: "r \<noteq> Zero" using Cons.prems(3) x by auto
  have b: "rg ?h b = rg h b" using Cons.prems(2)[of off] r x by auto
  have "exec_code mmu lbl (map (\<lambda>(r, off). Ld r off b) tab) ?h = ?h\<lparr>rg := restored tab pb (hmem ?h) (rg ?h)\<rparr>"
    using Cons.prems b by (intro Cons.IH) auto
  then show ?case using a r by (simp add: x restored_def set_reg_def)
qed (simp add: restored_def)


section \<open>Traps from user space\<close>

text \<open>Where the trapframe keeps the user's registers.\<close>

fun tf_slot :: "reg \<Rightarrow> tfreg option" where
  "tf_slot Zero = None" | "tf_slot RA = Some TF_ra" | "tf_slot SP = Some TF_sp" | "tf_slot GP = Some TF_gp"
| "tf_slot TP = Some TF_tp" | "tf_slot T0 = Some TF_t0" | "tf_slot T1 = Some TF_t1" | "tf_slot T2 = Some TF_t2"
| "tf_slot T3 = Some TF_t3" | "tf_slot T4 = Some TF_t4" | "tf_slot T5 = Some TF_t5" | "tf_slot T6 = Some TF_t6"
| "tf_slot S0 = Some TF_s0" | "tf_slot S1 = Some TF_s1" | "tf_slot S2 = Some TF_s2" | "tf_slot S3 = Some TF_s3"
| "tf_slot S4 = Some TF_s4" | "tf_slot S5 = Some TF_s5" | "tf_slot S6 = Some TF_s6" | "tf_slot S7 = Some TF_s7"
| "tf_slot S8 = Some TF_s8" | "tf_slot S9 = Some TF_s9" | "tf_slot S10 = Some TF_s10" | "tf_slot S11 = Some TF_s11"
| "tf_slot A0 = Some TF_a0" | "tf_slot A1 = Some TF_a1" | "tf_slot A2 = Some TF_a2" | "tf_slot A3 = Some TF_a3"
| "tf_slot A4 = Some TF_a4" | "tf_slot A5 = Some TF_a5" | "tf_slot A6 = Some TF_a6" | "tf_slot A7 = Some TF_a7"

definition tf_at :: "uint64 \<Rightarrow> memory \<Rightarrow> tfreg \<Rightarrow> uint64" where
  "tf_at tf m r = load64 m (tf + of_nat (tf_off r))"

definition tf_mapped :: "mmu \<Rightarrow> uint64 \<Rightarrow> uint64 \<Rightarrow> bool" where
  "tf_mapped mmu pt tf \<longleftrightarrow> (\<forall>k<4096. mmu pt (TRAPFRAME + of_nat k) = tf + of_nat k)"

definition user_slots :: "(reg \<times> nat) list" where
  "user_slots = [(RA, 40), (SP, 48), (GP, 56), (TP, 64), (T0, 72), (T1, 80), (T2, 88), (S0, 96), (S1, 104), (A1, 120), (A2, 128),
     (A3, 136), (A4, 144), (A5, 152), (A6, 160), (A7, 168), (S2, 176), (S3, 184), (S4, 192), (S5, 200), (S6, 208), (S7, 216), (S8, 224),
     (S9, 232), (S10, 240), (S11, 248), (T3, 256), (T4, 264), (T5, 272), (T6, 280)]"

lemma user_slots_ok: "slots user_slots" "112 \<notin> snd ` set user_slots" "A0 \<notin> fst ` set user_slots"
  by (simp_all add: slots_def user_slots_def)

lemma user_slot_in: "tf_slot r = Some f \<Longrightarrow> r \<noteq> A0 \<Longrightarrow> (r, tf_off f) \<in> set user_slots"
  by (cases r) (auto simp: user_slots_def)

lemma tf_off_slot: "8 dvd tf_off f" "tf_off f < 4096"
  by (cases f; simp)+

lemma uservec_code: "uservec = [Csrw SSCRATCH A0, Li A0 TRAPFRAME] @ map (\<lambda>(r, off). Sd r off A0) user_slots @
   [Csrr T0 SSCRATCH, Sd T0 112 A0, Ld SP 8 A0, Ld TP 32 A0, Ld T0 16 A0, Ld T1 0 A0, Sfence_vma, Csrw SATP T1, Sfence_vma, Jr T0]"
  by (simp add: uservec_def user_slots_def)

lemma userret_code: "userret = [Sfence_vma, Csrw SATP A0, Sfence_vma, Li A0 TRAPFRAME] @ map (\<lambda>(r, off). Ld r off A0) user_slots @
   [Ld A0 112 A0, Sret]"
  by (simp add: userret_def user_slots_def)

lemma uservec_run:
  assumes mode: "hmode h = SupervisorMode" and map: "tf_mapped mmu (cs h SATP) tf"
  defines "m \<equiv> store64 (saved user_slots tf ((rg h)(A0 := TRAPFRAME)) (hmem h)) (tf + of_nat 112) (rg h A0)"
  shows "hmem (exec_code mmu lbl uservec h) = m" "rg (exec_code mmu lbl uservec h) SP = load64 m (tf + of_nat 8)"
    "rg (exec_code mmu lbl uservec h) TP = load64 m (tf + of_nat 32)" "cs (exec_code mmu lbl uservec h) SATP = load64 m tf"
    "hpc (exec_code mmu lbl uservec h) = load64 m (tf + of_nat 16)"
proof -
  let ?h = "set_reg A0 TRAPFRAME (set_csr SSCRATCH (rg h A0) h)"
  have l: "hart_addr mmu h (TRAPFRAME + of_nat k) = tf + of_nat k" if "k < 4096" for k
    using that mode map by (simp add: hart_addr_def tf_mapped_def)
  have s: "exec_code mmu lbl (map (\<lambda>(r, off). Sd r off A0) user_slots) ?h = ?h\<lparr>hmem := saved user_slots tf (rg ?h) (hmem ?h)\<rparr>"
    by (rule exec_save) (simp add: l slots_lt[OF user_slots_ok(1)])
  note l4 = l[of 0] l[of 8] l[of 16] l[of 32] l[of 112]
  show "hmem (exec_code mmu lbl uservec h) = m" "rg (exec_code mmu lbl uservec h) SP = load64 m (tf + of_nat 8)"
    "rg (exec_code mmu lbl uservec h) TP = load64 m (tf + of_nat 32)" "cs (exec_code mmu lbl uservec h) SATP = load64 m tf"
    "hpc (exec_code mmu lbl uservec h) = load64 m (tf + of_nat 16)"
    unfolding uservec_code m_def using s l4 by simp_all
qed


lemma uservec_saves:
  assumes "hmode h = SupervisorMode" and "tf_mapped mmu (cs h SATP) tf" and "tf_slot r = Some f"
  shows "tf_at tf (hmem (exec_code mmu lbl uservec h)) f = rg h r"
proof (cases "r = A0")
  case True
  then show ?thesis using assms(3) uservec_run(1)[OF assms(1,2)] by (simp add: tf_at_def)
next
  case False
  note i = user_slot_in[OF assms(3) False]
  have n: "tf_off f \<noteq> 112" using i user_slots_ok(2) by (metis image_eqI snd_conv)
  have "load64 (saved user_slots tf ((rg h)(A0 := TRAPFRAME)) (hmem h)) (tf + of_nat (tf_off f)) = rg h r"
    using load_saved[OF user_slots_ok(1) i] False by simp
  moreover have "load64 (store64 m (tf + of_nat 112) v) (tf + of_nat (tf_off f)) = load64 m (tf + of_nat (tf_off f))" for m v
    using n tf_off_slot by (intro load_store_slot) auto
  ultimately show ?thesis using uservec_run(1)[OF assms(1,2)] by (simp only: tf_at_def)
qed

lemma uservec_keeps:
  assumes "hmode h = SupervisorMode" and "tf_mapped mmu (cs h SATP) tf" and "tf_off f < 40"
  shows "tf_at tf (hmem (exec_code mmu lbl uservec h)) f = tf_at tf (hmem h) f"
proof -
  have "tf_off f \<notin> snd ` set user_slots" using assms(3) by (auto simp: user_slots_def)
  then have "load64 (saved user_slots tf R (hmem h)) (tf + of_nat (tf_off f)) = load64 (hmem h) (tf + of_nat (tf_off f))" for R
    using tf_off_slot by (intro load_saved_other[OF user_slots_ok(1)]) auto
  moreover have "load64 (store64 m (tf + of_nat 112) v) (tf + of_nat (tf_off f)) = load64 m (tf + of_nat (tf_off f))" for m v
    using assms(3) tf_off_slot by (intro load_store_slot) auto
  ultimately show ?thesis using uservec_run(1)[OF assms(1,2)] by (simp only: tf_at_def)
qed

lemma userret_loads:
  assumes "hmode h = SupervisorMode" and "tf_mapped mmu (rg h A0) tf"
  shows "tf_slot r = Some f \<Longrightarrow> rg (exec_code mmu lbl userret h) r = tf_at tf (hmem h) f"
    and "cs (exec_code mmu lbl userret h) SATP = rg h A0" and "hpc (exec_code mmu lbl userret h) = cs h SEPC"
proof -
  let ?h = "set_reg A0 TRAPFRAME (set_csr SATP (rg h A0) h)"
  have ad: "hart_addr mmu (set_csr SATP (rg h A0) h) (TRAPFRAME + of_nat k) = tf + of_nat k" if "k < 4096" for k
    using that assms by (simp add: hart_addr_def tf_mapped_def)
  have s: "exec_code mmu lbl (map (\<lambda>(r, off). Ld r off A0) user_slots) ?h = ?h\<lparr>rg := restored user_slots tf (hmem ?h) (rg ?h)\<rparr>"
  proof (rule exec_restore)
    show "load64 (hmem ?h) (tf + of_nat off) = rg ?h A0" if "(A0, off) \<in> set user_slots" for off
      using that user_slots_ok(3) by force
    show "Zero \<notin> fst ` set user_slots" using user_slots_ok(1) by (simp add: slots_def)
  qed (simp add: ad slots_lt[OF user_slots_ok(1)])
  have a0: "restored user_slots tf (hmem h) R A0 = R A0" for R by (rule restored_other[OF user_slots_ok(3)])
  have fin: "exec_code mmu lbl userret h = do_sret (set_reg A0 (load64 (hmem h) (tf + of_nat 112)) (?h\<lparr>rg := restored user_slots tf (hmem ?h) (rg ?h)\<rparr>))"
    unfolding userret_code using s a0 ad[of 112] by simp
  show "rg (exec_code mmu lbl userret h) r = tf_at tf (hmem h) f" if "tf_slot r = Some f"
  proof (cases "r = A0")
    case True
    then show ?thesis using that unfolding fin by (simp add: do_sret_def Let_def tf_at_def)
  next
    case False
    then show ?thesis using restored_in[OF user_slots_ok(1) user_slot_in[OF that False]] unfolding fin by (simp add: do_sret_def Let_def tf_at_def)
  qed
  show "cs (exec_code mmu lbl userret h) SATP = rg h A0" "hpc (exec_code mmu lbl userret h) = cs h SEPC"
    unfolding fin by (simp_all add: do_sret_def Let_def)
qed


section \<open>Traps from the kernel\<close>

definition kernel_slots :: "(reg \<times> nat) list" where
  "kernel_slots = [(RA, 0), (SP, 8), (GP, 16), (TP, 24), (T0, 32), (T1, 40), (T2, 48), (S0, 56), (S1, 64), (A0, 72), (A1, 80), (A2, 88),
     (A3, 96), (A4, 104), (A5, 112), (A6, 120), (A7, 128), (S2, 136), (S3, 144), (S4, 152), (S5, 160), (S6, 168), (S7, 176), (S8, 184),
     (S9, 192), (S10, 200), (S11, 208), (T3, 216), (T4, 224), (T5, 232), (T6, 240)]"

definition restore_slots :: "(reg \<times> nat) list" where
  "restore_slots = filter (\<lambda>(r, off). r \<noteq> TP) kernel_slots"

lemma kernel_slots_ok: "slots kernel_slots" "slots restore_slots"
  by (simp_all add: slots_def kernel_slots_def restore_slots_def)

lemma kernel_slot_cases: "r \<noteq> Zero \<Longrightarrow> \<exists>off. (r, off) \<in> set kernel_slots"
  by (cases r) (auto simp: kernel_slots_def)

lemma kernel_slots_lt: "(r, off) \<in> set kernel_slots \<Longrightarrow> off < 256"
  by (auto simp: kernel_slots_def)

lemma kernelvec_codes:
  "kernelvec_save = [Addi SP SP (- 256)] @ map (\<lambda>(r, off). Sd r off SP) kernel_slots @ [Call ''kerneltrap'']"
  "kernelvec_restore = map (\<lambda>(r, off). Ld r off SP) restore_slots @ [Addi SP SP 256, Sret]"
  by (simp_all add: kernelvec_save_def kernelvec_restore_def kernel_slots_def restore_slots_def)

text \<open>The 256 bytes below the stack pointer \<open>va + 256\<close> are at \<open>pb\<close>.\<close>

definition frame_mapped :: "mmu \<Rightarrow> hart \<Rightarrow> uint64 \<Rightarrow> uint64 \<Rightarrow> bool" where
  "frame_mapped mmu h va pb \<longleftrightarrow> (\<forall>k<256. hart_addr mmu h (va + of_nat k) = pb + of_nat k)"

lemma kernelvec_save_run:
  assumes "frame_mapped mmu h (rg h SP - 256) pb"
  shows "rg (exec_code mmu lbl kernelvec_save h) SP = rg h SP - 256"
    and "(r, off) \<in> set kernel_slots \<Longrightarrow> load64 (hmem (exec_code mmu lbl kernelvec_save h)) (pb + of_nat off) = ((rg h)(SP := rg h SP - 256)) r"
proof -
  let ?h = "set_reg SP (rg h SP + (- 256)) h"
  have e: "rg h SP + (- 256) = rg h SP - 256" by simp
  have s: "exec_code mmu lbl (map (\<lambda>(r, off). Sd r off SP) kernel_slots) ?h = ?h\<lparr>hmem := saved kernel_slots pb (rg ?h) (hmem ?h)\<rparr>"
    by (rule exec_save) (use assms kernel_slots_lt in \<open>auto simp: frame_mapped_def e\<close>)
  show "rg (exec_code mmu lbl kernelvec_save h) SP = rg h SP - 256" unfolding kernelvec_codes using s by simp
  show "load64 (hmem (exec_code mmu lbl kernelvec_save h)) (pb + of_nat off) = ((rg h)(SP := rg h SP - 256)) r" if "(r, off) \<in> set kernel_slots"
    unfolding kernelvec_codes using s load_saved[OF kernel_slots_ok(1) that] by simp
qed

text \<open>
  (C26) An interrupt in the kernel is transparent.  If the C handler returns with the stack pointer it was
  given and leaves the 256-byte frame alone, then \<open>kernelvec\<close> returns to \<open>sepc\<close> with every register of the
  interrupted code as it was, whatever the handler did to the registers; the exception is \<open>tp\<close>, which keeps the
  handler's value, because the thread may have moved to another CPU.
\<close>

theorem kernelvec_transparent:
  assumes f: "frame_mapped mmu h (rg h SP - 256) pb"
    and h1: "h1 = exec_code mmu lbl kernelvec_save h" and h2: "h2 = handler h1"
    and sp: "rg h2 SP = rg h1 SP" and f2: "frame_mapped mmu h2 (rg h SP - 256) pb"
    and keep: "\<And>k. k < 256 \<Longrightarrow> load64 (hmem h2) (pb + of_nat k) = load64 (hmem h1) (pb + of_nat k)"
  shows "(r \<noteq> Zero \<and> r \<noteq> TP \<longrightarrow> rg (kernelvec mmu lbl handler h) r = rg h r) \<and> rg (kernelvec mmu lbl handler h) TP = rg h2 TP \<and>
    hpc (kernelvec mmu lbl handler h) = cs h2 SEPC"
proof -
  note sv = kernelvec_save_run[OF f, where lbl = lbl]
  have sub: "set restore_slots \<subseteq> set kernel_slots" by (auto simp: restore_slots_def)
  have spv: "rg h2 SP = rg h SP - 256" using sp h1 sv(1) by simp
  have val: "load64 (hmem h2) (pb + of_nat off) = ((rg h)(SP := rg h SP - 256)) r" if "(r, off) \<in> set kernel_slots" for r off
    using keep[OF kernel_slots_lt[OF that]] sv(2)[OF that] h1 by simp
  have rs: "exec_code mmu lbl (map (\<lambda>(r, off). Ld r off SP) restore_slots) h2 = h2\<lparr>rg := restored restore_slots pb (hmem h2) (rg h2)\<rparr>"
  proof (rule exec_restore)
    fix r off assume "(r, off) \<in> set restore_slots"
    then have "off < 256" using sub kernel_slots_lt by blast
    then show "hart_addr mmu h2 (rg h2 SP + of_nat off) = pb + of_nat off" using f2 spv by (simp add: frame_mapped_def)
  next
    fix off assume "(SP, off) \<in> set restore_slots"
    then show "load64 (hmem h2) (pb + of_nat off) = rg h2 SP" using val[of SP off] sub spv by auto
  qed (use kernel_slots_ok(2) in \<open>simp add: slots_def\<close>)
  let ?R = "restored restore_slots pb (hmem h2) (rg h2)"
  have R: "?R r = ((rg h)(SP := rg h SP - 256)) r" if nz: "r \<noteq> Zero" and ntp: "r \<noteq> TP" for r
  proof -
    obtain off where o: "(r, off) \<in> set kernel_slots" using kernel_slot_cases[OF nz] by blast
    then have "(r, off) \<in> set restore_slots" using ntp by (simp add: restore_slots_def)
    then show ?thesis using restored_in[OF kernel_slots_ok(2)] val[OF o] by simp
  qed
  have tp: "?R TP = rg h2 TP" by (rule restored_other) (auto simp: restore_slots_def)
  have fin: "kernelvec mmu lbl handler h = do_sret (set_reg SP (?R SP + 256) (h2\<lparr>rg := ?R\<rparr>))"
    unfolding kernelvec_def kernelvec_codes(2) using h1 h2 rs by simp
  show ?thesis using R tp unfolding fin by (simp add: do_sret_def Let_def)
qed

theorem kernelvec_transparent_witness:
  "rg (kernelvec (\<lambda>_ va. va) (\<lambda>_. 0) (\<lambda>h. h\<lparr>rg := (rg h)(A0 := 77, S1 := 0, TP := 3)\<rparr>) (test_hart SupervisorMode)) A0 = 0x80001000 \<and>
   rg (kernelvec (\<lambda>_ va. va) (\<lambda>_. 0) (\<lambda>h. h\<lparr>rg := (rg h)(A0 := 77, S1 := 0, TP := 3)\<rparr>) (test_hart SupervisorMode)) TP = 3"
  using kernelvec_transparent[of "\<lambda>_ va. va" "test_hart SupervisorMode" "0x80008000 - 256" _ "\<lambda>_. 0" _ "\<lambda>h. h\<lparr>rg := (rg h)(A0 := 77, S1 := 0, TP := 3)\<rparr>" A0, OF _ refl refl]
  by (simp add: frame_mapped_def hart_addr_def test_hart_def)

section \<open>Context switches\<close>

definition ctx_slots :: "(reg \<times> nat) list" where
  "ctx_slots = [(RA, 0), (SP, 8), (S0, 16), (S1, 24), (S2, 32), (S3, 40), (S4, 48), (S5, 56), (S6, 64), (S7, 72), (S8, 80), (S9, 88),
     (S10, 96), (S11, 104)]"

lemma ctx_slots_ok: "slots ctx_slots" "A0 \<notin> fst ` set ctx_slots" "A1 \<notin> fst ` set ctx_slots"
  by (simp_all add: slots_def ctx_slots_def)

lemma swtch_code: "swtch = map (\<lambda>(r, off). Sd r off A0) ctx_slots @ map (\<lambda>(r, off). Ld r off A1) ctx_slots @ [Ret]"
  by (simp add: swtch_def ctx_slots_def)

text \<open>A register of the machine points to the \<open>struct context\<close> at \<open>p\<close>; two contexts do not overlap.\<close>

definition ctx_at :: "mmu \<Rightarrow> hart \<Rightarrow> reg \<Rightarrow> uint64 \<Rightarrow> bool" where
  "ctx_at mmu h r p \<longleftrightarrow> (\<forall>k<112. hart_addr mmu h (rg h r + of_nat k) = p + of_nat k)"

definition ctx_sep :: "uint64 \<Rightarrow> uint64 \<Rightarrow> bool" where
  "ctx_sep p q \<longleftrightarrow> (\<forall>i<112. \<forall>j<112. 8 dvd i \<longrightarrow> 8 dvd j \<longrightarrow> disjoint (p + of_nat i) 8 (q + of_nat j) 8)"

lemma load_saved_sep:
  "(\<And>r off. (r, off) \<in> set tab \<Longrightarrow> disjoint (p + of_nat off) 8 b 8) \<Longrightarrow> load64 (saved tab p R m) b = load64 m b"
proof (induction tab arbitrary: m)
  case (Cons x tab)
  obtain r off where x: "x = (r, off)" by force
  have "load64 (saved (x # tab) p R m) b = load64 (store64 m (p + of_nat off) (R r)) b"
    unfolding x saved_Cons using Cons.prems by (intro Cons.IH) auto
  also have "\<dots> = load64 m b"
    unfolding store64_def using Cons.prems[of r off] x by (intro load64_store_disjoint) simp
  finally show ?case .
qed (simp add: saved_def)

lemma swtch_run:
  assumes "ctx_at mmu h A0 p" and "ctx_at mmu h A1 q" and "ctx_sep p q"
  shows "hmem (exec_code mmu lbl swtch h) = saved ctx_slots p (rg h) (hmem h)"
    and "(r, off) \<in> set ctx_slots \<Longrightarrow> rg (exec_code mmu lbl swtch h) r = load64 (hmem h) (q + of_nat off)"
    and "hpc (exec_code mmu lbl swtch h) = load64 (hmem h) q"
proof -
  have lt: "off < 112" "8 dvd off" if "(r, off) \<in> set ctx_slots" for r off using that by (auto simp: ctx_slots_def)
  let ?m = "saved ctx_slots p (rg h) (hmem h)"
  let ?h = "h\<lparr>hmem := ?m\<rparr>"
  have s: "exec_code mmu lbl (map (\<lambda>(r, off). Sd r off A0) ctx_slots) h = ?h"
    by (rule exec_save) (use assms(1) lt in \<open>auto simp: ctx_at_def\<close>)
  have l: "exec_code mmu lbl (map (\<lambda>(r, off). Ld r off A1) ctx_slots) ?h = ?h\<lparr>rg := restored ctx_slots q (hmem ?h) (rg ?h)\<rparr>"
  proof (rule exec_restore)
    show "hart_addr mmu ?h (rg ?h A1 + of_nat off) = q + of_nat off" if "(r, off) \<in> set ctx_slots" for r off
      using assms(2) lt[OF that] by (simp add: ctx_at_def)
    show "load64 (hmem ?h) (q + of_nat off) = rg ?h A1" if "(A1, off) \<in> set ctx_slots" for off using that ctx_slots_ok(3) by force
  qed (use ctx_slots_ok(1) in \<open>simp add: slots_def\<close>)
  have v: "restored ctx_slots q ?m (rg h) r = load64 (hmem h) (q + of_nat off)" if "(r, off) \<in> set ctx_slots" for r off
  proof -
    have "restored ctx_slots q ?m (rg h) r = load64 ?m (q + of_nat off)" by (rule restored_in[OF ctx_slots_ok(1) that])
    also have "\<dots> = load64 (hmem h) (q + of_nat off)"
      by (rule load_saved_sep) (use assms(3) lt that in \<open>auto simp: ctx_sep_def\<close>)
    finally show ?thesis .
  qed
  show "hmem (exec_code mmu lbl swtch h) = ?m" unfolding swtch_code using s l by simp
  show "rg (exec_code mmu lbl swtch h) r = load64 (hmem h) (q + of_nat off)" if "(r, off) \<in> set ctx_slots"
    unfolding swtch_code using s l v[OF that] by simp
  have "(RA, 0) \<in> set ctx_slots" by (simp add: ctx_slots_def)
  from v[OF this] show "hpc (exec_code mmu lbl swtch h) = load64 (hmem h) q" unfolding swtch_code using s l by simp
qed


text \<open>
  (C25) A context switch is transparent.  \<open>swtch(old, new)\<close> continues at \<open>new\<close>'s return address with its stack pointer
  and callee-saved registers.  When, later, on any CPU, somebody switches to \<open>old\<close>, whose slots are as \<open>swtch\<close> left them,
  execution continues at the return address of the first call with exactly the stack pointer and
  callee-saved registers it had then.
\<close>

theorem swtch_roundtrip:
  assumes "ctx_at mmu h A0 old" and "ctx_at mmu h A1 new" and "ctx_sep old new"
    and "ctx_at mmu h2 A0 x" and "ctx_at mmu h2 A1 old" and "ctx_sep x old"
    and keep: "\<And>k. k < 112 \<Longrightarrow> load64 (hmem h2) (old + of_nat k) = load64 (hmem (exec_code mmu lbl swtch h)) (old + of_nat k)"
    and r: "r \<in> {RA, SP, S0, S1, S2, S3, S4, S5, S6, S7, S8, S9, S10, S11}"
  shows "rg (exec_code mmu lbl swtch h2) r = rg h r \<and> hpc (exec_code mmu lbl swtch h2) = rg h RA \<and>
    hpc (exec_code mmu lbl swtch h) = load64 (hmem h) new \<and> rg (exec_code mmu lbl swtch h) SP = load64 (hmem h) (new + 8)"
proof -
  note one = swtch_run[OF assms(1-3), where lbl = lbl] and two = swtch_run[OF assms(4-6), where lbl = lbl]
  have again: "rg (exec_code mmu lbl swtch h2) q = rg h q" if "(q, off) \<in> set ctx_slots" for q off
  proof -
    have "off < 112" using that by (auto simp: ctx_slots_def)
    then show ?thesis using two(2)[OF that] keep[of off] one(1) load_saved[OF ctx_slots_ok(1) that] by simp
  qed
  have "\<exists>off. (r, off) \<in> set ctx_slots" using r by (auto simp: ctx_slots_def)
  then have "rg (exec_code mmu lbl swtch h2) r = rg h r" using again by blast
  moreover have "(RA, 0) \<in> set ctx_slots" "(SP, 8) \<in> set ctx_slots" by (simp_all add: ctx_slots_def)
  then have "load64 (saved ctx_slots old (rg h) (hmem h)) (old + of_nat 0) = rg h RA"
    "rg (exec_code mmu lbl swtch h) SP = load64 (hmem h) (new + of_nat 8)"
    using load_saved[OF ctx_slots_ok(1)] one(2) by blast+
  ultimately show ?thesis using two(3) one(1,3) keep[of 0] by simp
qed

theorem swtch_roundtrip_witness:
  "rg (exec_code (\<lambda>_ va. va) (\<lambda>_. 0) swtch ((exec_code (\<lambda>_ va. va) (\<lambda>_. 0) swtch (test_hart SupervisorMode))
     \<lparr>rg := (\<lambda>r. if r = A0 then 0x80001200 else if r = A1 then 0x80001000 else 99)\<rparr>)) SP = 0x80008000"
proof -
  let ?h = "test_hart SupervisorMode" and ?mmu = "\<lambda>_ va. va :: uint64"
  let ?h2 = "(exec_code ?mmu (\<lambda>_. 0) swtch ?h)\<lparr>rg := (\<lambda>r. if r = A0 then 0x80001200 else if r = A1 then 0x80001000 else 99)\<rparr>"
  have sep: "ctx_sep 0x80001000 0x80001200" "ctx_sep 0x80001200 0x80001000"
  proof -
    have "disjoint (0x80001000 + of_nat i) 8 (0x80001000 + of_nat (512 + j)) 8" "disjoint (0x80001000 + of_nat (512 + j)) 8 (0x80001000 + of_nat i) 8"
      if "i < 112" "j < 112" "8 dvd i" "8 dvd j" for i j :: nat
      using that by (intro slots_disjoint; simp)+
    then show "ctx_sep 0x80001000 0x80001200" "ctx_sep 0x80001200 0x80001000"
      by (auto simp: ctx_sep_def algebra_simps)
  qed
  have "rg (exec_code ?mmu (\<lambda>_. 0) swtch ?h2) SP = rg ?h SP \<and> hpc (exec_code ?mmu (\<lambda>_. 0) swtch ?h2) = rg ?h RA \<and>
    hpc (exec_code ?mmu (\<lambda>_. 0) swtch ?h) = load64 (hmem ?h) 0x80001200 \<and> rg (exec_code ?mmu (\<lambda>_. 0) swtch ?h) SP = load64 (hmem ?h) (0x80001200 + 8)"
    by (rule swtch_roundtrip[where x = "0x80001200" and old = "0x80001000"]) (use sep in \<open>simp_all add: ctx_at_def hart_addr_def test_hart_def\<close>)
  then show ?thesis by (simp add: test_hart_def)
qed

text \<open>
  (C24) A system call or interrupt from user space, and back.  \<open>uservec\<close> enters the kernel at \<open>kernel_trap\<close> on
  the kernel's stack and page table, with every user register in its slot of \<open>struct trapframe\<close>.  From any later
  state of the CPU from which the kernel calls \<open>userret\<close>, the user continues at \<open>sepc\<close> on the
  user page table with the registers of the trapframe: a register whose slot the kernel left alone has its old value, and one that
  the kernel set, as \<open>a0\<close> for a system call's result, has the new one.
\<close>

theorem user_trap_roundtrip:
  assumes "hmode h = SupervisorMode" and "tf_mapped mmu (cs h SATP) tf"
    and "hmode h2 = SupervisorMode" and "tf_mapped mmu (rg h2 A0) tf" and slot: "tf_slot r = Some f"
    and h1: "h1 = exec_code mmu lbl uservec h" and h3: "h3 = exec_code mmu lbl userret h2"
  shows "hpc h1 = tf_at tf (hmem h) TF_kernel_trap \<and> rg h1 SP = tf_at tf (hmem h) TF_kernel_sp \<and>
    rg h1 TP = tf_at tf (hmem h) TF_kernel_hartid \<and> cs h1 SATP = tf_at tf (hmem h) TF_kernel_satp \<and>
    tf_at tf (hmem h1) f = rg h r \<and> rg h3 r = tf_at tf (hmem h2) f \<and>
    (tf_at tf (hmem h2) f = tf_at tf (hmem h1) f \<longrightarrow> rg h3 r = rg h r) \<and> hpc h3 = cs h2 SEPC \<and> cs h3 SATP = rg h2 A0"
proof -
  note run = uservec_run[OF assms(1,2), where lbl = lbl] and ret = userret_loads[OF assms(3,4), where lbl = lbl]
  have k: "tf_at tf (hmem h1) g = tf_at tf (hmem h) g" if "tf_off g < 40" for g
    unfolding h1 by (rule uservec_keeps[OF assms(1,2) that])
  have "hpc h1 = tf_at tf (hmem h1) TF_kernel_trap \<and> rg h1 SP = tf_at tf (hmem h1) TF_kernel_sp \<and>
    rg h1 TP = tf_at tf (hmem h1) TF_kernel_hartid \<and> cs h1 SATP = tf_at tf (hmem h1) TF_kernel_satp"
    unfolding tf_at_def h1 run by simp
  then show ?thesis
    using k[of TF_kernel_trap] k[of TF_kernel_sp] k[of TF_kernel_hartid] k[of TF_kernel_satp] ret(1)[OF slot] ret(2,3)
      uservec_saves[OF assms(1,2) slot, where lbl = lbl] h1 h3 by simp
qed

theorem user_trap_roundtrip_witness:
  "rg (exec_code (\<lambda>_ va. va - TRAPFRAME + 0x80004000) (\<lambda>_. 0) userret ((test_hart SupervisorMode)\<lparr>hmem :=
     hmem (exec_code (\<lambda>_ va. va - TRAPFRAME + 0x80004000) (\<lambda>_. 0) uservec (test_hart SupervisorMode))\<rparr>)) S3 = 7"
  using user_trap_roundtrip[of "test_hart SupervisorMode" "\<lambda>_ va. va - TRAPFRAME + 0x80004000" "0x80004000" "(test_hart SupervisorMode)\<lparr>hmem :=
     hmem (exec_code (\<lambda>_ va. va - TRAPFRAME + 0x80004000) (\<lambda>_. 0) uservec (test_hart SupervisorMode))\<rparr>" S3 TF_s3 _ "\<lambda>_. 0", OF _ _ _ _ _ refl refl]
  by (simp add: tf_mapped_def test_hart_def)

section \<open>The timer\<close>

lemma timer_separate:
  assumes "hid < 8" and "aligned 3 sc" and "KERNBASE \<le> sc" and "sc \<le> PHYSTOP"
  shows "k < 40 \<Longrightarrow> 8 dvd k \<Longrightarrow> load64 (store64 m (sc + of_nat k) v) (CLINT_MTIMECMP hid) = load64 m (CLINT_MTIMECMP hid)"
    and "k < 40 \<Longrightarrow> 8 dvd k \<Longrightarrow> load64 (store64 m (CLINT_MTIMECMP hid) v) (sc + of_nat k) = load64 m (sc + of_nat k)"
proof -
  have mc: "unat (CLINT_MTIMECMP hid) = 0x2004000 + 8 * unat hid"
  proof -
    have "unat hid < 8" using assms(1) by (simp add: word_less_nat_alt)
    then show ?thesis by (simp add: CLINT_MTIMECMP_def CLINT_def unat_word_ariths)
  qed
  have lt: "unat hid < 8" using assms(1) by (simp add: word_less_nat_alt)
  have s: "unat (sc + of_nat k) = unat sc + k" if "k < 40"
    using that assms(4) by (simp add: word_le_nat_alt unat_word_ariths unat_of_nat take_bit_eq_mod)
  have big: "0x80000000 \<le> unat sc" using assms(3) by (simp add: word_le_nat_alt)
  have al: "aligned 3 (CLINT_MTIMECMP hid)" by (simp add: aligned_def mc)
  have al2: "aligned 3 (sc + of_nat k)" "sc + of_nat k \<noteq> CLINT_MTIMECMP hid" if "k < 40" "8 dvd k"
    using that s assms(2) mc lt big by (auto simp: aligned_def dest!: arg_cong[of _ _ unat])
  show "load64 (store64 m (sc + of_nat k) v) (CLINT_MTIMECMP hid) = load64 m (CLINT_MTIMECMP hid)" if "k < 40" "8 dvd k"
    unfolding store64_def using aligned_disjoint[OF al2(1) al al2(2)] that by (intro load64_store_disjoint) simp
  show "load64 (store64 m (CLINT_MTIMECMP hid) v) (sc + of_nat k) = load64 m (sc + of_nat k)" if "k < 40" "8 dvd k"
    unfolding store64_def using aligned_disjoint[OF al al2(1) al2(2)[symmetric]] that by (intro load64_store_disjoint) simp
qed

text \<open>
  (C27) The clock.  After \<open>timerinit\<close> on hart \<open>id\<close>, and as long as nobody touches its scratch area, every run of
  \<open>timervec\<close> moves that hart's \<open>MTIMECMP\<close> on by 1000000 cycles, raises the supervisor software interrupt that
  \<open>devintr\<close> takes for the clock, and returns with every register and \<open>mscratch\<close> as they were.
\<close>

theorem timervec_ticks:
  assumes hid: "hid = cs h0 MHARTID" "hid < 8" and sc: "sc = lbl ''timer_scratch'' + 40 * hid" "aligned 3 sc"
    and ram: "KERNBASE \<le> sc" "sc \<le> PHYSTOP"
    and h: "hmode h = MachineMode" "cs h MSCRATCH = cs (timerinit lbl h0) MSCRATCH"
    and keep: "load64 (hmem h) (sc + 24) = load64 (hmem (timerinit lbl h0)) (sc + 24)"
      "load64 (hmem h) (sc + 32) = load64 (hmem (timerinit lbl h0)) (sc + 32)"
    and h': "h' = exec_code mmu lbl timervec h"
  shows "load64 (hmem h') (CLINT_MTIMECMP hid) = load64 (hmem h) (CLINT_MTIMECMP hid) + 1000000 \<and> rg h' = rg h \<and>
    cs h' SIP = 2 \<and> cs h' MSCRATCH = cs h MSCRATCH \<and> hpc h' = cs h MEPC"
proof -
  let ?mc = "CLINT_MTIMECMP hid"
  note dev = timer_separate[OF hid(2) sc(2) ram]
  note ss = load_store_slot[of 0 24 _ sc, simplified] load_store_slot[of 0 32 _ sc, simplified] load_store_slot[of 8 24 _ sc, simplified]
    load_store_slot[of 8 32 _ sc, simplified] load_store_slot[of 16 24 _ sc, simplified] load_store_slot[of 16 32 _ sc, simplified]
    load_store_slot[of 32 24 _ sc, simplified] load_store_slot[of 16 8 _ sc, simplified] load_store_slot[of 8 0 _ sc, simplified]
    load_store_slot[of 16 0 _ sc, simplified]
  note ms = dev(1)[of 0, simplified] dev(1)[of 8, simplified] dev(1)[of 16, simplified] dev(2)[of 0, simplified] dev(2)[of 8, simplified] dev(2)[of 16, simplified]
  have "hid < 0x80000000" by (rule less_trans[OF hid(2)]) simp
  then have id: "as_int hid = hid" by (rule as_int_small)
  have init: "cs (timerinit lbl h0) MSCRATCH = sc" "load64 (hmem (timerinit lbl h0)) (sc + 24) = ?mc"
    "load64 (hmem (timerinit lbl h0)) (sc + 32) = 1000000"
    by (simp_all add: timerinit_def Let_def hid(1)[symmetric] r_mhartid_def id sc(1)[symmetric] put64_def w_mscratch_def w_mtvec_def w_mstatus_def
        w_mie_def r_mie_def r_mstatus_def ss)
  show ?thesis
    using h init keep unfolding h'
    by (simp add: timervec_def hart_addr_def ss ms do_mret_def Let_def fun_upd_twist fun_eq_iff)
qed

theorem timervec_ticks_witness:
  "load64 (hmem (exec_code (\<lambda>_ va. va) (\<lambda>_. 0x80005000) timervec (timerinit (\<lambda>_. 0x80005000) (test_hart MachineMode)))) 0x2004008 = 2000000"
proof -
  let ?h = "timerinit (\<lambda>_. 0x80005000) (test_hart MachineMode)"
  have m: "hmode ?h = MachineMode"
    by (simp add: timerinit_def Let_def put64_def w_mscratch_def w_mtvec_def w_mstatus_def w_mie_def test_hart_def)
  have z: "load64 (\<lambda>_. 0) a = 0" for a by (simp add: load64_def load_bytes_def map_replicate_const)
  have "load64 (hmem ?h) 0x2004008 = 1000000"
    using timer_separate(1)[of 1 "0x80005028" 24] timer_separate(1)[of 1 "0x80005028" 32]
    by (simp add: timerinit_def Let_def put64_def w_mscratch_def w_mtvec_def w_mstatus_def w_mie_def r_mhartid_def as_int_small test_hart_def z
        CLINT_MTIMECMP_def CLINT_def aligned_def)
  then show ?thesis
    using timervec_ticks[of 1 "test_hart MachineMode" "0x80005028" "\<lambda>_. 0x80005000" ?h _ "\<lambda>_ va. va", OF _ _ _ _ _ _ m refl refl refl refl]
    by (simp add: test_hart_def aligned_def CLINT_MTIMECMP_def CLINT_def)
qed


section \<open>Boot\<close>

text \<open>
  Each hart enters \<open>start\<close> on top of its own 4096 bytes of \<open>stack0\<close>, and \<open>start\<close> leaves machine mode for \<open>main\<close>,
  in supervisor mode, without paging, with the hart's number in \<open>tp\<close> and all traps delegated.
\<close>

lemma entry_stack:
  "rg (exec_code mmu lbl entry h) SP = lbl ''stack0'' + 4096 * (cs h MHARTID + 1) \<and> hpc (exec_code mmu lbl entry h) = lbl ''start''"
  by (simp add: entry_def)

lemma mpp_supervisor: "((x AND NOT MSTATUS_MPP_MASK OR MSTATUS_MPP_S) OR MSTATUS_MIE) AND MSTATUS_MPP_MASK = MSTATUS_MPP_S"
proof -
  have m: "(3 :: uint64) = mask 2" by (simp add: mask_eq_exp_minus_1)
  have b: "bit MSTATUS_MPP_MASK n \<longleftrightarrow> n = 11 \<or> n = 12" "bit MSTATUS_MPP_S n \<longleftrightarrow> n = 11" "bit MSTATUS_MIE n \<longleftrightarrow> n = 3" for n
    unfolding MSTATUS_MPP_MASK_def MSTATUS_MPP_S_def MSTATUS_MIE_def m bit_push_bit_iff bit_mask_iff bit_1_iff by auto
  show ?thesis by (rule bit_eqI) (auto simp: b bit_or_iff bit_and_iff bit_not_iff)
qed

lemma start_enters_main:
  "hmode (start lbl h) = SupervisorMode \<and> hpc (start lbl h) = lbl ''main'' \<and> rg (start lbl h) TP = as_int (cs h MHARTID) \<and> cs (start lbl h) SATP = 0 \<and>
   cs (start lbl h) MEDELEG = 0xffff \<and> cs (start lbl h) MIDELEG = 0xffff \<and> cs (start lbl h) MSCRATCH = lbl ''timer_scratch'' + 40 * as_int (cs h MHARTID)"
proof -
  have "MSTATUS_MPP_S \<noteq> MSTATUS_MPP_MASK" by (simp add: MSTATUS_MPP_S_def MSTATUS_MPP_MASK_def push_bit_eq_mult)
  moreover have "cs (timerinit lbl g) c = cs g c" if "c \<notin> {MSCRATCH, MTVEC, MSTATUS, MIE}" for g c
    using that by (simp add: timerinit_def Let_def put64_def w_mscratch_def w_mtvec_def w_mstatus_def w_mie_def)
  moreover have "cs (timerinit lbl g) MSTATUS = cs g MSTATUS OR MSTATUS_MIE" "cs (timerinit lbl g) MSCRATCH = lbl ''timer_scratch'' + 40 * as_int (cs g MHARTID)"
    "rg (timerinit lbl g) = rg g" for g
    by (simp_all add: timerinit_def Let_def put64_def w_mscratch_def w_mtvec_def w_mstatus_def w_mie_def r_mstatus_def r_mhartid_def)
  ultimately show ?thesis using mpp_supervisor[of "cs h MSTATUS"]
    by (simp add: start_def do_mret_def Let_def w_mstatus_def w_mepc_def w_satp_def w_medeleg_def w_mideleg_def w_sie_def
        w_pmpaddr0_def w_pmpcfg0_def w_tp_def r_mhartid_def r_mstatus_def r_sie_def)
qed

end
