(* ===== verification/Xv6_Virtio.thy ===== *)
theory Xv6_Virtio
  imports Xv6_Bio Xv6_Kalloc Xv6_Ring
begin

text \<open>
  \<^verbatim>\<open>kernel/virtio_disk.c\<close>: the driver of the disk, with the descriptor table and the two rings it shares with
  the device.  An address in a descriptor points to a command header, to the data of a buffer or to a
  status byte, and is modelled as such a pointer.  Several requests may be in flight.

  The device is not part of the repository.  The values of its registers are an argument of
  \<open>virtio_disk_init\<close>, as a function of what was written so far; what it does with a request is an argument
  of the machine at the end of this theory, under the hypothesis that it does what the virtio specification
  says of a block device (\<open>serve\<close>).
\<close>

section \<open>Data structures (kernel/virtio.h)\<close>

definition NUM :: nat where [simp]: "NUM = 8"

datatype vaddr = VNull | VOp nat | VData nat | VStatus nat

record virtq_desc =
  d_addr :: vaddr
  d_len :: uint
  d_flags :: ushort
  d_next :: ushort

record virtio_blk_req =
  rq_type :: uint
  rq_reserved :: uint
  rq_sector :: uint64

record vinfo =
  vi_b :: "nat option"
  vi_status :: uchar

definition VIRTIO_MMIO_MAGIC_VALUE :: nat where [simp]: "VIRTIO_MMIO_MAGIC_VALUE = 0x000"
definition VIRTIO_MMIO_VERSION :: nat where [simp]: "VIRTIO_MMIO_VERSION = 0x004"
definition VIRTIO_MMIO_DEVICE_ID :: nat where [simp]: "VIRTIO_MMIO_DEVICE_ID = 0x008"
definition VIRTIO_MMIO_VENDOR_ID :: nat where [simp]: "VIRTIO_MMIO_VENDOR_ID = 0x00c"
definition VIRTIO_MMIO_DEVICE_FEATURES :: nat where [simp]: "VIRTIO_MMIO_DEVICE_FEATURES = 0x010"
definition VIRTIO_MMIO_DRIVER_FEATURES :: nat where [simp]: "VIRTIO_MMIO_DRIVER_FEATURES = 0x020"
definition VIRTIO_MMIO_QUEUE_SEL :: nat where [simp]: "VIRTIO_MMIO_QUEUE_SEL = 0x030"
definition VIRTIO_MMIO_QUEUE_NUM_MAX :: nat where [simp]: "VIRTIO_MMIO_QUEUE_NUM_MAX = 0x034"
definition VIRTIO_MMIO_QUEUE_NUM :: nat where [simp]: "VIRTIO_MMIO_QUEUE_NUM = 0x038"
definition VIRTIO_MMIO_QUEUE_READY :: nat where [simp]: "VIRTIO_MMIO_QUEUE_READY = 0x044"
definition VIRTIO_MMIO_QUEUE_NOTIFY :: nat where [simp]: "VIRTIO_MMIO_QUEUE_NOTIFY = 0x050"
definition VIRTIO_MMIO_INTERRUPT_STATUS :: nat where [simp]: "VIRTIO_MMIO_INTERRUPT_STATUS = 0x060"
definition VIRTIO_MMIO_INTERRUPT_ACK :: nat where [simp]: "VIRTIO_MMIO_INTERRUPT_ACK = 0x064"
definition VIRTIO_MMIO_STATUS :: nat where [simp]: "VIRTIO_MMIO_STATUS = 0x070"
definition VIRTIO_MMIO_QUEUE_DESC_LOW :: nat where [simp]: "VIRTIO_MMIO_QUEUE_DESC_LOW = 0x080"
definition VIRTIO_MMIO_QUEUE_DESC_HIGH :: nat where [simp]: "VIRTIO_MMIO_QUEUE_DESC_HIGH = 0x084"
definition VIRTIO_MMIO_DRIVER_DESC_LOW :: nat where [simp]: "VIRTIO_MMIO_DRIVER_DESC_LOW = 0x090"
definition VIRTIO_MMIO_DRIVER_DESC_HIGH :: nat where [simp]: "VIRTIO_MMIO_DRIVER_DESC_HIGH = 0x094"
definition VIRTIO_MMIO_DEVICE_DESC_LOW :: nat where [simp]: "VIRTIO_MMIO_DEVICE_DESC_LOW = 0x0a0"
definition VIRTIO_MMIO_DEVICE_DESC_HIGH :: nat where [simp]: "VIRTIO_MMIO_DEVICE_DESC_HIGH = 0x0a4"
definition VIRTIO_CONFIG_S_ACKNOWLEDGE :: uint where [simp]: "VIRTIO_CONFIG_S_ACKNOWLEDGE = 1"
definition VIRTIO_CONFIG_S_DRIVER :: uint where [simp]: "VIRTIO_CONFIG_S_DRIVER = 2"
definition VIRTIO_CONFIG_S_DRIVER_OK :: uint where [simp]: "VIRTIO_CONFIG_S_DRIVER_OK = 4"
definition VIRTIO_CONFIG_S_FEATURES_OK :: uint where [simp]: "VIRTIO_CONFIG_S_FEATURES_OK = 8"
definition VIRTIO_BLK_F_RO :: nat where [simp]: "VIRTIO_BLK_F_RO = 5"
definition VIRTIO_BLK_F_SCSI :: nat where [simp]: "VIRTIO_BLK_F_SCSI = 7"
definition VIRTIO_BLK_F_CONFIG_WCE :: nat where [simp]: "VIRTIO_BLK_F_CONFIG_WCE = 11"
definition VIRTIO_BLK_F_MQ :: nat where [simp]: "VIRTIO_BLK_F_MQ = 12"
definition VIRTIO_F_ANY_LAYOUT :: nat where [simp]: "VIRTIO_F_ANY_LAYOUT = 27"
definition VIRTIO_RING_F_INDIRECT_DESC :: nat where [simp]: "VIRTIO_RING_F_INDIRECT_DESC = 28"
definition VIRTIO_RING_F_EVENT_IDX :: nat where [simp]: "VIRTIO_RING_F_EVENT_IDX = 29"

definition VRING_DESC_F_NEXT :: ushort where [simp]: "VRING_DESC_F_NEXT = 1"
definition VRING_DESC_F_WRITE :: ushort where [simp]: "VRING_DESC_F_WRITE = 2"
definition VIRTIO_BLK_T_IN :: uint where [simp]: "VIRTIO_BLK_T_IN = 0"
definition VIRTIO_BLK_T_OUT :: uint where [simp]: "VIRTIO_BLK_T_OUT = 1"

text \<open>
  \<open>struct disk\<close>.  \<open>vq_used_idx\<close> and \<open>vq_used_ring\<close> are \<open>used->idx\<close> and the ids of \<open>used->ring\<close>, written by the
  device; \<open>vq_dev_seen\<close> and \<open>vq_dev_pending\<close> are the device's own position in the available ring and the chains it
  has fetched and not completed; \<open>vq_regs\<close> lists the writes to the registers.
\<close>

record vdisk =
  vq_desc :: "virtq_desc list"
  vq_avail_idx :: ushort
  vq_avail_ring :: "ushort list"
  vq_used_idx :: ushort
  vq_used_ring :: "uint list"
  vd_free :: "bool list"
  vd_used_idx :: ushort
  vd_info :: "vinfo list"
  vd_ops :: "virtio_blk_req list"
  vq_dev_seen :: ushort
  vq_dev_pending :: "nat list"
  vq_regs :: "(nat \<times> uint) list"
  vq_pages :: "uint64 list"

record vst =
  vk :: kstate
  vd :: vdisk

type_synonym 'a driver = "(nat, vst, 'a) code"

definition liftV :: "'a kernel \<Rightarrow> 'a driver" where
  "liftV f s = (case f (vk s) of Ret x k \<Rightarrow> Ret x (s\<lparr>vk := k\<rparr>) | Panic m \<Rightarrow> Panic m | Swtch c k \<Rightarrow> Swtch c (s\<lparr>vk := k\<rparr>) | Spin \<Rightarrow> Spin)"

definition updV :: "(vdisk \<Rightarrow> vdisk) \<Rightarrow> unit driver" where
  "updV f = modK (\<lambda>s. s\<lparr>vd := f (vd s)\<rparr>)"

section \<open>Initialisation\<close>

definition zero_desc :: virtq_desc where
  "zero_desc = \<lparr>d_addr = VNull, d_len = 0, d_flags = 0, d_next = 0\<rparr>"

text \<open>\<open>mmio ws r\<close> is what the device's register \<open>r\<close> reads as after the writes \<open>ws\<close>.\<close>

definition rd :: "((nat \<times> uint) list \<Rightarrow> nat \<Rightarrow> uint) \<Rightarrow> nat \<Rightarrow> uint driver" where
  "rd mmio r = getK (\<lambda>s. mmio (vq_regs (vd s)) r)"

definition wr :: "nat \<Rightarrow> uint \<Rightarrow> unit driver" where
  "wr r v = updV (\<lambda>d. d\<lparr>vq_regs := vq_regs d @ [(r, v)]\<rparr>)"

definition virtio_features :: "uint64 \<Rightarrow> uint64" where
  "virtio_features f = fold (\<lambda>n f. f AND NOT (push_bit n 1)) 
     [VIRTIO_BLK_F_RO, VIRTIO_BLK_F_SCSI, VIRTIO_BLK_F_CONFIG_WCE, VIRTIO_BLK_F_MQ, VIRTIO_F_ANY_LAYOUT,
      VIRTIO_RING_F_EVENT_IDX, VIRTIO_RING_F_INDIRECT_DESC] f"

definition virtio_queue_init :: "uint \<Rightarrow> unit driver" where
  "virtio_queue_init status =
     bindK (liftV kalloc) (\<lambda>desc.
     bindK (liftV kalloc) (\<lambda>avail.
     bindK (liftV kalloc) (\<lambda>used.
     if desc = 0 \<or> avail = 0 \<or> used = 0 then panicK ''virtio disk kalloc''
     else
       thenK (liftV (modK (\<lambda>k. k\<lparr>mem := memset (memset (memset (mem k) desc 0 (unat PGSIZE)) avail 0 (unat PGSIZE)) used 0 (unat PGSIZE)\<rparr>)))
      (thenK (updV (\<lambda>d. d\<lparr>vq_pages := [desc, avail, used], vq_desc := replicate NUM zero_desc, vq_avail_idx := 0,
                          vq_avail_ring := replicate NUM 0, vq_used_idx := 0, vq_used_ring := replicate NUM 0\<rparr>))
      (thenK (wr VIRTIO_MMIO_QUEUE_NUM (of_nat NUM))
      (thenK (wr VIRTIO_MMIO_QUEUE_DESC_LOW (ucast desc))
      (thenK (wr VIRTIO_MMIO_QUEUE_DESC_HIGH (ucast (drop_bit 32 desc)))
      (thenK (wr VIRTIO_MMIO_DRIVER_DESC_LOW (ucast avail))
      (thenK (wr VIRTIO_MMIO_DRIVER_DESC_HIGH (ucast (drop_bit 32 avail)))
      (thenK (wr VIRTIO_MMIO_DEVICE_DESC_LOW (ucast used))
      (thenK (wr VIRTIO_MMIO_DEVICE_DESC_HIGH (ucast (drop_bit 32 used)))
      (thenK (wr VIRTIO_MMIO_QUEUE_READY 1)
      (thenK (forK [0..<NUM] (\<lambda>i. updV (\<lambda>d. d\<lparr>vd_free := (vd_free d)[i := True]\<rparr>)))
             (wr VIRTIO_MMIO_STATUS (status OR VIRTIO_CONFIG_S_DRIVER_OK)))))))))))))))"

definition virtio_disk_init :: "((nat \<times> uint) list \<Rightarrow> nat \<Rightarrow> uint) \<Rightarrow> unit driver" where
  "virtio_disk_init mmio =
     bindK (rd mmio VIRTIO_MMIO_MAGIC_VALUE) (\<lambda>magic.
     bindK (rd mmio VIRTIO_MMIO_VERSION) (\<lambda>version.
     bindK (rd mmio VIRTIO_MMIO_DEVICE_ID) (\<lambda>device.
     bindK (rd mmio VIRTIO_MMIO_VENDOR_ID) (\<lambda>vendor.
     if magic \<noteq> 0x74726976 \<or> version \<noteq> 2 \<or> device \<noteq> 2 \<or> vendor \<noteq> 0x554d4551 then panicK ''could not find virtio disk''
     else
       thenK (wr VIRTIO_MMIO_STATUS 0)
      (thenK (wr VIRTIO_MMIO_STATUS VIRTIO_CONFIG_S_ACKNOWLEDGE)
      (thenK (wr VIRTIO_MMIO_STATUS (VIRTIO_CONFIG_S_ACKNOWLEDGE OR VIRTIO_CONFIG_S_DRIVER))
      (bindK (rd mmio VIRTIO_MMIO_DEVICE_FEATURES) (\<lambda>features.
       thenK (wr VIRTIO_MMIO_DRIVER_FEATURES (ucast (virtio_features (ucast features))))
      (thenK (wr VIRTIO_MMIO_STATUS (VIRTIO_CONFIG_S_ACKNOWLEDGE OR VIRTIO_CONFIG_S_DRIVER OR VIRTIO_CONFIG_S_FEATURES_OK))
      (bindK (rd mmio VIRTIO_MMIO_STATUS) (\<lambda>status.
       if status AND VIRTIO_CONFIG_S_FEATURES_OK = 0 then panicK ''virtio disk FEATURES_OK unset''
       else
         thenK (wr VIRTIO_MMIO_QUEUE_SEL 0)
        (bindK (rd mmio VIRTIO_MMIO_QUEUE_READY) (\<lambda>ready.
         if ready \<noteq> 0 then panicK ''virtio disk should not be ready''
         else bindK (rd mmio VIRTIO_MMIO_QUEUE_NUM_MAX) (\<lambda>mx.
           if mx = 0 then panicK ''virtio disk has no queue 0''
           else if mx < of_nat NUM then panicK ''virtio disk max queue too short''
           else virtio_queue_init status))))))))))))))"

section \<open>Descriptors\<close>

fun alloc_desc_loop :: "nat list \<Rightarrow> int driver" where
  "alloc_desc_loop [] = retK (- 1)"
| "alloc_desc_loop (i # is) = bindK (getK (\<lambda>s. vd_free (vd s) ! i)) (\<lambda>f.
     if f then thenK (updV (\<lambda>d. d\<lparr>vd_free := (vd_free d)[i := False]\<rparr>)) (retK (int i)) else alloc_desc_loop is)"

definition alloc_desc :: "int driver" where
  "alloc_desc = alloc_desc_loop [0..<NUM]"

definition free_desc :: "nat \<Rightarrow> unit driver" where
  "free_desc i =
     (if i \<ge> NUM then panicK ''free_desc 1''
      else bindK (getK (\<lambda>s. vd_free (vd s) ! i)) (\<lambda>f.
        if f then panicK ''free_desc 2''
        else thenK (updV (\<lambda>d. d\<lparr>vq_desc := (vq_desc d)[i := zero_desc], vd_free := (vd_free d)[i := True]\<rparr>))
                   (liftV (wakeup ChDiskFree))))"

text \<open>A chain has at most \<open>NUM\<close> descriptors; on a cyclic one \<open>free_desc\<close> panics.\<close>

fun vfree_chain :: "nat \<Rightarrow> nat \<Rightarrow> unit driver" where
  "vfree_chain 0 i = (\<lambda>s. Spin)"
| "vfree_chain (Suc fuel) i = bindK (getK (\<lambda>s. vq_desc (vd s) ! i)) (\<lambda>d.
     thenK (free_desc i)
     (if d_flags d AND VRING_DESC_F_NEXT \<noteq> 0 then vfree_chain fuel (unat (d_next d)) else retK ()))"

fun alloc3_loop :: "nat \<Rightarrow> nat list \<Rightarrow> (int \<times> nat list) driver" where
  "alloc3_loop 0 idx = retK (0, idx)"
| "alloc3_loop (Suc n) idx = bindK alloc_desc (\<lambda>i.
     if i < 0 then thenK (forK idx free_desc) (retK (- 1, idx)) else alloc3_loop n (idx @ [nat i]))"

definition alloc3_desc :: "(int \<times> nat list) driver" where
  "alloc3_desc = alloc3_loop 3 []"

section \<open>Requests\<close>

definition vsector :: "uint \<Rightarrow> uint64" where
  "vsector blockno = ucast (blockno * 2)"

definition format_descs :: "nat \<Rightarrow> nat \<Rightarrow> nat \<Rightarrow> nat \<Rightarrow> uint64 \<Rightarrow> bool \<Rightarrow> vdisk \<Rightarrow> vdisk" where
  "format_descs i0 i1 i2 b sector write d = d\<lparr>
     vd_ops := (vd_ops d)[i0 := \<lparr>rq_type = (if write then VIRTIO_BLK_T_OUT else VIRTIO_BLK_T_IN), rq_reserved = 0, rq_sector = sector\<rparr>],
     vq_desc := (vq_desc d)
       [i0 := \<lparr>d_addr = VOp i0, d_len = 16, d_flags = VRING_DESC_F_NEXT, d_next = of_nat i1\<rparr>,
        i1 := \<lparr>d_addr = VData b, d_len = of_nat BSIZE, d_flags = (if write then 0 else VRING_DESC_F_WRITE) OR VRING_DESC_F_NEXT, d_next = of_nat i2\<rparr>,
        i2 := \<lparr>d_addr = VStatus i0, d_len = 1, d_flags = VRING_DESC_F_WRITE, d_next = 0\<rparr>],
     vd_info := (vd_info d)[i0 := (vd_info d ! i0)\<lparr>vi_status := 0xff\<rparr>]\<rparr>"

definition post_avail :: "nat \<Rightarrow> nat \<Rightarrow> vdisk \<Rightarrow> vdisk" where
  "post_avail i0 b d = d\<lparr>
     vd_info := (vd_info d)[i0 := (vd_info d ! i0)\<lparr>vi_b := Some b\<rparr>],
     vq_avail_ring := (vq_avail_ring d)[unat (vq_avail_idx d) mod NUM := of_nat i0],
     vq_avail_idx := vq_avail_idx d + 1\<rparr>"

text \<open>When the process sleeps here it continues, after \<open>sleep_resume\<close>, with \<open>vdisk_rw_wait\<close>.\<close>

definition vdisk_rw_wait :: "nat \<Rightarrow> nat \<Rightarrow> unit driver" where
  "vdisk_rw_wait b i0 = bindK (getK (\<lambda>s. b_disk (bufs (vk s) ! b))) (\<lambda>busy.
     if busy then liftV (sleep (ChBuf b) LDisk)
     else thenK (updV (\<lambda>d. d\<lparr>vd_info := (vd_info d)[i0 := (vd_info d ! i0)\<lparr>vi_b := None\<rparr>]\<rparr>))
         (thenK (vfree_chain (NUM + 1) i0)
                (liftV (release LDisk))))"

definition vdisk_rw_submit :: "nat \<Rightarrow> bool \<Rightarrow> uint64 \<Rightarrow> nat list \<Rightarrow> unit driver" where
  "vdisk_rw_submit b write sector idx =
     thenK (updV (format_descs (idx ! 0) (idx ! 1) (idx ! 2) b sector write))
    (thenK (liftV (modK (upd_buf b (\<lambda>bp. bp\<lparr>b_disk := True\<rparr>))))
    (thenK (updV (post_avail (idx ! 0) b))
    (thenK (wr VIRTIO_MMIO_QUEUE_NOTIFY 0)
           (vdisk_rw_wait b (idx ! 0)))))"

text \<open>When the process sleeps for descriptors it continues, after \<open>sleep_resume\<close>, with \<open>vdisk_rw_alloc\<close>.\<close>

definition vdisk_rw_alloc :: "nat \<Rightarrow> bool \<Rightarrow> uint64 \<Rightarrow> unit driver" where
  "vdisk_rw_alloc b write sector = bindK alloc3_desc (\<lambda>(r, idx).
     if r = 0 then vdisk_rw_submit b write sector idx else liftV (sleep ChDiskFree LDisk))"

definition vdisk_rw :: "nat \<Rightarrow> bool \<Rightarrow> unit driver" where
  "vdisk_rw b write = bindK (getK (\<lambda>s. vsector (b_blockno (bufs (vk s) ! b)))) (\<lambda>sector.
     thenK (liftV (acquire LDisk)) (vdisk_rw_alloc b write sector))"

fun vdisk_intr_loop :: "nat \<Rightarrow> unit driver" where
  "vdisk_intr_loop 0 = (\<lambda>s. Spin)"
| "vdisk_intr_loop (Suc fuel) = bindK (getK vd) (\<lambda>d.
     if vd_used_idx d = vq_used_idx d then retK ()
     else let i = unat (vq_used_ring d ! (unat (vd_used_idx d) mod NUM)) in
       if vi_status (vd_info d ! i) \<noteq> 0 then panicK ''virtio_disk_intr status''
       else case vi_b (vd_info d ! i) of None \<Rightarrow> liftV null_fault
         | Some b \<Rightarrow>
           thenK (liftV (modK (upd_buf b (\<lambda>bp. bp\<lparr>b_disk := False\<rparr>))))
          (thenK (liftV (wakeup (ChBuf b)))
          (thenK (updV (\<lambda>d. d\<lparr>vd_used_idx := vd_used_idx d + 1\<rparr>))
                 (vdisk_intr_loop fuel))))"

text \<open>The loop runs once for every completed request.\<close>

definition virtio_disk_intr :: "((nat \<times> uint) list \<Rightarrow> nat \<Rightarrow> uint) \<Rightarrow> unit driver" where
  "virtio_disk_intr mmio =
     thenK (liftV (acquire LDisk))
    (bindK (rd mmio VIRTIO_MMIO_INTERRUPT_STATUS) (\<lambda>st.
     thenK (wr VIRTIO_MMIO_INTERRUPT_ACK (st AND 3))
    (thenK (bindK (getK (\<lambda>s. unat (vq_used_idx (vd s) - vd_used_idx (vd s)))) (\<lambda>n. vdisk_intr_loop (n + 1)))
           (liftV (release LDisk)))))"

section \<open>The device\<close>

text \<open>
  What the virtio specification says of a block device.  It fetches the available chains in the order of the
  ring and completes fetched requests in any order: it finds the header, the data and the status byte through
  the chain, moves \<open>BSIZE\<close> bytes between the buffer and the two sectors of a block, stores 0 in the status
  byte, and adds the head of the chain to the used ring.
\<close>

definition dev_fetch :: "vst \<Rightarrow> vst" where
  "dev_fetch s = s\<lparr>vd := (vd s)\<lparr>vq_dev_pending := vq_dev_pending (vd s) @ [unat (vq_avail_ring (vd s) ! (unat (vq_dev_seen (vd s)) mod NUM))],
     vq_dev_seen := vq_dev_seen (vd s) + 1\<rparr>\<rparr>"

definition dev_transfer :: "virtio_blk_req \<Rightarrow> nat \<Rightarrow> kstate \<Rightarrow> kstate" where
  "dev_transfer rq b k = (let blk = ucast (drop_bit 1 (rq_sector rq)) in
     if rq_type rq = VIRTIO_BLK_T_OUT
     then k\<lparr>disk := (disk k)(blk := b_data (bufs k ! b)), dwrites := dwrites k @ [(blk, b_data (bufs k ! b))]\<rparr>
     else upd_buf b (\<lambda>bp. bp\<lparr>b_data := disk k blk\<rparr>) k)"

definition well_chained :: "virtq_desc \<Rightarrow> virtq_desc \<Rightarrow> virtq_desc \<Rightarrow> bool \<Rightarrow> bool" where
  "well_chained d0 d1 d2 write \<longleftrightarrow>
     d_len d0 = 16 \<and> d_flags d0 AND VRING_DESC_F_NEXT \<noteq> 0 \<and>
     d_len d1 = of_nat BSIZE \<and> d_flags d1 AND VRING_DESC_F_NEXT \<noteq> 0 \<and> (d_flags d1 AND VRING_DESC_F_WRITE = 0 \<longleftrightarrow> write) \<and>
     d_len d2 = 1 \<and> d_flags d2 AND VRING_DESC_F_WRITE \<noteq> 0"

definition dev_complete :: "nat \<Rightarrow> vst \<Rightarrow> vst option" where
  "dev_complete h s = (let d = vd s; d0 = vq_desc d ! h; d1 = vq_desc d ! unat (d_next d0); d2 = vq_desc d ! unat (d_next d1) in
     case (d_addr d0, d_addr d1, d_addr d2) of
       (VOp op, VData b, VStatus st) \<Rightarrow>
         if \<not> well_chained d0 d1 d2 (rq_type (vd_ops d ! op) = VIRTIO_BLK_T_OUT) then None
         else Some (s\<lparr>vk := dev_transfer (vd_ops d ! op) b (vk s),
           vd := d\<lparr>vd_info := (vd_info d)[st := (vd_info d ! st)\<lparr>vi_status := 0\<rparr>],
                   vq_used_ring := (vq_used_ring d)[unat (vq_used_idx d) mod NUM := of_nat h],
                   vq_used_idx := vq_used_idx d + 1, vq_dev_pending := remove1 h (vq_dev_pending d)\<rparr>\<rparr>)
     | _ \<Rightarrow> None)"

definition device_step :: "vst \<Rightarrow> vst \<Rightarrow> bool" where
  "device_step s t \<longleftrightarrow> (vq_dev_seen (vd s) \<noteq> vq_avail_idx (vd s) \<and> t = dev_fetch s) \<or>
     (\<exists>h \<in> set (vq_dev_pending (vd s)). dev_complete h s = Some t)"

section \<open>Requests in flight\<close>

text \<open>The local variables of a call of \<open>virtio_disk_rw\<close> that has posted its request.\<close>

record vcall =
  q_b :: nat
  q_write :: bool
  q_sector :: uint64
  q_i0 :: nat
  q_i1 :: nat
  q_i2 :: nat

definition descs :: "vcall \<Rightarrow> nat set" where
  "descs q = {q_i0 q, q_i1 q, q_i2 q}"

definition vchain :: "vdisk \<Rightarrow> vcall \<Rightarrow> bool" where
  "vchain d q \<longleftrightarrow>
     vq_desc d ! q_i0 q = \<lparr>d_addr = VOp (q_i0 q), d_len = 16, d_flags = VRING_DESC_F_NEXT, d_next = of_nat (q_i1 q)\<rparr> \<and>
     vq_desc d ! q_i1 q = \<lparr>d_addr = VData (q_b q), d_len = of_nat BSIZE,
        d_flags = (if q_write q then 0 else VRING_DESC_F_WRITE) OR VRING_DESC_F_NEXT, d_next = of_nat (q_i2 q)\<rparr> \<and>
     vq_desc d ! q_i2 q = \<lparr>d_addr = VStatus (q_i0 q), d_len = 1, d_flags = VRING_DESC_F_WRITE, d_next = 0\<rparr> \<and>
     vd_ops d ! q_i0 q = \<lparr>rq_type = (if q_write q then VIRTIO_BLK_T_OUT else VIRTIO_BLK_T_IN), rq_reserved = 0, rq_sector = q_sector q\<rparr> \<and>
     vi_b (vd_info d ! q_i0 q) = Some (q_b q)"

definition vsized :: "vdisk \<Rightarrow> bool" where
  "vsized d \<longleftrightarrow> length (vq_desc d) = NUM \<and> length (vq_avail_ring d) = NUM \<and> length (vq_used_ring d) = NUM \<and>
     length (vd_free d) = NUM \<and> length (vd_info d) = NUM \<and> length (vd_ops d) = NUM"

text \<open>
  The descriptor table when the calls \<open>R\<close> are in flight and the descriptors \<open>X\<close> are taken but in no chain.
\<close>

definition vtab :: "vdisk \<Rightarrow> vcall set \<Rightarrow> nat set \<Rightarrow> bool" where
  "vtab d R X \<longleftrightarrow> vsized d \<and>
     (\<forall>q \<in> R. vchain d q \<and> distinct [q_i0 q, q_i1 q, q_i2 q] \<and> descs q \<subseteq> {..<NUM} \<and> descs q \<inter> X = {}) \<and>
     (\<forall>q \<in> R. \<forall>r \<in> R. q \<noteq> r \<longrightarrow> descs q \<inter> descs r = {}) \<and> X \<subseteq> {..<NUM} \<and>
     (\<forall>i < NUM. vd_free d ! i \<longleftrightarrow> i \<notin> X \<and> (\<forall>q \<in> R. i \<notin> descs q))"

text \<open>
  The calls in flight are those whose chain is in the available ring (\<open>w\<close>), fetched by the device (\<open>p\<close>), in
  the used ring (\<open>u\<close>), and those whose process may continue (\<open>e\<close>).
\<close>

definition vqueues :: "vdisk \<Rightarrow> vcall list \<Rightarrow> vcall list \<Rightarrow> vcall list \<Rightarrow> bool" where
  "vqueues d w p u \<longleftrightarrow>
     ring_queue (vq_avail_ring d) 8 (vq_dev_seen d) (vq_avail_idx d) = map (\<lambda>q. of_nat (q_i0 q)) w \<and>
     vq_dev_pending d = map q_i0 p \<and>
     ring_queue (vq_used_ring d) 8 (vd_used_idx d) (vq_used_idx d) = map (\<lambda>q. of_nat (q_i0 q)) u \<and>
     (\<forall>q \<in> set u. vi_status (vd_info d ! q_i0 q) = 0)"

definition vbusy :: "buf list \<Rightarrow> vcall set \<Rightarrow> vcall set \<Rightarrow> bool" where
  "vbusy bs R B \<longleftrightarrow> length bs = NBUF \<and> (\<forall>q \<in> R. q_b q < NBUF) \<and> inj_on q_b R \<and> B \<subseteq> R \<and>
     (\<forall>b < NBUF. b_disk (bs ! b) \<longleftrightarrow> b \<in> q_b ` B)"

definition vinv :: "vst \<Rightarrow> vcall list \<Rightarrow> vcall list \<Rightarrow> vcall list \<Rightarrow> vcall list \<Rightarrow> bool" where
  "vinv s w p u e \<longleftrightarrow> vtab (vd s) (set (w @ p @ u @ e)) {} \<and> distinct (w @ p @ u @ e) \<and> vqueues (vd s) w p u \<and>
     vbusy (bufs (vk s)) (set (w @ p @ u @ e)) (set (w @ p @ u))"

lemma liftV_Ret: "f (vk s) = Ret x k \<Longrightarrow> liftV f s = Ret x (s\<lparr>vk := k\<rparr>)"
  by (simp add: liftV_def)

lemma liftV_Swtch: "f (vk s) = Swtch c k \<Longrightarrow> liftV f s = Swtch c (s\<lparr>vk := k\<rparr>)"
  by (simp add: liftV_def)

lemma updV_apply [simp]: "updV f s = Ret () (s\<lparr>vd := f (vd s)\<rparr>)"
  by (simp add: updV_def)

lemma wr_apply [simp]: "wr r v s = Ret () (s\<lparr>vd := (vd s)\<lparr>vq_regs := vq_regs (vd s) @ [(r, v)]\<rparr>\<rparr>)"
  by (simp add: wr_def)

lemma rd_apply [simp]: "rd mmio r s = Ret (mmio (vq_regs (vd s)) r) s"
  by (simp add: rd_def)

definition kframe :: "kstate \<Rightarrow> kstate \<Rightarrow> bool" where
  "kframe k l \<longleftrightarrow> held l = held k \<and> curproc l = curproc k \<and> bufs l = bufs k \<and> disk l = disk k \<and> dwrites l = dwrites k \<and>
     length (procs l) = length (procs k)"

lemma kframe_refl [simp]: "kframe k k"
  by (simp add: kframe_def)

lemma kframe_trans: "kframe k l \<Longrightarrow> kframe l m \<Longrightarrow> kframe k m"
  by (simp add: kframe_def)

lemma kframe_woken: "kframe k (woken_ptr ch k)"
  by (simp add: kframe_def)

subsection \<open>alloc3_desc\<close>

lemma alloc_desc_loop_eq:
  "alloc_desc_loop is s = (case List.find (\<lambda>i. vd_free (vd s) ! i) is of None \<Rightarrow> Ret (- 1) s
     | Some i \<Rightarrow> Ret (int i) (s\<lparr>vd := (vd s)\<lparr>vd_free := (vd_free (vd s))[i := False]\<rparr>\<rparr>))"
  by (induction "is") simp_all

lemma alloc_desc_cases:
  assumes "vtab (vd s) R X"
  shows "alloc_desc s = Ret (- 1) s \<and> (\<forall>i < NUM. i \<in> X \<or> (\<exists>q \<in> R. i \<in> descs q)) \<or>
     (\<exists>i < NUM. i \<notin> X \<and> (\<forall>q \<in> R. i \<notin> descs q) \<and> (\<exists>t. alloc_desc s = Ret (int i) t \<and> vk t = vk s \<and> vtab (vd t) R (insert i X) \<and>
        t = s\<lparr>vd := (vd s)\<lparr>vd_free := (vd_free (vd s))[i := False]\<rparr>\<rparr>))"
proof (cases "List.find (\<lambda>i. vd_free (vd s) ! i) [0..<NUM]")
  case None
  then have "\<forall>i < NUM. i \<in> X \<or> (\<exists>q \<in> R. i \<in> descs q)"
    using assms unfolding find_upt_None vtab_def by blast
  then show ?thesis using None by (simp add: alloc_desc_def alloc_desc_loop_eq)
next
  case (Some i)
  then have i: "i < NUM" "vd_free (vd s) ! i" by (auto dest: find_SomeD)
  then have fr: "i \<notin> X" "\<forall>q \<in> R. i \<notin> descs q" using assms unfolding vtab_def by blast+
  let ?t = "s\<lparr>vd := (vd s)\<lparr>vd_free := (vd_free (vd s))[i := False]\<rparr>\<rparr>"
  have "vtab (vd ?t) R (insert i X)"
    using assms i fr by (auto simp: vtab_def vsized_def vchain_def nth_list_update)
  then show ?thesis using i fr Some by (auto simp: alloc_desc_def alloc_desc_loop_eq)
qed

lemma free_desc_taken:
  assumes tab: "vtab (vd s) R X" and i: "i \<in> X" and k: "proc_locks_free (vk s)" "length (procs (vk s)) = NPROC"
  shows "\<exists>t. free_desc i s = Ret () t \<and> vk t = woken ChDiskFree (vk s) \<and> vtab (vd t) R (X - {i}) \<and>
     vd t = (vd s)\<lparr>vq_desc := (vq_desc (vd s))[i := zero_desc], vd_free := (vd_free (vd s))[i := True]\<rparr>"
proof -
  have i8: "i < NUM" "\<not> vd_free (vd s) ! i" using tab i unfolding vtab_def by blast+
  let ?d = "(vd s)\<lparr>vq_desc := (vq_desc (vd s))[i := zero_desc], vd_free := (vd_free (vd s))[i := True]\<rparr>"
  have "vtab ?d R (X - {i})"
    using tab i i8 by (auto simp: vtab_def vsized_def vchain_def nth_list_update descs_def)
  moreover have "free_desc i s = Ret () (s\<lparr>vd := ?d, vk := woken ChDiskFree (vk s)\<rparr>)"
    using i8 wakeup_eq[OF k, of ChDiskFree] by (simp add: free_desc_def liftV_def)
  ultimately show ?thesis by (intro exI[of _ "s\<lparr>vd := ?d, vk := woken ChDiskFree (vk s)\<rparr>"]) simp
qed

definition vframe :: "vdisk \<Rightarrow> vdisk \<Rightarrow> bool" where
  "vframe d e \<longleftrightarrow> vq_avail_idx e = vq_avail_idx d \<and> vq_avail_ring e = vq_avail_ring d \<and> vq_used_idx e = vq_used_idx d \<and>
     vq_used_ring e = vq_used_ring d \<and> vq_dev_seen e = vq_dev_seen d \<and> vq_dev_pending e = vq_dev_pending d \<and>
     vd_used_idx e = vd_used_idx d \<and> vd_info e = vd_info d"

lemma free_descs:
  assumes "vtab (vd s) R (set idx)" and "distinct idx" and "proc_locks_free (vk s)" and "length (procs (vk s)) = NPROC"
  shows "\<exists>t. forK idx free_desc s = Ret () t \<and> vtab (vd t) R {} \<and> vframe (vd s) (vd t) \<and> kframe (vk s) (vk t)"
  using assms
proof (induction idx arbitrary: s)
  case Nil
  then show ?case by (simp add: vframe_def)
next
  case (Cons i idx)
  obtain t where t: "free_desc i s = Ret () t" "vk t = woken ChDiskFree (vk s)" "vtab (vd t) R (set (i # idx) - {i})"
      "vd t = (vd s)\<lparr>vq_desc := (vq_desc (vd s))[i := zero_desc], vd_free := (vd_free (vd s))[i := True]\<rparr>"
    using free_desc_taken[OF Cons.prems(1) _ Cons.prems(3,4), of i] by auto
  have "set (i # idx) - {i} = set idx" using Cons.prems(2) by auto
  then obtain u where u: "forK idx free_desc t = Ret () u" "vtab (vd u) R {}" "vframe (vd t) (vd u)" "kframe (vk t) (vk u)"
    using Cons.IH[of t] Cons.prems t by (auto simp: proc_locks_free_def)
  have "vframe (vd s) (vd u)" using u(3) t(4) by (simp add: vframe_def)
  moreover have "kframe (vk s) (vk u)" using kframe_trans[OF kframe_woken u(4)[unfolded t(2)]] .
  ultimately show ?case using t(1) u by simp
qed

lemma alloc3_loop_cases:
  assumes "vtab (vd s) R (set idx)" and "distinct idx" and "proc_locks_free (vk s)" and "length (procs (vk s)) = NPROC"
  shows "(\<exists>js t. alloc3_loop n idx s = Ret (0, idx @ js) t \<and> length js = n \<and> distinct (idx @ js) \<and> vtab (vd t) R (set (idx @ js)) \<and>
       vk t = vk s \<and> vframe (vd s) (vd t)) \<or>
     (\<exists>js t. alloc3_loop n idx s = Ret (- 1, idx @ js) t \<and> length js < n \<and> {..<NUM} \<subseteq> set (idx @ js) \<union> (\<Union>q \<in> R. descs q) \<and>
       vtab (vd t) R {} \<and> kframe (vk s) (vk t) \<and> vframe (vd s) (vd t))"
  using assms
proof (induction n arbitrary: s idx)
  case 0
  then show ?case by (simp add: vframe_def)
next
  case (Suc n)
  from alloc_desc_cases[OF Suc.prems(1)] show ?case
  proof (elim disjE exE conjE)
    assume a: "alloc_desc s = Ret (- 1) s" "\<forall>i < NUM. i \<in> set idx \<or> (\<exists>q \<in> R. i \<in> descs q)"
    obtain t where "forK idx free_desc s = Ret () t" "vtab (vd t) R {}" "vframe (vd s) (vd t)" "kframe (vk s) (vk t)"
      using free_descs[OF Suc.prems] by blast
    then show ?thesis using a by (intro disjI2 exI[of _ "[]"] exI[of _ t]) auto
  next
    fix i t
    assume a: "i < NUM" "i \<notin> set idx" "alloc_desc s = Ret (int i) t" "vk t = vk s" "vtab (vd t) R (insert i (set idx))"
      "t = s\<lparr>vd := (vd s)\<lparr>vd_free := (vd_free (vd s))[i := False]\<rparr>\<rparr>"
    have fr: "vframe (vd s) (vd t)" unfolding a(6) by (simp add: vframe_def)
    have run: "alloc3_loop (Suc n) idx s = alloc3_loop n (idx @ [i]) t" using a(3) by simp
    have pr: "vtab (vd t) R (set (idx @ [i]))" "distinct (idx @ [i])" "proc_locks_free (vk t)" "length (procs (vk t)) = NPROC"
      using a Suc.prems by simp_all
    from Suc.IH[OF pr] show ?thesis
    proof (elim disjE exE conjE)
      fix js t'
      assume b: "alloc3_loop n (idx @ [i]) t = Ret (0, (idx @ [i]) @ js) t'" "length js = n" "distinct ((idx @ [i]) @ js)"
        "vtab (vd t') R (set ((idx @ [i]) @ js))" "vk t' = vk t" "vframe (vd t) (vd t')"
      show ?thesis using b a(4) fr run by (intro disjI1 exI[of _ "i # js"] exI[of _ t']) (simp add: vframe_def)
    next
      fix js t'
      assume b: "alloc3_loop n (idx @ [i]) t = Ret (- 1, (idx @ [i]) @ js) t'" "length js < n" "vtab (vd t') R {}"
        "{..<NUM} \<subseteq> set ((idx @ [i]) @ js) \<union> (\<Union>q \<in> R. descs q)" "kframe (vk t) (vk t')" "vframe (vd t) (vd t')"
      show ?thesis using b a(4) fr run by (intro disjI2 exI[of _ "i # js"] exI[of _ t']) (simp add: vframe_def)
    qed
  qed
qed

subsection \<open>Posting a request\<close>

interpretation vring: ring_buffer "8 :: ushort"
  by unfold_locales simp_all

text \<open>What the rest of the kernel sees: the disk, the writes to it, and the buffers up to the flag \<open>disk\<close>.\<close>

definition kview :: "kstate \<Rightarrow> (uint \<Rightarrow> bytes) \<times> (uint \<times> bytes) list \<times> buf list" where
  "kview k = (disk k, dwrites k, map (\<lambda>bp. bp\<lparr>b_disk := False\<rparr>) (bufs k))"

definition posted :: "vcall \<Rightarrow> vdisk \<Rightarrow> vdisk" where
  "posted q d = post_avail (q_i0 q) (q_b q) (format_descs (q_i0 q) (q_i1 q) (q_i2 q) (q_b q) (q_sector q) (q_write q) d)"

lemma vchain_posted_other:
  assumes "vchain d r" and "descs r \<inter> descs q = {}"
  shows "vchain (posted q d) r"
  using assms by (simp add: vchain_def posted_def post_avail_def format_descs_def descs_def)

lemma vchain_posted_self:
  assumes "vsized d" and "distinct [q_i0 q, q_i1 q, q_i2 q]" and "descs q \<subseteq> {..<NUM}"
  shows "vchain (posted q d) q"
  using assms by (simp add: vchain_def posted_def post_avail_def format_descs_def descs_def vsized_def)

lemma vtab_posted:
  assumes tab: "vtab d R (descs q)" and q: "distinct [q_i0 q, q_i1 q, q_i2 q]"
  shows "vtab (posted q d) (insert q R) {}"
proof -
  note tab' = tab[unfolded vtab_def]
  have sz: "vsized d" and X: "descs q \<subseteq> {..<NUM}" using tab' by simp_all
  have R: "vchain d r" "distinct [q_i0 r, q_i1 r, q_i2 r]" "descs r \<subseteq> {..<NUM}" "descs r \<inter> descs q = {}" if "r \<in> R" for r
    using tab' that by blast+
  have "vsized (posted q d)" using sz by (simp add: vsized_def posted_def post_avail_def format_descs_def)
  moreover have "vchain (posted q d) r \<and> distinct [q_i0 r, q_i1 r, q_i2 r] \<and> descs r \<subseteq> {..<NUM}" if "r \<in> insert q R" for r
  proof (cases "r = q")
    case True
    then show ?thesis using vchain_posted_self[OF sz q X] q X by simp
  next
    case False
    then have r: "r \<in> R" using that by simp
    show ?thesis using vchain_posted_other[OF R(1)[OF r] R(4)[OF r]] R(2,3)[OF r] by blast
  qed
  moreover have "descs a \<inter> descs b = {}" if "a \<in> insert q R" "b \<in> insert q R" "a \<noteq> b" for a b
  proof -
    have "descs a \<inter> descs b = {}" if "a \<in> R" "b \<in> R" using tab' that \<open>a \<noteq> b\<close> by blast
    then show ?thesis using that R(4)[of a] R(4)[of b] by (cases "a = q"; cases "b = q") (simp_all add: Int_commute)
  qed
  moreover have "vd_free (posted q d) ! i \<longleftrightarrow> (\<forall>r \<in> insert q R. i \<notin> descs r)" if "i < NUM" for i
    using tab' that by (simp add: posted_def post_avail_def format_descs_def)
  ultimately show ?thesis unfolding vtab_def by (simp add: Ball_def)
qed

lemma vtab_heads_inj:
  assumes "vtab d R X" and "q \<in> R" and "r \<in> R" and "q_i0 q = q_i0 r"
  shows "q = r"
proof (rule ccontr)
  assume "q \<noteq> r"
  then have "descs q \<inter> descs r = {}" using assms unfolding vtab_def by blast
  then show False using assms(4) by (simp add: descs_def)
qed

lemma vtab_head_lt: "vtab d R X \<Longrightarrow> q \<in> R \<Longrightarrow> q_i0 q < NUM"
  unfolding vtab_def descs_def by blast

lemma distinct_heads:
  assumes "vtab d R X" and "set rs \<subseteq> R" and "distinct rs"
  shows "distinct (map q_i0 rs) \<and> length rs \<le> NUM"
proof -
  have "inj_on q_i0 (set rs)" using vtab_heads_inj[OF assms(1)] assms(2) by (auto simp: inj_on_def)
  then have d: "distinct (map q_i0 rs)" using assms(3) by (simp add: distinct_map)
  have "q_i0 ` set rs \<subseteq> {..<NUM}" using vtab_head_lt[OF assms(1)] assms(2) by auto
  then have "card (set (map q_i0 rs)) \<le> NUM" using card_mono[of "{..<NUM}" "q_i0 ` set rs"] by simp
  then show ?thesis using d distinct_card[OF d] by simp
qed

lemma posted_rings:
  "vq_avail_ring (posted q d) = (vq_avail_ring d)[unat (vq_avail_idx d) mod 8 := of_nat (q_i0 q)]"
  "vq_avail_idx (posted q d) = vq_avail_idx d + 1" "vq_dev_seen (posted q d) = vq_dev_seen d"
  "vq_dev_pending (posted q d) = vq_dev_pending d" "vq_used_ring (posted q d) = vq_used_ring d"
  "vq_used_idx (posted q d) = vq_used_idx d" "vd_used_idx (posted q d) = vd_used_idx d"
  "i \<noteq> q_i0 q \<Longrightarrow> vd_info (posted q d) ! i = vd_info d ! i"
  by (simp_all add: posted_def post_avail_def format_descs_def)

lemma vqueues_posted:
  assumes Q: "vqueues d w p u" and len: "length (vq_avail_ring d) = 8" and room: "length w < 8"
    and u: "\<forall>r \<in> set u. q_i0 r \<noteq> q_i0 q"
  shows "vqueues (posted q d) (w @ [q]) p u"
proof -
  have "unat (vq_avail_idx d - vq_dev_seen d) = length w"
    using Q length_ring_queue[of "vq_avail_ring d" 8 "vq_dev_seen d" "vq_avail_idx d"] by (simp add: vqueues_def)
  then have "ring_queue (vq_avail_ring (posted q d)) 8 (vq_dev_seen (posted q d)) (vq_avail_idx (posted q d)) = map (\<lambda>q. of_nat (q_i0 q)) (w @ [q])"
    unfolding posted_rings using vring.push[of "vq_avail_idx d" "vq_dev_seen d" "vq_avail_ring d" "of_nat (q_i0 q)"] room len Q
    by (simp add: vqueues_def)
  then show ?thesis using Q u by (simp add: vqueues_def posted_rings)
qed

lemma vbusy_on:
  assumes "vbusy bs R B" and "q_b q < NBUF" and "q_b q \<notin> q_b ` R"
  shows "vbusy (bs[q_b q := (bs ! q_b q)\<lparr>b_disk := True\<rparr>]) (insert q R) (insert q B)"
proof -
  have "b_disk (bs[q_b q := (bs ! q_b q)\<lparr>b_disk := True\<rparr>] ! b) \<longleftrightarrow> b \<in> q_b ` insert q B" if "b < NBUF" for b
    using assms that by (cases "b = q_b q") (auto simp: vbusy_def)
  then show ?thesis using assms unfolding vbusy_def by auto
qed

lemma vqueues_frame: "vframe d d' \<Longrightarrow> vqueues d' w p u = vqueues d w p u"
  by (simp add: vqueues_def vframe_def)

lemma vinv_posted:
  assumes inv: "vinv s w p u e" and tab: "vtab d (set (w @ p @ u @ e)) (descs q)" and fr: "vframe (vd s) d"
    and q: "distinct [q_i0 q, q_i1 q, q_i2 q]" and b: "q_b q < NBUF" "q_b q \<notin> q_b ` set (w @ p @ u @ e)"
    and k: "bufs k = (bufs (vk s))[q_b q := (bufs (vk s) ! q_b q)\<lparr>b_disk := True\<rparr>]"
  shows "vinv \<lparr>vk = k, vd = posted q d\<rparr> (w @ [q]) p u e"
proof -
  let ?R = "set (w @ p @ u @ e)"
  have new: "vtab (posted q d) (insert q ?R) {}" by (rule vtab_posted[OF tab q])
  have nR: "q \<notin> ?R" using b(2) by blast
  have dw: "distinct (w @ p @ u @ e)" using inv by (simp add: vinv_def)
  have dist: "distinct ((w @ [q]) @ p @ u @ e)" using nR dw by auto
  have "set (w @ [q]) \<subseteq> insert q ?R" "distinct (w @ [q])" using dist by auto
  then have room: "length w < 8" using distinct_heads[OF new, of "w @ [q]"] by simp
  have len: "length (vq_avail_ring d) = 8" using tab by (simp add: vtab_def vsized_def)
  have "\<forall>r \<in> set u. q_i0 r \<noteq> q_i0 q" using vtab_heads_inj[OF new _ insertI1] nR by auto
  then have Q: "vqueues (posted q d) (w @ [q]) p u"
    using vqueues_posted[OF _ len room] vqueues_frame[OF fr] inv by (simp add: vinv_def)
  have R: "set ((w @ [q]) @ p @ u @ e) = insert q ?R" "set ((w @ [q]) @ p @ u) = insert q (set (w @ p @ u))" by auto
  have "vbusy (bufs k) (insert q ?R) (insert q (set (w @ p @ u)))"
    unfolding k by (rule vbusy_on) (use inv b in \<open>simp_all add: vinv_def\<close>)
  then show ?thesis unfolding vinv_def R using new Q dist by simp
qed

text \<open>A process about to sleep on the disk: it holds \<open>vdisk_lock\<close> and no other spinlock.\<close>

definition in_disk :: "nat \<Rightarrow> kstate \<Rightarrow> bool" where
  "in_disk me k \<longleftrightarrow> curproc k = Some me \<and> me < NPROC \<and> length (procs k) = NPROC \<and> held k = [LDisk]"

definition asleep :: "nat \<Rightarrow> chan \<Rightarrow> kstate \<Rightarrow> bool" where
  "asleep me ch k \<longleftrightarrow> p_state (procs k ! me) = SLEEPING \<and> p_chan (procs k ! me) = Some ch"

lemma in_disk_locks: "in_disk me k \<Longrightarrow> proc_locks_free k"
  by (simp add: in_disk_def proc_locks_free_def)

lemma sleep_disk:
  assumes "in_disk me (vk s)"
  shows "\<exists>k. liftV (sleep ch LDisk) s = Swtch me (s\<lparr>vk := k\<rparr>) \<and> asleep me ch k \<and>
     bufs k = bufs (vk s) \<and> disk k = disk (vk s) \<and> dwrites k = dwrites (vk s) \<and> length (procs k) = NPROC"
proof -
  have c: "curproc (vk s) = Some me" "held (vk s) = [LDisk]" "LDisk \<noteq> LProc me" "me < length (procs (vk s))" "length (procs (vk s)) = NPROC"
    using assms by (simp_all add: in_disk_def)
  show ?thesis
    by (rule exI, rule conjI, rule liftV_Swtch, rule sleep_eq[OF c(1-4)])
       (use c(4,5) in \<open>simp add: asleep_def upd_proc_def\<close>)
qed

lemma kview_eqI: "bufs k = bufs l \<Longrightarrow> disk k = disk l \<Longrightarrow> dwrites k = dwrites l \<Longrightarrow> kview k = kview l"
  by (simp add: kview_def)

lemma vframe_regs: "vqueues (d\<lparr>vq_regs := r\<rparr>) w p u = vqueues d w p u" "vtab (d\<lparr>vq_regs := r\<rparr>) R X = vtab d R X"
  by (simp_all add: vqueues_def vtab_def vsized_def vchain_def)

lemma vinv_cong: "vd t = (vd s)\<lparr>vq_regs := r\<rparr> \<Longrightarrow> bufs (vk t) = bufs (vk s) \<Longrightarrow> vinv t w p u e = vinv s w p u e"
  by (simp add: vinv_def vframe_regs)

lemma vdisk_rw_submit_sleeps:
  assumes inv: "vinv s w p u e" and tab: "vtab (vd t) (set (w @ p @ u @ e)) (descs q)" and fr: "vframe (vd s) (vd t)" "vk t = vk s"
    and q: "distinct [q_i0 q, q_i1 q, q_i2 q]" and b: "q_b q < NBUF" "q_b q \<notin> q_b ` set (w @ p @ u @ e)"
    and ctx: "in_disk me (vk s)"
  shows "\<exists>r. vdisk_rw_submit (q_b q) (q_write q) (q_sector q) [q_i0 q, q_i1 q, q_i2 q] t = Swtch me r \<and> vinv r (w @ [q]) p u e \<and>
     asleep me (ChBuf (q_b q)) (vk r) \<and> kview (vk r) = kview (vk s) \<and> length (procs (vk r)) = NPROC"
proof -
  let ?k = "upd_buf (q_b q) (\<lambda>bp. bp\<lparr>b_disk := True\<rparr>) (vk s)"
  let ?v = "\<lparr>vk = ?k, vd = posted q (vd t)\<rparr>"
  let ?t = "?v\<lparr>vd := (vd ?v)\<lparr>vq_regs := vq_regs (vd ?v) @ [(0x050, 0)]\<rparr>\<rparr>"
  have kb: "bufs ?k = (bufs (vk s))[q_b q := (bufs (vk s) ! q_b q)\<lparr>b_disk := True\<rparr>]" by (simp add: upd_buf_def)
  have v: "vinv ?v (w @ [q]) p u e" by (rule vinv_posted[OF inv tab fr(1) q b kb])
  have len: "length (bufs (vk s)) = NBUF" using inv by (simp add: vinv_def vbusy_def)
  have "in_disk me (vk ?t)" using ctx by (simp add: in_disk_def upd_buf_def)
  from sleep_disk[OF this, of "ChBuf (q_b q)"] obtain k where
    k: "liftV (sleep (ChBuf (q_b q)) LDisk) ?t = Swtch me (?t\<lparr>vk := k\<rparr>)" "asleep me (ChBuf (q_b q)) k"
      "bufs k = bufs ?k" "disk k = disk ?k" "dwrites k = dwrites ?k" "length (procs k) = NPROC" by auto
  have busy: "b_disk (bufs ?k ! q_b q)" using b(1) len by (simp add: kb)
  have "vdisk_rw_submit (q_b q) (q_write q) (q_sector q) [q_i0 q, q_i1 q, q_i2 q] t = vdisk_rw_wait (q_b q) (q_i0 q) ?t"
    using fr(2) by (cases t) (simp add: vdisk_rw_submit_def liftV_def posted_def numeral_2_eq_2)
  also have "\<dots> = Swtch me (?t\<lparr>vk := k\<rparr>)" using busy k(1) by (simp add: vdisk_rw_wait_def)
  finally have run: "vdisk_rw_submit (q_b q) (q_write q) (q_sector q) [q_i0 q, q_i1 q, q_i2 q] t = Swtch me (?t\<lparr>vk := k\<rparr>)" .
  have "vinv (?t\<lparr>vk := k\<rparr>) (w @ [q]) p u e = vinv ?v (w @ [q]) p u e"
    by (rule vinv_cong) (simp_all add: k(3))
  moreover have "kview k = kview (vk s)"
    using len b(1) by (simp add: kview_def k kb map_update upd_buf_def list_update_same_conv)
  ultimately show ?thesis using run v k by (intro exI[of _ "?t\<lparr>vk := k\<rparr>"]) simp
qed

lemma descs_card:
  assumes "vtab d R X" and "finite R"
  shows "card (\<Union>q \<in> R. descs q) = 3 * card R"
proof -
  have "card (\<Union>q \<in> R. descs q) = (\<Sum>q \<in> R. card (descs q))"
    by (rule card_UN_disjoint) (use assms in \<open>auto simp: vtab_def descs_def\<close>)
  also have "\<dots> = (\<Sum>q \<in> R. 3)"
    by (rule sum.cong) (use assms in \<open>auto simp: vtab_def descs_def\<close>)
  finally show ?thesis by simp
qed

lemma descs_range: "vtab d R X \<Longrightarrow> (\<Union>q \<in> R. descs q) \<subseteq> {..<NUM}"
  unfolding vtab_def by blast

text \<open>
  \<open>virtio_disk_rw\<close> posts its request exactly when fewer than two are in flight, and otherwise sleeps for descriptors.
\<close>

lemma vdisk_rw_alloc_cases:
  assumes inv: "vinv s w p u e" and b: "b < NBUF" "b \<notin> q_b ` set (w @ p @ u @ e)" and ctx: "in_disk me (vk s)"
  shows "(\<exists>q r. vdisk_rw_alloc b write sector s = Swtch me r \<and> vinv r (w @ [q]) p u e \<and> q_b q = b \<and> q_write q = write \<and> q_sector q = sector \<and>
       (\<exists>t. alloc3_desc s = Ret (0, [q_i0 q, q_i1 q, q_i2 q]) t) \<and> length (w @ p @ u @ e) < 2 \<and> asleep me (ChBuf b) (vk r) \<and> kview (vk r) = kview (vk s) \<and> length (procs (vk r)) = NPROC) \<or>
     (\<exists>r. vdisk_rw_alloc b write sector s = Swtch me r \<and> vinv r w p u e \<and>
       (\<exists>js t. alloc3_desc s = Ret (- 1, js) t) \<and> length (w @ p @ u @ e) = 2 \<and> asleep me ChDiskFree (vk r) \<and> kview (vk r) = kview (vk s) \<and> length (procs (vk r)) = NPROC)"
proof -
  let ?R = "set (w @ p @ u @ e)"
  have tab: "vtab (vd s) ?R {}" and dist: "distinct (w @ p @ u @ e)" using inv by (simp_all add: vinv_def)
  have n: "card ?R = length (w @ p @ u @ e)" using distinct_card[OF dist] .
  have pr: "vtab (vd s) ?R (set [])" "distinct ([] :: nat list)" "proc_locks_free (vk s)" "length (procs (vk s)) = NPROC"
    using tab ctx in_disk_locks by (simp_all add: in_disk_def)
  from alloc3_loop_cases[OF pr, of 3] show ?thesis
  proof (elim disjE exE conjE)
    fix js t
    assume a: "alloc3_loop 3 [] s = Ret (0, [] @ js) t" "length js = 3" "distinct ([] @ js)" "vtab (vd t) ?R (set ([] @ js))"
      "vk t = vk s" "vframe (vd s) (vd t)"
    obtain i0 i1 i2 where js: "js = [i0, i1, i2]" using a(2) by (auto simp: length_Suc_conv numeral_3_eq_3)
    define q where "q = \<lparr>q_b = b, q_write = write, q_sector = sector, q_i0 = i0, q_i1 = i1, q_i2 = i2\<rparr>"
    have qs: "q_b q = b" "q_write q = write" "q_sector q = sector" "descs q = set js" "[q_i0 q, q_i1 q, q_i2 q] = js"
      by (simp_all add: q_def descs_def js)
    obtain r where r: "vdisk_rw_submit b write sector js t = Swtch me r" "vinv r (w @ [q]) p u e"
        "asleep me (ChBuf b) (vk r)" "kview (vk r) = kview (vk s)" "length (procs (vk r)) = NPROC"
      using vdisk_rw_submit_sleeps[OF inv _ a(6,5) _ _ _ ctx, of q] a(3,4) b unfolding qs by auto
    have tabr: "vtab (vd r) (set ((w @ [q]) @ p @ u @ e)) {}" and dr: "distinct ((w @ [q]) @ p @ u @ e)"
      using r(2) by (simp_all add: vinv_def)
    have "3 * length ((w @ [q]) @ p @ u @ e) \<le> 8"
      using card_mono[OF _ descs_range[OF tabr]] descs_card[OF tabr] distinct_card[OF dr] by simp
    then have small: "length (w @ p @ u @ e) < 2" by simp
    have "vdisk_rw_alloc b write sector s = Swtch me r"
      using a(1) r(1) by (simp add: vdisk_rw_alloc_def alloc3_desc_def)
    moreover have "\<exists>t. alloc3_desc s = Ret (0, [q_i0 q, q_i1 q, q_i2 q]) t" using a(1) qs(5) by (simp add: alloc3_desc_def)
    ultimately show ?thesis using r small qs(1-3)
      by - (rule disjI1, rule exI[of _ q], rule exI[of _ r], intro conjI)
  next
    fix js t
    assume a: "alloc3_loop 3 [] s = Ret (- 1, [] @ js) t" "length js < 3" "{..<NUM} \<subseteq> set ([] @ js) \<union> (\<Union>q \<in> ?R. descs q)"
      "vtab (vd t) ?R {}" "kframe (vk s) (vk t)" "vframe (vd s) (vd t)"
    have "8 \<le> card (set js \<union> (\<Union>q \<in> ?R. descs q))" using card_mono[OF _ a(3)] by (simp add: descs_def)
    also have "\<dots> \<le> card (set js) + card (\<Union>q \<in> ?R. descs q)" by (rule card_Un_le)
    also have "\<dots> \<le> length js + 3 * length (w @ p @ u @ e)" using card_length[of js] descs_card[OF tab] n by simp
    finally have "2 \<le> length (w @ p @ u @ e)" using a(2) by simp
    moreover have "3 * length (w @ p @ u @ e) \<le> 8" using card_mono[OF _ descs_range[OF tab]] descs_card[OF tab] n by simp
    ultimately have two: "length (w @ p @ u @ e) = 2" by simp
    have inv': "vinv t w p u e" using inv a(4,5) vqueues_frame[OF a(6)] by (simp add: vinv_def kframe_def)
    have "in_disk me (vk t)" using ctx a(5) by (simp add: in_disk_def kframe_def)
    from sleep_disk[OF this, of ChDiskFree] obtain k where
      k: "liftV (sleep ChDiskFree LDisk) t = Swtch me (t\<lparr>vk := k\<rparr>)" "asleep me ChDiskFree k"
        "bufs k = bufs (vk t)" "disk k = disk (vk t)" "dwrites k = dwrites (vk t)" "length (procs k) = NPROC" by blast
    have "vdisk_rw_alloc b write sector s = Swtch me (t\<lparr>vk := k\<rparr>)"
      using a(1) k(1) by (simp add: vdisk_rw_alloc_def alloc3_desc_def)
    moreover have "vinv (t\<lparr>vk := k\<rparr>) w p u e" using inv' k(3) by (simp add: vinv_def)
    moreover have "kview k = kview (vk s)" using a(5) k by (simp add: kview_def kframe_def)
    moreover have "\<exists>js t. alloc3_desc s = Ret (- 1, js) t" using a(1) by (simp add: alloc3_desc_def)
    ultimately show ?thesis using two k(2,6) by (intro disjI2 exI[of _ "t\<lparr>vk := k\<rparr>"]) simp
  qed
qed

subsection \<open>The device\<close>

lemma remove1_map_inj:
  "inj_on f (set xs) \<Longrightarrow> x \<in> set xs \<Longrightarrow> remove1 (f x) (map f xs) = map f (remove1 x xs)"
  by (induction xs) (auto simp: inj_on_def)

lemma vqueues_fetch:
  assumes "vqueues (vd s) w p u" and "vq_dev_seen (vd s) \<noteq> vq_avail_idx (vd s)" and lt: "\<forall>q \<in> set w. q_i0 q < NUM"
  shows "\<exists>q w'. w = q # w' \<and> vqueues (vd (dev_fetch s)) w' (p @ [q]) u"
proof -
  let ?d = "vd s"
  have "ring_queue (vq_avail_ring ?d) 8 (vq_dev_seen ?d) (vq_avail_idx ?d) =
      vq_avail_ring ?d ! (unat (vq_dev_seen ?d) mod 8) # ring_queue (vq_avail_ring ?d) 8 (vq_dev_seen ?d + 1) (vq_avail_idx ?d)"
    using vring.pop[OF assms(2)[symmetric], of "vq_avail_ring ?d"] by simp
  then obtain q w' where w: "w = q # w'" "of_nat (q_i0 q) = vq_avail_ring ?d ! (unat (vq_dev_seen ?d) mod 8)"
      "ring_queue (vq_avail_ring ?d) 8 (vq_dev_seen ?d + 1) (vq_avail_idx ?d) = map (\<lambda>q. of_nat (q_i0 q)) w'"
    using assms(1) by (cases w) (auto simp: vqueues_def)
  have "unat (of_nat (q_i0 q) :: ushort) = q_i0 q" using lt w(1) by (simp add: unat_of_nat take_bit_nat_eq_self_iff)
  then show ?thesis using assms(1) w by (intro exI[of _ q] exI[of _ w']) (simp add: vqueues_def dev_fetch_def)
qed

lemma vtab_cong: "vframe d d' \<Longrightarrow> vq_desc d' = vq_desc d \<Longrightarrow> vd_ops d' = vd_ops d \<Longrightarrow> vd_free d' = vd_free d \<Longrightarrow> vtab d' R X = vtab d R X"
  by (simp add: vtab_def vsized_def vchain_def vframe_def)

lemma vtab_dev_fetch [simp]: "vtab (vd (dev_fetch s)) R X = vtab (vd s) R X"
  by (simp add: vtab_def vsized_def vchain_def dev_fetch_def)

lemma vinv_fetch:
  assumes inv: "vinv s w p u e" and ne: "vq_dev_seen (vd s) \<noteq> vq_avail_idx (vd s)"
  shows "\<exists>q w'. w = q # w' \<and> vinv (dev_fetch s) w' (p @ [q]) u e \<and> vk (dev_fetch s) = vk s"
proof -
  have tab: "vtab (vd s) (set (w @ p @ u @ e)) {}" and Q: "vqueues (vd s) w p u" using inv by (simp_all add: vinv_def)
  have "\<forall>q \<in> set w. q_i0 q < NUM" using vtab_head_lt[OF tab] by auto
  from vqueues_fetch[OF Q ne this] obtain q w' where w: "w = q # w'" "vqueues (vd (dev_fetch s)) w' (p @ [q]) u" by blast
  have R: "set (w' @ (p @ [q]) @ u @ e) = set (w @ p @ u @ e)" "set (w' @ (p @ [q]) @ u) = set (w @ p @ u)" using w(1) by auto
  have k: "vk (dev_fetch s) = vk s" by (simp add: dev_fetch_def)
  have B: "vbusy (bufs (vk s)) (set (w @ p @ u @ e)) (set (w @ p @ u))" and d: "distinct (w @ p @ u @ e)"
    using inv unfolding vinv_def by simp_all
  have "distinct (w' @ (p @ [q]) @ u @ e)" using d unfolding w(1) by auto
  then have "vinv (dev_fetch s) w' (p @ [q]) u e"
    unfolding vinv_def R vtab_dev_fetch k by (intro conjI tab w(2) B)
  then show ?thesis using w(1) k by (intro exI[of _ q] exI[of _ w'] conjI)
qed

lemma vchain_well_chained:
  "well_chained \<lparr>d_addr = VOp i, d_len = 16, d_flags = VRING_DESC_F_NEXT, d_next = x\<rparr>
     \<lparr>d_addr = VData b, d_len = of_nat BSIZE, d_flags = (if wt then 0 else VRING_DESC_F_WRITE) OR VRING_DESC_F_NEXT, d_next = y\<rparr>
     \<lparr>d_addr = VStatus i, d_len = 1, d_flags = VRING_DESC_F_WRITE, d_next = 0\<rparr> wt"
  by (cases wt) (simp_all add: well_chained_def)

definition completed :: "vcall \<Rightarrow> vst \<Rightarrow> vst" where
  "completed q s = s\<lparr>vk := dev_transfer (vd_ops (vd s) ! q_i0 q) (q_b q) (vk s),
     vd := (vd s)\<lparr>vd_info := (vd_info (vd s))[q_i0 q := (vd_info (vd s) ! q_i0 q)\<lparr>vi_status := 0\<rparr>],
        vq_used_ring := (vq_used_ring (vd s))[unat (vq_used_idx (vd s)) mod NUM := of_nat (q_i0 q)],
        vq_used_idx := vq_used_idx (vd s) + 1, vq_dev_pending := remove1 (q_i0 q) (vq_dev_pending (vd s))\<rparr>\<rparr>"

lemma unat_small: "i < NUM \<Longrightarrow> unat (of_nat i :: ushort) = i" "i < NUM \<Longrightarrow> unat (of_nat i :: uint) = i"
  by (simp_all add: unat_of_nat take_bit_nat_eq_self_iff)

lemma dev_complete_chain:
  assumes "vchain (vd s) q" and "descs q \<subseteq> {..<NUM}"
  shows "dev_complete (q_i0 q) s = Some (completed q s)"
proof -
  have i: "unat (of_nat (q_i1 q) :: ushort) = q_i1 q" "unat (of_nat (q_i2 q) :: ushort) = q_i2 q"
    using assms(2) by (simp_all add: descs_def unat_small)
  have op: "(rq_type (vd_ops (vd s) ! q_i0 q) = VIRTIO_BLK_T_OUT) = q_write q" using assms(1) by (simp add: vchain_def)
  note ch = assms(1)[unfolded vchain_def]
  show ?thesis
    unfolding dev_complete_def Let_def completed_def
    using ch i vchain_well_chained[of "q_i0 q" "of_nat (q_i1 q)" "q_b q" "q_write q" "of_nat (q_i2 q)"] op
    by simp
qed

lemma vtab_completed:
  assumes "vtab (vd s) R {}" and "q \<in> R"
  shows "vtab (vd (completed q s)) R {}"
proof -
  have "q_i0 q < length (vd_info (vd s))" using assms vtab_head_lt[OF assms] by (simp add: vtab_def vsized_def)
  then have "vi_b (vd_info (vd (completed q s)) ! i) = vi_b (vd_info (vd s) ! i)" for i
    by (simp add: completed_def nth_list_update)
  then have "vchain (vd (completed q s)) r = vchain (vd s) r" for r by (simp add: vchain_def completed_def)
  then show ?thesis using assms by (simp add: vtab_def vsized_def completed_def)
qed

lemma vqueues_completed:
  assumes Q: "vqueues (vd s) w p u" and q: "q \<in> set p" and len: "length (vq_used_ring (vd s)) = 8" "length (vd_info (vd s)) = 8"
    and room: "length u < 8" and inj: "inj_on q_i0 (set p)" and lt: "q_i0 q < NUM"
  shows "vqueues (vd (completed q s)) w (remove1 q p) (u @ [q])"
proof -
  let ?d = "vd s"
  have "unat (vq_used_idx ?d - vd_used_idx ?d) = length u"
    using Q length_ring_queue[of "vq_used_ring ?d" 8 "vd_used_idx ?d" "vq_used_idx ?d"] by (simp add: vqueues_def)
  then have "ring_queue ((vq_used_ring ?d)[unat (vq_used_idx ?d) mod 8 := of_nat (q_i0 q)]) 8 (vd_used_idx ?d) (vq_used_idx ?d + 1) =
      map (\<lambda>q. of_nat (q_i0 q)) (u @ [q])"
    using vring.push[of "vq_used_idx ?d" "vd_used_idx ?d" "vq_used_ring ?d" "of_nat (q_i0 q)"] room len(1) Q by (simp add: vqueues_def)
  moreover have "\<forall>r \<in> set (u @ [q]). vi_status (vd_info (vd (completed q s)) ! q_i0 r) = 0"
    using Q len(2) lt by (auto simp: vqueues_def completed_def nth_list_update)
  moreover have "remove1 (q_i0 q) (vq_dev_pending ?d) = map q_i0 (remove1 q p)"
    using Q remove1_map_inj[OF inj q] by (simp add: vqueues_def)
  ultimately show ?thesis using Q by (simp add: vqueues_def completed_def)
qed

lemma dev_transfer_bufs: "length (bufs (dev_transfer rq b k)) = length (bufs k)"
  "i < length (bufs k) \<Longrightarrow> b_disk (bufs (dev_transfer rq b k) ! i) = b_disk (bufs k ! i)"
  by (simp_all add: dev_transfer_def Let_def upd_buf_def) (cases "i = b"; simp)

lemma vinv_complete:
  assumes inv: "vinv s w p u e" and h: "h \<in> set (vq_dev_pending (vd s))"
  shows "\<exists>q \<in> set p. q_i0 q = h \<and> dev_complete h s = Some (completed q s) \<and> vinv (completed q s) w (remove1 q p) (u @ [q]) e"
proof -
  let ?R = "set (w @ p @ u @ e)"
  have tab: "vtab (vd s) ?R {}" and Q: "vqueues (vd s) w p u" and dist: "distinct (w @ p @ u @ e)" using inv by (simp_all add: vinv_def)
  obtain q where q: "q \<in> set p" "q_i0 q = h" using h Q by (auto simp: vqueues_def)
  have qR: "q \<in> ?R" using q(1) by simp
  have ch: "vchain (vd s) q" "descs q \<subseteq> {..<NUM}" using tab qR unfolding vtab_def by blast+
  have inj: "inj_on q_i0 (set p)" using vtab_heads_inj[OF tab] by (auto simp: inj_on_def)
  have "set (u @ [q]) \<subseteq> ?R" "distinct (u @ [q])" using q(1) dist by auto
  then have room: "length u < 8" using distinct_heads[OF tab, of "u @ [q]"] by simp
  have len: "length (vq_used_ring (vd s)) = 8" "length (vd_info (vd s)) = 8" using tab by (simp_all add: vtab_def vsized_def)
  have Q': "vqueues (vd (completed q s)) w (remove1 q p) (u @ [q])"
    by (rule vqueues_completed[OF Q q(1) len room inj vtab_head_lt[OF tab qR]])
  have dp: "distinct p" using dist by simp
  have R: "set (w @ remove1 q p @ (u @ [q]) @ e) = ?R" "set (w @ remove1 q p @ (u @ [q])) = set (w @ p @ u)"
    using q(1) dp by auto
  have "vbusy (bufs (vk (completed q s))) ?R (set (w @ p @ u))"
    using inv dev_transfer_bufs(2) by (simp add: vinv_def vbusy_def completed_def dev_transfer_bufs)
  moreover have "distinct (w @ remove1 q p @ (u @ [q]) @ e)" using dist q(1) by auto
  ultimately have "vinv (completed q s) w (remove1 q p) (u @ [q]) e"
    unfolding vinv_def R using vtab_completed[OF tab qR] Q' by simp
  then show ?thesis using q dev_complete_chain[OF ch] by blast
qed

subsection \<open>The interrupt handler\<close>

lemma vbusy_off:
  assumes "vbusy bs R (insert q B)" and "q \<notin> B"
  shows "vbusy (bs[q_b q := (bs ! q_b q)\<lparr>b_disk := False\<rparr>]) R B"
proof -
  note B = assms(1)[unfolded vbusy_def]
  have "q_b q \<notin> q_b ` B" using B assms(2) by (auto simp: inj_on_def)
  then have "b_disk (bs[q_b q := (bs ! q_b q)\<lparr>b_disk := False\<rparr>] ! b) \<longleftrightarrow> b \<in> q_b ` B" if "b < NBUF" for b
    using B that by (cases "b = q_b q") auto
  then show ?thesis using B by (simp add: vbusy_def)
qed

definition finished :: "vcall \<Rightarrow> vst \<Rightarrow> vst" where
  "finished q s = s\<lparr>vk := woken (ChBuf (q_b q)) (upd_buf (q_b q) (\<lambda>bp. bp\<lparr>b_disk := False\<rparr>) (vk s)),
     vd := (vd s)\<lparr>vd_used_idx := vd_used_idx (vd s) + 1\<rparr>\<rparr>"

lemma vqueues_used:
  assumes "vqueues d w p u"
  shows "vd_used_idx d = vq_used_idx d \<longleftrightarrow> u = []"
    and "u = q # u' \<Longrightarrow> vq_used_ring d ! (unat (vd_used_idx d) mod 8) = of_nat (q_i0 q) \<and>
      vqueues (d\<lparr>vd_used_idx := vd_used_idx d + 1\<rparr>) w p u'"
proof -
  have r: "ring_queue (vq_used_ring d) 8 (vd_used_idx d) (vq_used_idx d) = map (\<lambda>q. of_nat (q_i0 q)) u"
    using assms by (simp add: vqueues_def)
  have "map (\<lambda>q. of_nat (q_i0 q) :: uint) u = [] \<longleftrightarrow> vq_used_idx d = vd_used_idx d"
    unfolding r[symmetric] by (rule vring.empty_iff)
  then show e: "vd_used_idx d = vq_used_idx d \<longleftrightarrow> u = []" by auto
  assume u: "u = q # u'"
  then have "vq_used_idx d \<noteq> vd_used_idx d" using e by simp
  from vring.pop[OF this, of "vq_used_ring d"] show "vq_used_ring d ! (unat (vd_used_idx d) mod 8) = of_nat (q_i0 q) \<and>
      vqueues (d\<lparr>vd_used_idx := vd_used_idx d + 1\<rparr>) w p u'"
    using assms r u by (simp add: vqueues_def)
qed

lemma vinv_finished:
  assumes inv: "vinv s w p (q # u) e"
  shows "vinv (finished q s) w p u (e @ [q])"
proof -
  have tab: "vtab (vd s) (set (w @ p @ (q # u) @ e)) {}" and Q: "vqueues (vd s) w p (q # u)" and d: "distinct (w @ p @ (q # u) @ e)"
    and B: "vbusy (bufs (vk s)) (set (w @ p @ (q # u) @ e)) (set (w @ p @ q # u))"
    using inv unfolding vinv_def by simp_all
  have R: "set (w @ p @ u @ e @ [q]) = set (w @ p @ (q # u) @ e)" "set (w @ p @ q # u) = insert q (set (w @ p @ u))" by auto
  have "q \<notin> set (w @ p @ u)" using d by auto
  from vbusy_off[OF B[unfolded R(2)] this]
  have B': "vbusy (bufs (vk (finished q s))) (set (w @ p @ (q # u) @ e)) (set (w @ p @ u))"
    by (simp add: finished_def upd_buf_def)
  have Q': "vqueues (vd (finished q s)) w p u" using vqueues_used(2)[OF Q refl] by (simp add: finished_def)
  have tab': "vtab (vd (finished q s)) (set (w @ p @ (q # u) @ e)) {}"
    using tab by (simp add: finished_def vtab_def vsized_def vchain_def)
  have "distinct (w @ p @ u @ e @ [q])" using d by auto
  then show ?thesis unfolding vinv_def R(1) by (intro conjI tab' Q' B')
qed

lemma kview_finished: "q_b q < length (bufs (vk s)) \<Longrightarrow> kview (vk (finished q s)) = kview (vk s)"
  by (simp add: kview_def finished_def upd_buf_def map_update list_update_same_conv)

lemma vdisk_intr_step:
  assumes inv: "vinv s w p (q # u) e" and k: "proc_locks_free (vk s)" "length (procs (vk s)) = NPROC"
  shows "vdisk_intr_loop (Suc n) s = vdisk_intr_loop n (finished q s)"
proof -
  have tab: "vtab (vd s) (set (w @ p @ (q # u) @ e)) {}" and Q: "vqueues (vd s) w p (q # u)"
    using inv by (simp_all add: vinv_def)
  have qR: "q \<in> set (w @ p @ (q # u) @ e)" by simp
  have ne: "vd_used_idx (vd s) \<noteq> vq_used_idx (vd s)" using vqueues_used(1)[OF Q] by simp
  have hd: "unat (vq_used_ring (vd s) ! (unat (vd_used_idx (vd s)) mod NUM)) = q_i0 q"
    using vqueues_used(2)[OF Q refl] vtab_head_lt[OF tab qR] by (simp add: unat_small)
  have st: "vi_status (vd_info (vd s) ! q_i0 q) = 0" using Q by (simp add: vqueues_def)
  have vb: "vi_b (vd_info (vd s) ! q_i0 q) = Some (q_b q)" using tab qR unfolding vtab_def vchain_def by blast
  let ?k = "upd_buf (q_b q) (\<lambda>bp. bp\<lparr>b_disk := False\<rparr>) (vk s)"
  have "proc_locks_free ?k" "length (procs ?k) = NPROC" using k by (simp_all add: upd_buf_def proc_locks_free_def)
  then have wk: "wakeup (ChBuf (q_b q)) ?k = Ret () (woken (ChBuf (q_b q)) ?k)" by (rule wakeup_eq)
  show ?thesis using ne hd st vb wk by (simp add: finished_def liftV_def Let_def del: NUM_def)
qed

lemma vdisk_intr_loop_runs:
  assumes "vinv s w p u e" and "proc_locks_free (vk s)" and "length (procs (vk s)) = NPROC" and "length u < n"
  shows "\<exists>t. vdisk_intr_loop n s = Ret () t \<and> vinv t w p [] (e @ u) \<and> kview (vk t) = kview (vk s) \<and>
     held (vk t) = held (vk s) \<and> curproc (vk t) = curproc (vk s) \<and> length (procs (vk t)) = NPROC"
  using assms
proof (induction u arbitrary: s e n)
  case Nil
  then have "vd_used_idx (vd s) = vq_used_idx (vd s)" using vqueues_used(1)[of "vd s" w p "[]"] by (simp add: vinv_def)
  then show ?case using Nil by (cases n) simp_all
next
  case (Cons q u)
  obtain m where m: "n = Suc m" "length u < m" using Cons.prems(4) by (cases n) simp_all
  have fin: "vinv (finished q s) w p u (e @ [q])" by (rule vinv_finished[OF Cons.prems(1)])
  have fr: "held (vk (finished q s)) = held (vk s)" "curproc (vk (finished q s)) = curproc (vk s)"
      "length (procs (vk (finished q s))) = NPROC"
    using Cons.prems(3) by (simp_all add: finished_def upd_buf_def)
  have pl: "proc_locks_free (vk (finished q s))" using Cons.prems(2) fr(1) by (simp add: proc_locks_free_def)
  have "q_b q < length (bufs (vk s))" using Cons.prems(1) by (simp add: vinv_def vbusy_def)
  note kv = kview_finished[OF this]
  obtain t where "vdisk_intr_loop m (finished q s) = Ret () t" "vinv t w p [] ((e @ [q]) @ u)" "kview (vk t) = kview (vk (finished q s))"
     "held (vk t) = held (vk (finished q s))" "curproc (vk t) = curproc (vk (finished q s))" "length (procs (vk t)) = NPROC"
    using Cons.IH[OF fin pl fr(3) m(2)] by blast
  then show ?case using vdisk_intr_step[OF Cons.prems(1-3), of m] fr kv unfolding m(1) by simp
qed

lemma virtio_disk_intr_runs:
  assumes inv: "vinv s w p u e" and ctx: "proc_locks_free (vk s)" "length (procs (vk s)) = NPROC" "LDisk \<notin> set (held (vk s))"
  shows "\<exists>t. virtio_disk_intr mmio s = Ret () t \<and> vinv t w p [] (e @ u) \<and> kview (vk t) = kview (vk s) \<and>
     held (vk t) = held (vk s) \<and> curproc (vk t) = curproc (vk s) \<and> length (procs (vk t)) = NPROC"
proof -
  let ?s = "s\<lparr>vk := (vk s)\<lparr>held := LDisk # held (vk s)\<rparr>, vd := (vd s)\<lparr>vq_regs := vq_regs (vd s) @ [(0x064, mmio (vq_regs (vd s)) 0x060 AND 3)]\<rparr>\<rparr>"
  have "vinv ?s w p u e = vinv s w p u e" by (rule vinv_cong) simp_all
  then have inv': "vinv ?s w p u e" using inv by simp
  have c: "proc_locks_free (vk ?s)" "length (procs (vk ?s)) = NPROC" using ctx by (simp_all add: proc_locks_free_def)
  have "unat (vq_used_idx (vd s) - vd_used_idx (vd s)) = length u"
    using inv length_ring_queue[of "vq_used_ring (vd s)" 8 "vd_used_idx (vd s)" "vq_used_idx (vd s)"] by (simp add: vinv_def vqueues_def)
  moreover obtain t where t: "vdisk_intr_loop (length u + 1) ?s = Ret () t" "vinv t w p [] (e @ u)" "kview (vk t) = kview (vk ?s)"
     "held (vk t) = held (vk ?s)" "curproc (vk t) = curproc (vk ?s)" "length (procs (vk t)) = NPROC"
    using vdisk_intr_loop_runs[OF inv' c, of "length u + 1"] by auto
  ultimately have "virtio_disk_intr mmio s = Ret () (t\<lparr>vk := (vk t)\<lparr>held := held (vk s)\<rparr>\<rparr>)"
    using ctx(3) by (simp add: virtio_disk_intr_def liftV_def)
  moreover have "vinv (t\<lparr>vk := (vk t)\<lparr>held := held (vk s)\<rparr>\<rparr>) w p [] (e @ u)" using t(2) by (simp add: vinv_def)
  ultimately show ?thesis using t by (simp add: kview_def)
qed

subsection \<open>Completing a call\<close>

lemma vtab_drop:
  assumes "vtab d (insert q R) {}" and "q \<notin> R"
  shows "vtab d R (descs q)"
proof -
  note tab = assms(1)[unfolded vtab_def]
  have "vsized d" "descs q \<subseteq> {..<NUM}" using tab by simp_all
  moreover have "vchain d r \<and> distinct [q_i0 r, q_i1 r, q_i2 r] \<and> descs r \<subseteq> {..<NUM} \<and> descs r \<inter> descs q = {}" if "r \<in> R" for r
    using tab that assms(2) by (metis insertCI)
  moreover have "\<forall>a \<in> R. \<forall>b \<in> R. a \<noteq> b \<longrightarrow> descs a \<inter> descs b = {}" using tab by blast
  moreover have "\<forall>i < NUM. vd_free d ! i \<longleftrightarrow> i \<notin> descs q \<and> (\<forall>r \<in> R. i \<notin> descs r)" using tab by simp
  ultimately show ?thesis unfolding vtab_def by (intro conjI ballI) blast+
qed

lemma vfree_chain_call:
  assumes tab: "vtab (vd s) R (descs q)" and ch: "vq_desc (vd s) ! q_i0 q = vq_desc d ! q_i0 q" "vq_desc (vd s) ! q_i1 q = vq_desc d ! q_i1 q"
      "vq_desc (vd s) ! q_i2 q = vq_desc d ! q_i2 q" and c: "vchain d q" and q: "distinct [q_i0 q, q_i1 q, q_i2 q]"
    and k: "proc_locks_free (vk s)" "length (procs (vk s)) = NPROC"
  shows "\<exists>t. vfree_chain (NUM + 1) (q_i0 q) s = Ret () t \<and> vtab (vd t) R {} \<and> vframe (vd s) (vd t) \<and> kframe (vk s) (vk t)"
proof -
  have lt: "q_i1 q < NUM" "q_i2 q < NUM" using tab by (simp_all add: vtab_def descs_def)
  obtain a where a: "free_desc (q_i0 q) s = Ret () a" "vk a = woken ChDiskFree (vk s)" "vtab (vd a) R (descs q - {q_i0 q})"
      "vd a = (vd s)\<lparr>vq_desc := (vq_desc (vd s))[q_i0 q := zero_desc], vd_free := (vd_free (vd s))[q_i0 q := True]\<rparr>"
    using free_desc_taken[OF tab _ k, of "q_i0 q"] by (auto simp: descs_def)
  have ka: "proc_locks_free (vk a)" "length (procs (vk a)) = NPROC" using k a(2) by (simp_all add: proc_locks_free_def)
  obtain b where b: "free_desc (q_i1 q) a = Ret () b" "vk b = woken ChDiskFree (vk a)" "vtab (vd b) R (descs q - {q_i0 q} - {q_i1 q})"
      "vd b = (vd a)\<lparr>vq_desc := (vq_desc (vd a))[q_i1 q := zero_desc], vd_free := (vd_free (vd a))[q_i1 q := True]\<rparr>"
    using free_desc_taken[OF a(3) _ ka, of "q_i1 q"] q by (auto simp: descs_def)
  have kb: "proc_locks_free (vk b)" "length (procs (vk b)) = NPROC" using ka b(2) by (simp_all add: proc_locks_free_def)
  obtain t where t: "free_desc (q_i2 q) b = Ret () t" "vk t = woken ChDiskFree (vk b)" "vtab (vd t) R (descs q - {q_i0 q} - {q_i1 q} - {q_i2 q})"
      "vd t = (vd b)\<lparr>vq_desc := (vq_desc (vd b))[q_i2 q := zero_desc], vd_free := (vd_free (vd b))[q_i2 q := True]\<rparr>"
    using free_desc_taken[OF b(3) _ kb, of "q_i2 q"] q by (auto simp: descs_def)
  have d0: "d_flags (vq_desc (vd s) ! q_i0 q) AND 1 \<noteq> 0" "unat (d_next (vq_desc (vd s) ! q_i0 q)) = q_i1 q"
    using c lt by (simp_all add: ch vchain_def unat_small)
  have d1: "d_flags (vq_desc (vd a) ! q_i1 q) AND 1 \<noteq> 0" "unat (d_next (vq_desc (vd a) ! q_i1 q)) = q_i2 q"
    using c lt q by (simp_all add: a(4) ch vchain_def unat_small)
  have d2: "d_flags (vq_desc (vd b) ! q_i2 q) AND 1 = 0"
    using c q by (simp add: a(4) b(4) ch vchain_def)
  have "vfree_chain (Suc (Suc (Suc n))) (q_i0 q) s = Ret () t" for n
    using a(1) b(1) t(1) d0 d1 d2 by simp
  from this[of 6] have "vfree_chain (NUM + 1) (q_i0 q) s = Ret () t" by simp
  moreover have "vtab (vd t) R {}"
  proof -
    have "descs q - {q_i0 q} - {q_i1 q} - {q_i2 q} = {}" by (auto simp: descs_def)
    then show ?thesis using t(3) by metis
  qed
  moreover have "vframe (vd s) (vd t)" by (simp add: a(4) b(4) t(4) vframe_def)
  moreover have "kframe (vk s) (vk t)" by (simp add: a(2) b(2) t(2) kframe_def)
  ultimately show ?thesis by auto
qed

lemma vdisk_rw_wait_sleeps:
  assumes inv: "vinv s w p u e" and q: "q \<in> set (w @ p @ u)" and ctx: "in_disk me (vk s)"
  shows "\<exists>t. vdisk_rw_wait (q_b q) (q_i0 q) s = Swtch me t \<and> vinv t w p u e \<and> kview (vk t) = kview (vk s)"
proof -
  have "b_disk (bufs (vk s) ! q_b q)" using inv q unfolding vinv_def vbusy_def by blast
  moreover obtain k where k: "liftV (sleep (ChBuf (q_b q)) LDisk) s = Swtch me (s\<lparr>vk := k\<rparr>)"
      "bufs k = bufs (vk s)" "disk k = disk (vk s)" "dwrites k = dwrites (vk s)"
    using sleep_disk[OF ctx, of "ChBuf (q_b q)"] by blast
  moreover have "vinv (s\<lparr>vk := k\<rparr>) w p u e" using inv k(2) by (simp add: vinv_def)
  ultimately show ?thesis by (intro exI[of _ "s\<lparr>vk := k\<rparr>"]) (simp add: vdisk_rw_wait_def kview_def)
qed

lemma vtab_info:
  assumes "vtab d R X" and "\<forall>r \<in> R. i \<noteq> q_i0 r"
  shows "vtab (d\<lparr>vd_info := (vd_info d)[i := v]\<rparr>) R X"
  using assms by (simp add: vtab_def vsized_def vchain_def)

lemma vqueues_info: "vqueues d w p u \<Longrightarrow> \<forall>r \<in> set u. i \<noteq> q_i0 r \<Longrightarrow> vqueues (d\<lparr>vd_info := (vd_info d)[i := v]\<rparr>) w p u"
  by (simp add: vqueues_def)

lemma vbusy_drop: "vbusy bs (insert q R) B \<Longrightarrow> q \<notin> B \<Longrightarrow> vbusy bs R B"
  by (auto simp: vbusy_def)

lemma vdisk_rw_wait_returns:
  assumes inv: "vinv s w p u e" and q: "q \<in> set e" and ctx: "in_disk me (vk s)"
  shows "\<exists>t. vdisk_rw_wait (q_b q) (q_i0 q) s = Ret () t \<and> vinv t w p u (remove1 q e) \<and> kview (vk t) = kview (vk s) \<and> held (vk t) = []"
proof -
  let ?R = "set (w @ p @ u @ remove1 q e)"
  have d: "distinct (w @ p @ u @ e)" and Q: "vqueues (vd s) w p u" using inv by (simp_all add: vinv_def)
  have R: "set (w @ p @ u @ e) = insert q ?R" and nR: "q \<notin> ?R" using d q by auto
  have tab: "vtab (vd s) (insert q ?R) {}" and B: "vbusy (bufs (vk s)) (insert q ?R) (set (w @ p @ u))"
    using inv unfolding vinv_def R by blast+
  have ch: "vchain (vd s) q" "distinct [q_i0 q, q_i1 q, q_i2 q]" using tab unfolding vtab_def by blast+
  have hd: "q_i0 q \<noteq> q_i0 r" if "r \<in> ?R" for r using vtab_heads_inj[OF tab insertI1, of r] that nR by auto
  have "q_b q \<notin> q_b ` set (w @ p @ u)" using B nR unfolding vbusy_def inj_on_def by auto
  then have idle: "\<not> b_disk (bufs (vk s) ! q_b q)" using B unfolding vbusy_def by blast
  let ?d = "(vd s)\<lparr>vd_info := (vd_info (vd s))[q_i0 q := (vd_info (vd s) ! q_i0 q)\<lparr>vi_b := None\<rparr>]\<rparr>"
  let ?s = "s\<lparr>vd := ?d\<rparr>"
  have "vtab (vd ?s) ?R (descs q)" using vtab_info[OF vtab_drop[OF tab nR], of "q_i0 q"] hd by simp
  moreover have "proc_locks_free (vk ?s)" "length (procs (vk ?s)) = NPROC" using ctx in_disk_locks by (simp_all add: in_disk_def)
  ultimately obtain t where t: "vfree_chain (NUM + 1) (q_i0 q) ?s = Ret () t" "vtab (vd t) ?R {}" "vframe (vd ?s) (vd t)" "kframe (vk ?s) (vk t)"
    using vfree_chain_call[of ?s ?R q "vd s"] ch by auto
  let ?t = "t\<lparr>vk := (vk t)\<lparr>held := []\<rparr>\<rparr>"
  have run: "vdisk_rw_wait (q_b q) (q_i0 q) s = Ret () ?t"
    using idle t(1,4) ctx by (simp add: vdisk_rw_wait_def liftV_def kframe_def in_disk_def)
  have Q': "vqueues (vd t) w p u" using vqueues_info[OF Q, of "q_i0 q"] hd vqueues_frame[OF t(3)] by simp
  have "vbusy (bufs (vk t)) ?R (set (w @ p @ u))" using vbusy_drop[OF B] nR t(4) by (simp add: kframe_def)
  moreover have "distinct (w @ p @ u @ remove1 q e)" using d by auto
  ultimately have "vinv ?t w p u (remove1 q e)" using t(2) Q' unfolding vinv_def by simp
  then show ?thesis using run t(4) by (intro exI[of _ ?t]) (simp add: kview_def kframe_def)
qed

end
