(* ===== verification/Xv6_Diskops.thy ===== *)
theory Xv6_Diskops
  imports Xv6_Virtio
begin

text \<open>
  The disk driver of \<^verbatim>\<open>kernel/virtio_disk.c\<close> running together with the device, the interrupt handler, and the
  rest of the kernel.  A state of the machine is a state of the driver with the list of the calls of
  \<open>virtio_disk_rw\<close> that have posted their request.  The device is a parameter, a relation on the states of
  the driver.  The driver's code runs under \<open>vdisk_lock\<close>, so one run of it up to its return or its next \<open>sleep\<close> is
  one step.  The device does not take the lock; \<open>Xv6_Submit\<close> shows that it may as well take its steps before such a run
  posts a request.
\<close>

section \<open>The machine\<close>

datatype vevent = Call vcall | Transfer vcall | Return vcall | Other | Tau

type_synonym vmachine = "vst \<times> vcall list"

text \<open>
  What the rest of the kernel may do between two steps of the driver: anything but change the disk, the flags
  \<open>disk\<close>, and the buffers of the calls in flight, whose sleep locks their callers hold.
\<close>

definition others :: "vcall list \<Rightarrow> kstate \<Rightarrow> kstate \<Rightarrow> bool" where
  "others cs k l \<longleftrightarrow> disk l = disk k \<and> dwrites l = dwrites k \<and> length (bufs l) = length (bufs k) \<and>
     (\<forall>b < length (bufs k). b_disk (bufs l ! b) = b_disk (bufs k ! b)) \<and> (\<forall>q \<in> set cs. bufs l ! q_b q = bufs k ! q_b q)"

inductive vstep :: "(vst \<Rightarrow> vst \<Rightarrow> bool) \<Rightarrow> ((nat \<times> uint) list \<Rightarrow> nat \<Rightarrow> uint) \<Rightarrow> vmachine \<Rightarrow> vevent \<Rightarrow> vmachine \<Rightarrow> bool"
  for dev mmio where
  other: "others cs (vk s) k \<Longrightarrow> vstep dev mmio (s, cs) Other (s\<lparr>vk := k\<rparr>, cs)"
| fetch: "dev s t \<Longrightarrow> vq_used_idx (vd t) = vq_used_idx (vd s) \<Longrightarrow> vstep dev mmio (s, cs) Tau (t, cs)"
| transfer: "dev s t \<Longrightarrow> vq_used_idx (vd t) \<noteq> vq_used_idx (vd s) \<Longrightarrow> q \<in> set cs \<Longrightarrow>
    unat (vq_used_ring (vd t) ! (unat (vq_used_idx (vd s)) mod NUM)) = q_i0 q \<Longrightarrow>
    vstep dev mmio (s, cs) (Transfer q) (t, cs)"
| post: "in_disk me (vk s) \<Longrightarrow> q_b q < NBUF \<Longrightarrow> q_b q \<notin> q_b ` set cs \<Longrightarrow> q_sector q = vsector (b_blockno (bufs (vk s) ! q_b q)) \<Longrightarrow>
    b_blockno (bufs (vk s) ! q_b q) < 0x80000000 \<Longrightarrow>
    alloc3_desc s = Ret (0, [q_i0 q, q_i1 q, q_i2 q]) t' \<Longrightarrow>
    vdisk_rw_alloc (q_b q) (q_write q) (q_sector q) s = Swtch me t \<Longrightarrow> vstep dev mmio (s, cs) (Call q) (t, cs @ [q])"
| full: "in_disk me (vk s) \<Longrightarrow> b < NBUF \<Longrightarrow> b \<notin> q_b ` set cs \<Longrightarrow>
    alloc3_desc s = Ret (- 1, js) t' \<Longrightarrow>
    vdisk_rw_alloc b write sector s = Swtch me t \<Longrightarrow> vstep dev mmio (s, cs) Tau (t, cs)"
| intr: "proc_locks_free (vk s) \<Longrightarrow> length (procs (vk s)) = NPROC \<Longrightarrow> virtio_disk_intr mmio s = Ret () t \<Longrightarrow>
    vstep dev mmio (s, cs) Tau (t, cs)"
| again: "in_disk me (vk s) \<Longrightarrow> q \<in> set cs \<Longrightarrow> vdisk_rw_wait (q_b q) (q_i0 q) s = Swtch me t \<Longrightarrow>
    vstep dev mmio (s, cs) Tau (t, cs)"
| return: "in_disk me (vk s) \<Longrightarrow> q \<in> set cs \<Longrightarrow> vdisk_rw_wait (q_b q) (q_i0 q) s = Ret () t \<Longrightarrow>
    vstep dev mmio (s, cs) (Return q) (t, remove1 q cs)"

inductive vruns :: "(vst \<Rightarrow> vst \<Rightarrow> bool) \<Rightarrow> ((nat \<times> uint) list \<Rightarrow> nat \<Rightarrow> uint) \<Rightarrow> vmachine \<Rightarrow> vevent list \<Rightarrow> vmachine \<Rightarrow> bool"
  for dev mmio where
  start: "vruns dev mmio m [] m"
| extend: "vruns dev mmio m es n \<Longrightarrow> vstep dev mmio n e n' \<Longrightarrow> vruns dev mmio m (es @ [e]) n'"

text \<open>The driver right after \<open>virtio_disk_init\<close>: all descriptors free, the rings empty, no buffer with the device.\<close>

definition vready :: "vst \<Rightarrow> bool" where
  "vready s \<longleftrightarrow> vsized (vd s) \<and> (\<forall>i < NUM. vd_free (vd s) ! i) \<and> vq_avail_idx (vd s) = vq_dev_seen (vd s) \<and>
     vq_used_idx (vd s) = vd_used_idx (vd s) \<and> vq_dev_pending (vd s) = [] \<and>
     length (bufs (vk s)) = NBUF \<and> (\<forall>b < NBUF. \<not> b_disk (bufs (vk s) ! b))"

section \<open>The abstract disk\<close>

text \<open>
  What the rest of the kernel relies on: a request is one indivisible \<open>virtio_disk_rw\<close> of \<open>Xv6_Bio\<close>, at some moment
  between the call and the return.  A state holds the disk and the buffers, the calls that have not been
  served (\<open>P\<close>) and those that have been and have not returned (\<open>D\<close>).
\<close>

type_synonym dstate = "((uint \<Rightarrow> bytes) \<times> (uint \<times> bytes) list \<times> buf list) \<times> vcall set \<times> vcall set"

inductive dstep :: "dstate \<Rightarrow> vevent \<Rightarrow> dstate \<Rightarrow> bool" where
  d_call: "q \<notin> P \<union> D \<Longrightarrow> q_b q \<notin> q_b ` (P \<union> D) \<Longrightarrow> dstep (V, P, D) (Call q) (V, insert q P, D)"
| d_transfer: "q \<in> P \<Longrightarrow> virtio_disk_rw (q_b q) (q_write q) k = Ret () k' \<Longrightarrow>
    dstep (kview k, P, D) (Transfer q) (kview k', P - {q}, insert q D)"
| d_return: "q \<in> D \<Longrightarrow> dstep (V, P, D) (Return q) (V, P, D - {q})"
| d_other: "\<forall>q \<in> P \<union> D. bs' ! q_b q = bs ! q_b q \<Longrightarrow> length bs' = length bs \<Longrightarrow> dstep ((dk, dw, bs), P, D) Other ((dk, dw, bs'), P, D)"
| d_tau: "dstep (V, P, D) Tau (V, P, D)"

inductive druns :: "dstate \<Rightarrow> vevent list \<Rightarrow> dstate \<Rightarrow> bool" where
  d_start: "druns m [] m"
| d_extend: "druns m es n \<Longrightarrow> dstep n e n' \<Longrightarrow> druns m (es @ [e]) n'"

section \<open>Simulation\<close>

definition vrel :: "vmachine \<Rightarrow> dstate \<Rightarrow> bool" where
  "vrel m d \<longleftrightarrow> (case (m, d) of ((s, cs), (V, P, D)) \<Rightarrow> V = kview (vk s) \<and> distinct cs \<and>
     (\<exists>w p u e. vinv s w p u e \<and> P = set (w @ p) \<and> D = set (u @ e) \<and> set cs = set (w @ p @ u @ e)) \<and>
     (\<forall>q \<in> set cs. q_sector q = vsector (b_blockno (bufs (vk s) ! q_b q)) \<and> b_blockno (bufs (vk s) ! q_b q) < 0x80000000))"

lemma vinv_ready:
  assumes "vready s"
  shows "vinv s [] [] [] []"
  using assms by (simp add: vready_def vinv_def vtab_def vqueues_def vbusy_def ring_queue_def)

lemma vrel_ready: "vready s \<Longrightarrow> vrel (s, []) (kview (vk s), {}, {})"
  using vinv_ready[of s] by (auto simp: vrel_def)

lemma vrelI:
  assumes "vinv t w p u e" and "distinct cs" and "set cs = set (w @ p @ u @ e)"
    and "\<forall>q \<in> set cs. q_sector q = vsector (b_blockno (bufs (vk t) ! q_b q)) \<and> b_blockno (bufs (vk t) ! q_b q) < 0x80000000"
  shows "vrel (t, cs) (kview (vk t), set (w @ p), set (u @ e))"
  unfolding vrel_def using assms by auto

lemma kview_nth: "kview k = kview l \<Longrightarrow> b < length (bufs l) \<Longrightarrow> b_blockno (bufs k ! b) = b_blockno (bufs l ! b)"
proof -
  assume "kview k = kview l" and b: "b < length (bufs l)"
  then have "map (\<lambda>bp. bp\<lparr>b_disk := False\<rparr>) (bufs k) = map (\<lambda>bp. bp\<lparr>b_disk := False\<rparr>) (bufs l)" by (simp add: kview_def)
  then have "(bufs k ! b)\<lparr>b_disk := False\<rparr> = (bufs l ! b)\<lparr>b_disk := False\<rparr>"
    using b by (metis length_map nth_map)
  then have "b_blockno ((bufs k ! b)\<lparr>b_disk := False\<rparr>) = b_blockno ((bufs l ! b)\<lparr>b_disk := False\<rparr>)" by (rule arg_cong)
  then show ?thesis by simp
qed

lemma vinv_bufs: "vinv s w p u e \<Longrightarrow> length (bufs (vk s)) = NBUF"
  by (simp add: vinv_def vbusy_def)

lemma vinv_b_lt: "vinv s w p u e \<Longrightarrow> q \<in> set (w @ p @ u @ e) \<Longrightarrow> q_b q < NBUF"
  unfolding vinv_def vbusy_def by blast

text \<open>A block number survives the detour through sectors as long as twice it fits 32 bits.\<close>

lemma vsector_block: "n < 0x80000000 \<Longrightarrow> ucast (drop_bit 1 (vsector n)) = n"
proof -
  assume n: "n < 0x80000000"
  then have lt: "unat n < 2 ^ 31" by (simp add: word_less_nat_alt)
  have "unat (n * 2) = unat n * 2" using lt by (simp add: unat_mult_lem[THEN iffD1])
  moreover have "unat n * 2 < 2 ^ 64" using lt by simp
  ultimately have "unat (vsector n) = unat n * 2" by (simp add: vsector_def unsigned_ucast_eq take_bit_nat_eq_self_iff)
  then have "unat (drop_bit 1 (vsector n)) = unat n" by (simp add: drop_bit_eq_div unat_div)
  then have "unat (ucast (drop_bit 1 (vsector n)) :: uint) = unat n" using lt by (simp add: unsigned_ucast_eq take_bit_nat_eq_self_iff)
  then show ?thesis by (simp add: word_unat_eq_iff)
qed

lemma transfer_is_rw:
  assumes "vchain d q" and "q_sector q = vsector (b_blockno (bufs k ! q_b q))" and "b_blockno (bufs k ! q_b q) < 0x80000000"
  shows "virtio_disk_rw (q_b q) (q_write q) k = Ret () (dev_transfer (vd_ops d ! q_i0 q) (q_b q) k)"
proof -
  have "vd_ops d ! q_i0 q = \<lparr>rq_type = (if q_write q then VIRTIO_BLK_T_OUT else VIRTIO_BLK_T_IN), rq_reserved = 0, rq_sector = q_sector q\<rparr>"
    using assms(1) by (simp add: vchain_def)
  moreover have "ucast (drop_bit 1 (q_sector q)) = b_blockno (bufs k ! q_b q)" using vsector_block[OF assms(3)] assms(2) by simp
  ultimately show ?thesis by (simp add: virtio_disk_rw_def dev_transfer_def Let_def upd_buf_def)
qed

lemma transfer_blockno: "b < length (bufs k) \<Longrightarrow> b_blockno (bufs (dev_transfer rq i k) ! b) = b_blockno (bufs k ! b)"
  by (cases "b = i") (simp_all add: dev_transfer_def Let_def upd_buf_def)

definition blocks_ok :: "vcall list \<Rightarrow> kstate \<Rightarrow> bool" where
  "blocks_ok cs k \<longleftrightarrow> (\<forall>q \<in> set cs. q_sector q = vsector (b_blockno (bufs k ! q_b q)) \<and> b_blockno (bufs k ! q_b q) < 0x80000000)"

lemma vrelE:
  assumes "vrel (s, cs) d"
  obtains w p u e where "d = (kview (vk s), set (w @ p), set (u @ e))" and "vinv s w p u e" and "distinct cs"
    and "set cs = set (w @ p @ u @ e)" and "blocks_ok cs (vk s)"
  using assms unfolding vrel_def blocks_ok_def by (auto split: prod.splits)

lemma vrel_intro:
  assumes "vinv t w p u e" and "distinct cs" and "set cs = set (w @ p @ u @ e)" and "blocks_ok cs (vk t)" and "V = kview (vk t)"
  shows "vrel (t, cs) (V, set (w @ p), set (u @ e))"
  using vrelI[OF assms(1-3)] assms(4,5) by (simp add: blocks_ok_def)

lemma blocks_ok_view:
  assumes "blocks_ok cs (vk s)" and "kview (vk t) = kview (vk s)" and "vinv s w p u e" and "set cs \<subseteq> set (w @ p @ u @ e)"
  shows "blocks_ok cs (vk t)"
proof -
  have "b_blockno (bufs (vk t) ! q_b q) = b_blockno (bufs (vk s) ! q_b q)" if "q \<in> set cs" for q
    using kview_nth[OF assms(2)] vinv_b_lt[OF assms(3)] vinv_bufs[OF assms(3)] that assms(4) by auto
  then show ?thesis using assms(1) by (simp add: blocks_ok_def)
qed

lemma sim_other:
  assumes rel: "vrel (s, cs) d" and o: "others cs (vk s) k"
  shows "\<exists>d'. dstep d Other d' \<and> vrel (s\<lparr>vk := k\<rparr>, cs) d'"
proof -
  obtain w p u e where d: "d = (kview (vk s), set (w @ p), set (u @ e))" and inv: "vinv s w p u e" and cs: "distinct cs" "set cs = set (w @ p @ u @ e)"
    and ok: "blocks_ok cs (vk s)" using vrelE[OF rel] .
  have len: "length (bufs (vk s)) = NBUF" by (rule vinv_bufs[OF inv])
  have "vinv (s\<lparr>vk := k\<rparr>) w p u e" using inv o len by (simp add: vinv_def vbusy_def others_def)
  moreover have "blocks_ok cs k" using ok o by (simp add: blocks_ok_def others_def)
  ultimately have r: "vrel (s\<lparr>vk := k\<rparr>, cs) (kview k, set (w @ p), set (u @ e))"
    using vrel_intro[of "s\<lparr>vk := k\<rparr>" w p u e cs "kview k"] cs by simp
  have "set (w @ p) \<union> set (u @ e) = set cs" using cs(2) by auto
  moreover have "q_b q < NBUF" if "q \<in> set cs" for q using vinv_b_lt[OF inv] that cs(2) by simp
  ultimately have "dstep d Other (kview k, set (w @ p), set (u @ e))"
    unfolding d kview_def using o len by (simp add: others_def d_other)
  then show ?thesis using r by blast
qed

lemma sim_device:
  assumes rel: "vrel (s, cs) d" and dev: "device_step s t"
  shows "(vq_used_idx (vd t) = vq_used_idx (vd s) \<and> (\<exists>d'. dstep d Tau d' \<and> vrel (t, cs) d')) \<or>
    (vq_used_idx (vd t) \<noteq> vq_used_idx (vd s) \<and> (\<exists>q \<in> set cs. unat (vq_used_ring (vd t) ! (unat (vq_used_idx (vd s)) mod NUM)) = q_i0 q \<and>
       (\<exists>d'. dstep d (Transfer q) d' \<and> vrel (t, cs) d')))"
proof -
  obtain w p u e where d: "d = (kview (vk s), set (w @ p), set (u @ e))" and inv: "vinv s w p u e" and cs: "distinct cs" "set cs = set (w @ p @ u @ e)"
    and ok: "blocks_ok cs (vk s)" using vrelE[OF rel] .
  have tab: "vtab (vd s) (set (w @ p @ u @ e)) {}" and dist: "distinct (w @ p @ u @ e)" using inv by (simp_all add: vinv_def)
  from dev show ?thesis unfolding device_step_def
  proof (elim disjE conjE bexE)
    assume a: "vq_dev_seen (vd s) \<noteq> vq_avail_idx (vd s)" "t = dev_fetch s"
    obtain q w' where w: "w = q # w'" "vinv t w' (p @ [q]) u e" "vk t = vk s" using vinv_fetch[OF inv a(1)] a(2) by blast
    have S: "set cs = set (w' @ (p @ [q]) @ u @ e)" "set (w' @ p @ [q]) = set (w @ p)" using cs(2) w(1) by auto
    have "vrel (t, cs) (kview (vk s), set (w' @ p @ [q]), set (u @ e))"
      using vrel_intro[OF w(2) cs(1) S(1), of "kview (vk s)"] ok w(3) by simp
    then have "vrel (t, cs) d" using d S(2) by simp
    moreover have "vq_used_idx (vd t) = vq_used_idx (vd s)" using a(2) by (simp add: dev_fetch_def)
    ultimately show ?thesis using d_tau d by blast
  next
    fix h assume a: "h \<in> set (vq_dev_pending (vd s))" "dev_complete h s = Some t"
    obtain q where q: "q \<in> set p" "t = completed q s" "vinv t w (remove1 q p) (u @ [q]) e"
      using vinv_complete[OF inv a(1)] a(2) by auto
    have qR: "q \<in> set (w @ p @ u @ e)" using q(1) by simp
    have S: "set cs = set (w @ remove1 q p @ (u @ [q]) @ e)" "set (w @ remove1 q p) = set (w @ p) - {q}" "set ((u @ [q]) @ e) = insert q (set (u @ e))"
      using cs(2) q(1) dist by auto
    have qok: "q_sector q = vsector (b_blockno (bufs (vk s) ! q_b q))" "b_blockno (bufs (vk s) ! q_b q) < 0x80000000"
      using ok qR cs(2) unfolding blocks_ok_def by blast+
    have vkt: "vk t = dev_transfer (vd_ops (vd s) ! q_i0 q) (q_b q) (vk s)" using q(2) by (simp add: completed_def)
    have "vchain (vd s) q" using tab qR unfolding vtab_def by blast
    then have "virtio_disk_rw (q_b q) (q_write q) (vk s) = Ret () (vk t)" unfolding vkt using transfer_is_rw qok by blast
    then have st: "dstep d (Transfer q) (kview (vk t), set (w @ p) - {q}, insert q (set (u @ e)))"
      unfolding d using d_transfer q(1) by simp
    have "b_blockno (bufs (vk t) ! q_b r) = b_blockno (bufs (vk s) ! q_b r)" if "r \<in> set cs" for r
      unfolding vkt using transfer_blockno vinv_b_lt[OF inv] vinv_bufs[OF inv] that cs(2) by simp
    then have "blocks_ok cs (vk t)" using ok by (simp add: blocks_ok_def)
    then have "vrel (t, cs) (kview (vk t), set (w @ p) - {q}, insert q (set (u @ e)))"
      using vrel_intro[OF q(3) cs(1) S(1) _ refl] unfolding S(2,3) by blast
    moreover have "vq_used_idx (vd t) \<noteq> vq_used_idx (vd s)" using q(2) by (simp add: completed_def)
    moreover have "unat (vq_used_ring (vd t) ! (unat (vq_used_idx (vd s)) mod NUM)) = q_i0 q"
      using q(2) tab vtab_head_lt[OF tab qR] by (simp add: completed_def vtab_def vsized_def unat_small)
    ultimately show ?thesis using st qR cs(2) by blast
  qed
qed

lemma vcall_eqI:
  fixes q r :: vcall
  shows "q_b q = q_b r \<Longrightarrow> q_write q = q_write r \<Longrightarrow> q_sector q = q_sector r \<Longrightarrow> [q_i0 q, q_i1 q, q_i2 q] = [q_i0 r, q_i1 r, q_i2 r] \<Longrightarrow> q = r"
  by (cases q; cases r) simp

lemma sim_alloc:
  assumes rel: "vrel (s, cs) d" and c: "in_disk me (vk s)" "b < NBUF" "b \<notin> q_b ` set cs"
    and run: "vdisk_rw_alloc b write sector s = Swtch me t"
  shows "alloc3_desc s = Ret (- 1, js) t' \<Longrightarrow> \<exists>d'. dstep d Tau d' \<and> vrel (t, cs) d'"
    and "alloc3_desc s = Ret (0, [q_i0 q, q_i1 q, q_i2 q]) t' \<Longrightarrow> q_b q = b \<Longrightarrow> q_write q = write \<Longrightarrow> q_sector q = sector \<Longrightarrow>
      sector = vsector (b_blockno (bufs (vk s) ! b)) \<Longrightarrow> b_blockno (bufs (vk s) ! b) < 0x80000000 \<Longrightarrow>
      \<exists>d'. dstep d (Call q) d' \<and> vrel (t, cs @ [q]) d'"
proof -
  obtain w p u e where d: "d = (kview (vk s), set (w @ p), set (u @ e))" and inv: "vinv s w p u e" and cs: "distinct cs" "set cs = set (w @ p @ u @ e)"
    and ok: "blocks_ok cs (vk s)" using vrelE[OF rel] .
  note posts = vdisk_rw_alloc_cases[OF inv c(2) c(3)[unfolded cs(2)] c(1), of "write" sector]
  show "\<exists>d'. dstep d Tau d' \<and> vrel (t, cs) d'" if a: "alloc3_desc s = Ret (- 1, js) t'"
  proof -
    from posts have r: "vinv t w p u e" "kview (vk t) = kview (vk s)" using run a by auto
    have "vrel (t, cs) d" unfolding d
      using vrel_intro[OF r(1) cs _ r(2)[symmetric]] blocks_ok_view[OF ok r(2) inv] cs(2) by simp
    then show ?thesis using d_tau d by blast
  qed
  assume a: "alloc3_desc s = Ret (0, [q_i0 q, q_i1 q, q_i2 q]) t'" and q: "q_b q = b" "q_write q = write" "q_sector q = sector"
    and bl: "sector = vsector (b_blockno (bufs (vk s) ! b))" "b_blockno (bufs (vk s) ! b) < 0x80000000"
  from posts obtain q' where r: "vinv t (w @ [q']) p u e" "kview (vk t) = kview (vk s)"
      "q_b q' = b" "q_write q' = write" "q_sector q' = sector" "[q_i0 q', q_i1 q', q_i2 q'] = [q_i0 q, q_i1 q, q_i2 q]"
    using run a by auto
  have [simp]: "q' = q" using vcall_eqI[of q' q] r(3-6) q by simp
  have S: "set (cs @ [q]) = set ((w @ [q]) @ p @ u @ e)" "set ((w @ [q]) @ p) = insert q (set (w @ p))" using cs(2) by auto
  have "b_blockno (bufs (vk t) ! b) = b_blockno (bufs (vk s) ! b)" using kview_nth[OF r(2)] c(2) vinv_bufs[OF inv] by simp
  then have okt: "blocks_ok (cs @ [q]) (vk t)" using blocks_ok_view[OF ok r(2) inv] cs(2) q bl by (simp add: blocks_ok_def)
  have dc: "distinct (cs @ [q])" using cs(1) c(3) q(1) by auto
  have "vrel (t, cs @ [q]) (kview (vk s), insert q (set (w @ p)), set (u @ e))"
    using vrel_intro[OF _ dc S(1) okt r(2)[symmetric]] r(1) unfolding S(2) by simp
  moreover have "q \<notin> set (w @ p) \<union> set (u @ e)" "q_b q \<notin> q_b ` (set (w @ p) \<union> set (u @ e))" using c(3) cs(2) q(1) by auto
  ultimately show "\<exists>d'. dstep d (Call q) d' \<and> vrel (t, cs @ [q]) d'" unfolding d using d_call by blast
qed

lemma vinv_intr_returns:
  assumes "virtio_disk_intr mmio s = Ret () t"
  shows "LDisk \<notin> set (held (vk s))"
  using assms by (cases "LDisk \<in> set (held (vk s))") (simp_all add: virtio_disk_intr_def liftV_def)

lemma sim_step:
  assumes dev: "\<forall>s t. dev s t \<longrightarrow> device_step s t" and step: "vstep dev mmio m ev n" and rel: "vrel m d"
  shows "\<exists>d'. dstep d ev d' \<and> vrel n d'"
  using step
proof cases
  case (other cs s k)
  then show ?thesis using sim_other[of s cs d k] rel by simp
next
  case (fetch s t cs)
  then show ?thesis using sim_device[of s cs d t] dev rel by auto
next
  case (transfer s t q cs)
  have r: "vrel (s, cs) d" using rel transfer(1) by simp
  from sim_device[OF r, of t] transfer(4,5) dev obtain q' d' where
    q': "q' \<in> set cs" "q_i0 q' = q_i0 q" "dstep d (Transfer q') d'" "vrel (t, cs) d'" using transfer(7) by auto
  obtain w p u e where "vinv s w p u e" "set cs = set (w @ p @ u @ e)" using vrelE[OF r] by metis
  then have "q' = q" using vtab_heads_inj[of "vd s" "set cs" "{}" q' q] q'(1,2) transfer(6) unfolding vinv_def by metis
  then show ?thesis unfolding transfer(2,3) using q'(3,4) by blast
next
  case (post me s q cs t' t)
  then show ?thesis using sim_alloc(2)[of s cs d me "q_b q" "q_write q" "q_sector q" t q t'] rel by simp
next
  case (full me s b cs js t' wt sector t)
  then show ?thesis using sim_alloc(1)[of s cs d me b wt sector t js t'] rel by simp
next
  case (intr s t cs)
  have r: "vrel (s, cs) d" using rel intr(1) by simp
  obtain w p u e where d: "d = (kview (vk s), set (w @ p), set (u @ e))" and inv: "vinv s w p u e" and cs: "distinct cs" "set cs = set (w @ p @ u @ e)"
    and ok: "blocks_ok cs (vk s)" using vrelE[OF r] .
  have i: "vinv t w p [] (e @ u)" "kview (vk t) = kview (vk s)"
    using virtio_disk_intr_runs[OF inv intr(4,5) vinv_intr_returns[OF intr(6)], of mmio] intr(6) by auto
  have S: "set cs = set (w @ p @ [] @ e @ u)" "set ([] @ e @ u) = set (u @ e)" using cs(2) by auto
  have "vrel (t, cs) d" unfolding d S(2)[symmetric]
    by (rule vrel_intro[OF i(1) cs(1) S(1)]) (use blocks_ok_view[OF ok i(2) inv] cs(2) i(2) in simp_all)
  then show ?thesis using d_tau d intr(2,3) by blast
next
  case (again me s q cs t)
  have r: "vrel (s, cs) d" using rel again(1) by simp
  obtain w p u e where d: "d = (kview (vk s), set (w @ p), set (u @ e))" and inv: "vinv s w p u e" and cs: "distinct cs" "set cs = set (w @ p @ u @ e)"
    and ok: "blocks_ok cs (vk s)" using vrelE[OF r] .
  have "q \<notin> set e" using vdisk_rw_wait_returns[OF inv _ again(4), of q] again(6) by auto
  then have "q \<in> set (w @ p @ u)" using again(5) cs(2) by auto
  then have t: "vinv t w p u e" "kview (vk t) = kview (vk s)" using vdisk_rw_wait_sleeps[OF inv _ again(4)] again(6) by fastforce+
  have "vrel (t, cs) d" unfolding d
    by (rule vrel_intro[OF t(1) cs]) (use blocks_ok_view[OF ok t(2) inv] cs(2) t(2) in simp_all)
  then show ?thesis using d_tau d again(2,3) by blast
next
  case (return me s q cs t)
  have r: "vrel (s, cs) d" using rel return(1) by simp
  obtain w p u e where d: "d = (kview (vk s), set (w @ p), set (u @ e))" and inv: "vinv s w p u e" and cs: "distinct cs" "set cs = set (w @ p @ u @ e)"
    and ok: "blocks_ok cs (vk s)" using vrelE[OF r] .
  have "q \<notin> set (w @ p @ u)" using vdisk_rw_wait_sleeps[OF inv _ return(4), of q] return(6) by auto
  then have q: "q \<in> set e" using return(5) cs(2) by auto
  have t: "vinv t w p u (remove1 q e)" "kview (vk t) = kview (vk s)" using vdisk_rw_wait_returns[OF inv q return(4)] return(6) by auto
  have "distinct (w @ p @ u @ e)" using inv by (simp add: vinv_def)
  then have S: "set (remove1 q cs) = set (w @ p @ u @ remove1 q e)" "set (u @ remove1 q e) = set (u @ e) - {q}"
    using cs q by auto
  have "blocks_ok (remove1 q cs) (vk t)" using blocks_ok_view[OF ok t(2) inv] cs(1,2) by (simp add: blocks_ok_def)
  then have "vrel (t, remove1 q cs) (kview (vk s), set (w @ p), set (u @ e) - {q})" unfolding S(2)[symmetric]
    by (intro vrel_intro[OF t(1) _ S(1)]) (use cs(1) t(2) in simp_all)
  moreover have "q \<in> set (u @ e)" using q by simp
  ultimately show ?thesis unfolding d return(2,3) using d_return by blast
qed

lemma sim_runs:
  assumes dev: "\<forall>s t. dev s t \<longrightarrow> device_step s t" and "vready s0" and "vruns dev mmio (s0, []) tr m"
  shows "\<exists>d. druns (kview (vk s0), {}, {}) tr d \<and> vrel m d"
  using assms(3)
proof (induction "(s0, [] :: vcall list)" tr m rule: vruns.induct)
  case start
  then show ?case using vrel_ready[OF assms(2)] d_start by blast
next
  case (extend es n e n')
  then show ?case using sim_step[OF dev, of mmio n e n'] d_extend by blast
qed

section \<open>Initialisation establishes the invariant\<close>

text \<open>Before \<open>virtio_disk_init\<close>: static data is zeroed, the device has been reset and no request is in flight.\<close>

definition vfresh :: "vst \<Rightarrow> bool" where
  "vfresh s \<longleftrightarrow> length (vd_free (vd s)) = NUM \<and> length (vd_info (vd s)) = NUM \<and> length (vd_ops (vd s)) = NUM \<and>
     vd_used_idx (vd s) = 0 \<and> vq_dev_seen (vd s) = 0 \<and> vq_dev_pending (vd s) = [] \<and>
     length (bufs (vk s)) = NBUF \<and> (\<forall>b < NBUF. \<not> b_disk (bufs (vk s) ! b))"

lemma kalloc_bufs: "kalloc k = Ret x l \<Longrightarrow> bufs l = bufs k"
  by (cases "LKmem \<in> set (held k)") (auto simp: kalloc_def whenK_apply split: if_splits)

lemma hoare_liftV_kalloc: "hoare vfresh (liftV kalloc) (\<lambda>_. vfresh)"
  by (rule hoareI) (auto simp: liftV_def vfresh_def split: outcome.splits dest: kalloc_bufs)

lemma mark_free: "forK is (\<lambda>i. updV (\<lambda>d. d\<lparr>vd_free := (vd_free d)[i := True]\<rparr>)) s =
    Ret () (s\<lparr>vd := (vd s)\<lparr>vd_free := fold (\<lambda>i f. f[i := True]) is (vd_free (vd s))\<rparr>\<rparr>)"
  by (induction "is" arbitrary: s) simp_all

lemma fold_True: "length f = n \<Longrightarrow> fold (\<lambda>i f. f[i := True]) [0..<n] f = replicate n True"
  using fold_update_nth[of n f "\<lambda>_ _. True"] by (simp add: map_replicate_const)

lemma hoare_queue_init: "hoare vfresh (virtio_queue_init status) (\<lambda>_. vready)"
  unfolding virtio_queue_init_def
  by (rule hoare_bind[OF hoare_liftV_kalloc] hoare_bind)+
    (auto simp: hoare_def vfresh_def vready_def vsized_def mark_free fold_True liftV_def split: if_splits)

lemma hoare_rd: "hoare vfresh (rd mmio r) (\<lambda>_. vfresh)"
  by (simp add: hoare_def)

lemma hoare_wr: "hoare vfresh (wr r v) (\<lambda>_. vfresh)"
  by (simp add: hoare_def vfresh_def)

lemma hoare_then: "hoare P m (\<lambda>_. R) \<Longrightarrow> hoare R n Q \<Longrightarrow> hoare P (thenK m n) Q"
  by (simp add: thenK_def hoare_bind)

lemma hoare_panic: "hoare P (panicK e) Q"
  by (simp add: hoare_def)

lemma hoare_if: "(b \<Longrightarrow> hoare P m Q) \<Longrightarrow> (\<not> b \<Longrightarrow> hoare P n Q) \<Longrightarrow> hoare P (if b then m else n) Q"
  by simp

lemma virtio_disk_init_vready: "hoare vfresh (virtio_disk_init mmio) (\<lambda>_. vready)"
  unfolding virtio_disk_init_def
  by (rule hoare_if hoare_panic hoare_bind[OF hoare_rd] hoare_then[OF hoare_wr] hoare_queue_init)+

text \<open>
  The registers of a virtio block device of version 2 whose queue has room, as the specification describes them:
  after a reset, and once the driver has set \<open>FEATURES_OK\<close>, the device keeps that bit.
\<close>

definition block_device :: "((nat \<times> uint) list \<Rightarrow> nat \<Rightarrow> uint) \<Rightarrow> bool" where
  "block_device mmio \<longleftrightarrow> (\<forall>ws. mmio ws 0x000 = 0x74726976 \<and> mmio ws 0x004 = 2 \<and> mmio ws 0x008 = 2 \<and> mmio ws 0x00c = 0x554d4551 \<and>
     mmio ws 0x044 = 0 \<and> 8 \<le> mmio ws 0x034) \<and> (\<forall>ws. ws \<noteq> [] \<and> last ws = (0x070, 11) \<longrightarrow> mmio ws 0x070 = 11)"

lemma virtio_queue_init_runs:
  assumes lk: "LKmem \<notin> set (held (vk s))" and fr: "kmem_free (vk s) (a # b # c # ps)"
  shows "\<exists>t. virtio_queue_init status s = Ret () t"
proof -
  let ?k1 = "kalloc_post (vk s)"
  let ?k2 = "kalloc_post ?k1"
  let ?k3 = "kalloc_post ?k2"
  note p1 = kmem_free_kalloc_post[OF fr]
  note p2 = kmem_free_kalloc_post[OF p1(3)]
  note p3 = kmem_free_kalloc_post[OF p2(3)]
  have "kalloc (vk s) = Ret a ?k1" "kalloc ?k1 = Ret b ?k2" "kalloc ?k2 = Ret c ?k3"
    using kalloc_Cons[OF _ fr] kalloc_Cons[OF _ p1(3)] kalloc_Cons[OF _ p2(3)] lk by simp_all
  moreover have "a \<noteq> 0" "b \<noteq> 0" "c \<noteq> 0" using p1(2) p2(2) p3(2) by simp_all
  ultimately show ?thesis by (simp add: virtio_queue_init_def liftV_def mark_free)
qed

lemma virtio_disk_init_runs:
  assumes "block_device mmio" and "LKmem \<notin> set (held (vk s))" and "kmem_free (vk s) (a # b # c # ps)"
  shows "\<exists>t. virtio_disk_init mmio s = Ret () t"
proof -
  have m: "mmio ws 0 = 0x74726976" "mmio ws 4 = 2" "mmio ws 8 = 2" "mmio ws 12 = 0x554d4551" "mmio ws 68 = 0" "8 \<le> mmio ws 52" for ws
    using assms(1) by (simp_all add: block_device_def)
  have m70: "mmio (ws @ [x0, x1, x2, x3, (112, 11)]) 112 = 11" for ws x0 x1 x2 x3
    using assms(1) by (simp add: block_device_def)
  have nz: "mmio ws 52 \<noteq> 0" "\<not> mmio ws 52 < 8" for ws using m(6)[of ws] by (auto simp: not_less)
  have q: "\<exists>t. virtio_queue_init 11 (s\<lparr>vd := d\<rparr>) = Ret () t" for d
    by (rule virtio_queue_init_runs) (use assms(2,3) in simp_all)
  show ?thesis using q by (simp add: virtio_disk_init_def m m70 nz)
qed

section \<open>Properties\<close>

lemma free_count:
  assumes "vinv s w p u e"
  shows "card {i. i < NUM \<and> vd_free (vd s) ! i} + 3 * length (w @ p @ u @ e) = NUM"
proof -
  let ?R = "set (w @ p @ u @ e)" and ?U = "\<Union>q \<in> set (w @ p @ u @ e). descs q"
  have tab: "vtab (vd s) ?R {}" and d: "distinct (w @ p @ u @ e)" using assms by (simp_all add: vinv_def)
  have "{i. i < NUM \<and> vd_free (vd s) ! i} = {..<NUM} - ?U" using tab unfolding vtab_def by auto
  moreover have "card ({..<NUM} - ?U) = card {..<NUM} - card ?U"
    by (rule card_Diff_subset) (use descs_range[OF tab] in \<open>auto simp: descs_def\<close>)
  moreover have "card ?U \<le> NUM" using card_mono[OF _ descs_range[OF tab]] by simp
  ultimately show ?thesis using descs_card[OF tab] distinct_card[OF d] by simp
qed

lemma vrel_length:
  assumes "vinv s w p u e" and "distinct cs" and "set cs = set (w @ p @ u @ e)"
  shows "length cs = length (w @ p @ u @ e)"
proof -
  have "distinct (w @ p @ u @ e)" using assms(1) by (simp add: vinv_def)
  then show ?thesis using distinct_card[OF assms(2)] distinct_card[of "w @ p @ u @ e"] assms(3) by simp
qed

lemma vdisk_rw_alloc_sleeps:
  assumes "vinv s w p u e" and "b < NBUF" and "b \<notin> q_b ` set (w @ p @ u @ e)" and "in_disk me (vk s)"
  shows "\<exists>t. vdisk_rw_alloc b write sector s = Swtch me t \<and>
    asleep me (if length (w @ p @ u @ e) < 2 then ChBuf b else ChDiskFree) (vk t)"
  using vdisk_rw_alloc_cases[OF assms, of "write" sector]
proof (elim disjE exE conjE)
  fix q r
  assume "vdisk_rw_alloc b write sector s = Swtch me r" "length (w @ p @ u @ e) < 2" "asleep me (ChBuf b) (vk r)"
  then show ?thesis by simp
next
  fix r
  assume "vdisk_rw_alloc b write sector s = Swtch me r" "length (w @ p @ u @ e) = 2" "asleep me ChDiskFree (vk r)"
  then show ?thesis by simp
qed

lemma vruns_inv:
  assumes "\<forall>s t. dev s t \<longrightarrow> device_step s t" and "vready s0" and "vruns dev mmio (s0, []) tr (s, cs)"
  obtains w p u e where "vinv s w p u e" and "distinct cs" and "set cs = set (w @ p @ u @ e)" and "length cs = length (w @ p @ u @ e)"
proof -
  obtain d where "vrel (s, cs) d" using sim_runs[OF assms] by blast
  then obtain w p u e where "vinv s w p u e" "distinct cs" "set cs = set (w @ p @ u @ e)" using vrelE by metis
  then show ?thesis using that vrel_length by blast
qed

text \<open>
  (C6) The disk driver never gets stuck.  After \<open>virtio_disk_init\<close>, whatever the device, the interrupts and the
  rest of the kernel do, in any order: every descriptor is free or in the chain of exactly one request, at most
  two requests are in flight; a further \<open>virtio_disk_rw\<close> posts its request, or sleeps for descriptors when two
  are in flight already; a woken call either returns, with no lock held, or sleeps again; and the
  interrupt handler returns.  None of the panics of the driver is reachable.
\<close>

theorem virtio_driver_safe:
  assumes dev: "\<forall>s t. dev s t \<longrightarrow> device_step s t" and "vfresh sx" and "virtio_disk_init mmio sx = Ret () s0"
    and run: "vruns dev mmio (s0, []) tr (s, cs)"
  shows "card {i. i < NUM \<and> vd_free (vd s) ! i} + 3 * length cs = NUM \<and>
    (\<forall>me b write. in_disk me (vk s) \<and> b < NBUF \<and> b \<notin> q_b ` set cs \<longrightarrow>
       (\<exists>t. vdisk_rw_alloc b write (vsector (b_blockno (bufs (vk s) ! b))) s = Swtch me t \<and>
            asleep me (if length cs < 2 then ChBuf b else ChDiskFree) (vk t))) \<and>
    (\<forall>me q. in_disk me (vk s) \<and> q \<in> set cs \<longrightarrow>
       (\<exists>t. vdisk_rw_wait (q_b q) (q_i0 q) s = Swtch me t \<or> vdisk_rw_wait (q_b q) (q_i0 q) s = Ret () t \<and> held (vk t) = [])) \<and>
    (proc_locks_free (vk s) \<and> length (procs (vk s)) = NPROC \<and> LDisk \<notin> set (held (vk s)) \<longrightarrow>
       (\<exists>t. virtio_disk_intr mmio s = Ret () t))"
proof -
  have "vready s0" using hoareD[OF virtio_disk_init_vready assms(2,3)] .
  from vruns_inv[OF dev this run] obtain w p u e where inv: "vinv s w p u e" and cs: "set cs = set (w @ p @ u @ e)" "length cs = length (w @ p @ u @ e)"
    by metis
  have "\<exists>t. vdisk_rw_alloc b write (vsector (b_blockno (bufs (vk s) ! b))) s = Swtch me t \<and>
      asleep me (if length cs < 2 then ChBuf b else ChDiskFree) (vk t)"
    if "in_disk me (vk s)" "b < NBUF" "b \<notin> q_b ` set cs" for me b "write"
    unfolding cs(2) by (rule vdisk_rw_alloc_sleeps[OF inv that(2) that(3)[unfolded cs(1)] that(1)])
  moreover have "\<exists>t. vdisk_rw_wait (q_b q) (q_i0 q) s = Swtch me t \<or> vdisk_rw_wait (q_b q) (q_i0 q) s = Ret () t \<and> held (vk t) = []"
    if "in_disk me (vk s)" "q \<in> set cs" for me q
    using vdisk_rw_wait_sleeps[OF inv _ that(1), of q] vdisk_rw_wait_returns[OF inv _ that(1), of q] that(2) cs(1) by auto
  moreover have "\<exists>t. virtio_disk_intr mmio s = Ret () t"
    if "proc_locks_free (vk s) \<and> length (procs (vk s)) = NPROC \<and> LDisk \<notin> set (held (vk s))"
    using virtio_disk_intr_runs[OF inv, of mmio] that by blast
  ultimately show ?thesis using free_count[OF inv] unfolding cs(2) by blast
qed

lemma druns_counts:
  assumes "druns (V, {}, {}) tr d"
  shows "fst (snd d) \<inter> snd (snd d) = {} \<and> (\<forall>q. count_list tr (Call q) = count_list tr (Transfer q) + of_bool (q \<in> fst (snd d)) \<and>
    count_list tr (Transfer q) = count_list tr (Return q) + of_bool (q \<in> snd (snd d)))"
  using assms
proof (induction "(V, {} :: vcall set, {} :: vcall set)" tr d rule: druns.induct)
  case (d_extend es n e n')
  from d_extend(3) show ?case
  proof cases
    case (d_call q P D V)
    then show ?thesis using d_extend(2) by (auto simp: of_bool_def)
  next
    case (d_transfer q P k k' D)
    then show ?thesis using d_extend(2) by (auto simp: of_bool_def)
  next
    case (d_return q D V P)
    then show ?thesis using d_extend(2) by (auto simp: of_bool_def)
  next
    case (d_other P D bs' bs dk dw)
    then show ?thesis using d_extend(2) by simp
  next
    case (d_tau V P D)
    then show ?thesis using d_extend(2) by simp
  qed
qed simp

text \<open>
  (C5) The driver together with the device implements the indivisible \<open>virtio_disk_rw\<close> that the buffer cache is
  built on.  Any run is a run of the abstract disk with the same calls, transfers and returns, on the same disk and
  buffers: every call is served by exactly one transfer, after the call and before its return, even with
  several requests in flight and served out of order.
\<close>

theorem virtio_driver_refines:
  assumes dev: "\<forall>s t. dev s t \<longrightarrow> device_step s t" and "vready s0" and "vruns dev mmio (s0, []) tr (s, cs)"
  shows "\<exists>P D. druns (kview (vk s0), {}, {}) tr (kview (vk s), P, D) \<and> P \<union> D = set cs \<and> P \<inter> D = {} \<and>
    (\<forall>q. count_list tr (Call q) = count_list tr (Transfer q) + of_bool (q \<in> P) \<and>
         count_list tr (Transfer q) = count_list tr (Return q) + of_bool (q \<in> D))"
proof -
  obtain d where d: "druns (kview (vk s0), {}, {}) tr d" "vrel (s, cs) d" using sim_runs[OF assms] by blast
  obtain w p u e where "d = (kview (vk s), set (w @ p), set (u @ e))" "set cs = set (w @ p @ u @ e)" using vrelE[OF d(2)] by metis
  then show ?thesis using d(1) druns_counts[OF d(1)] by (intro exI[of _ "set (w @ p)"] exI[of _ "set (u @ e)"]) auto
qed

lemma device_steps_bounded:
  assumes "vinv s w p u e" and "(device_step ^^ n) s t"
  shows "n \<le> 2 * length w + length p"
  using assms
proof (induction n arbitrary: s w p u)
  case (Suc n)
  obtain r where r: "device_step s r" "(device_step ^^ n) r t" using relpowp_Suc_D2[OF Suc.prems(2)] by blast
  from r(1) show ?case unfolding device_step_def
  proof (elim disjE conjE bexE)
    assume a: "vq_dev_seen (vd s) \<noteq> vq_avail_idx (vd s)" "r = dev_fetch s"
    obtain q w' where "w = q # w'" "vinv r w' (p @ [q]) u e" using vinv_fetch[OF Suc.prems(1) a(1)] a(2) by blast
    then show ?thesis using Suc.IH[OF _ r(2)] by fastforce
  next
    fix h assume a: "h \<in> set (vq_dev_pending (vd s))" "dev_complete h s = Some r"
    obtain q where "q \<in> set p" "vinv r w (remove1 q p) (u @ [q]) e" using vinv_complete[OF Suc.prems(1) a(1)] a(2) by auto
    moreover from this(1) have "Suc (length (remove1 q p)) = length p" using length_pos_if_in_set[of q p] by (simp add: length_remove1)
    ultimately show ?thesis using Suc.IH[OF _ r(2)] by fastforce
  qed
qed simp

lemma device_idle:
  assumes inv: "vinv s w p u e" and stop: "\<not> (\<exists>t. device_step s t)"
  shows "w = [] \<and> p = []"
proof -
  have Q: "vqueues (vd s) w p u" using inv by (simp add: vinv_def)
  have "vq_dev_seen (vd s) = vq_avail_idx (vd s)" using stop unfolding device_step_def by blast
  then have "w = []" using Q by (simp add: vqueues_def ring_queue_def)
  moreover have "vq_dev_pending (vd s) = []"
  proof (rule ccontr)
    assume "vq_dev_pending (vd s) \<noteq> []"
    then obtain h where h: "h \<in> set (vq_dev_pending (vd s))" by (cases "vq_dev_pending (vd s)") auto
    then show False using vinv_complete[OF inv h] stop unfolding device_step_def by blast
  qed
  ultimately show ?thesis using Q by (simp add: vqueues_def)
qed

text \<open>
  (C7) Every disk request finishes.  In any reachable state the device has at most two steps to do for each
  call in flight; when it has none left, the interrupt handler returns, and after it every call in flight returns as soon
  as its process runs, whatever the rest of the kernel did in between.
\<close>

theorem disk_requests_finish:
  assumes dev: "\<forall>s t. dev s t \<longrightarrow> device_step s t" and "vready s0" and "vruns dev mmio (s0, []) tr (s, cs)"
  shows "(\<forall>n t. (device_step ^^ n) s t \<longrightarrow> n \<le> 2 * length cs) \<and>
    (\<not> (\<exists>t. device_step s t) \<and> proc_locks_free (vk s) \<and> length (procs (vk s)) = NPROC \<and> LDisk \<notin> set (held (vk s)) \<longrightarrow>
      (\<exists>t. virtio_disk_intr mmio s = Ret () t \<and>
        (\<forall>q \<in> set cs. \<forall>me k. others cs (vk t) k \<and> in_disk me k \<longrightarrow> (\<exists>r. vdisk_rw_wait (q_b q) (q_i0 q) (t\<lparr>vk := k\<rparr>) = Ret () r))))"
proof -
  obtain w p u e where inv: "vinv s w p u e" and cs: "set cs = set (w @ p @ u @ e)" "length cs = length (w @ p @ u @ e)"
    using vruns_inv[OF assms] by metis
  have "n \<le> 2 * length cs" if "(device_step ^^ n) s t" for n t
    using device_steps_bounded[OF inv that] cs(2) by simp
  moreover have "\<exists>t. virtio_disk_intr mmio s = Ret () t \<and>
      (\<forall>q \<in> set cs. \<forall>me k. others cs (vk t) k \<and> in_disk me k \<longrightarrow> (\<exists>r. vdisk_rw_wait (q_b q) (q_i0 q) (t\<lparr>vk := k\<rparr>) = Ret () r))"
    if a: "\<not> (\<exists>t. device_step s t)" "proc_locks_free (vk s)" "length (procs (vk s)) = NPROC" "LDisk \<notin> set (held (vk s))"
  proof -
    obtain t where t: "virtio_disk_intr mmio s = Ret () t" "vinv t w p [] (e @ u)"
      using virtio_disk_intr_runs[OF inv a(2-4), of mmio] by blast
    have "\<exists>r. vdisk_rw_wait (q_b q) (q_i0 q) (t\<lparr>vk := k\<rparr>) = Ret () r"
      if "q \<in> set cs" "others cs (vk t) k" "in_disk me k" for q me k
    proof -
      have "vinv (t\<lparr>vk := k\<rparr>) w p [] (e @ u)" using t(2) that(2) vinv_bufs[OF t(2)] by (simp add: vinv_def vbusy_def others_def)
      moreover have "q \<in> set (e @ u)" using that(1) cs(1) device_idle[OF inv a(1)] by auto
      ultimately show ?thesis using vdisk_rw_wait_returns[of "t\<lparr>vk := k\<rparr>" w p "[]" "e @ u" q me] that(3) by auto
    qed
    then show ?thesis using t(1) by blast
  qed
  ultimately show ?thesis by blast
qed

section \<open>A run\<close>

text \<open>
  A device that keeps its status register, a driver before its initialisation with three free pages, and the run in
  which a process then reads block 0.
\<close>

definition test_mmio :: "(nat \<times> uint) list \<Rightarrow> nat \<Rightarrow> uint" where
  "test_mmio ws r = (if r = 0x000 then 0x74726976 else if r = 0x004 \<or> r = 0x008 then 2 else if r = 0x00c then 0x554d4551
     else if r = 0x034 then 1024 else if r = 0x070 \<and> ws \<noteq> [] then snd (last ws) else 0)"

definition test_vst :: vst where
  "test_vst = \<lparr>vk = kfree_post 0x87fff000 (kfree_post 0x87ffe000 (kfree_post 0x87ffd000
       (boot_state 0x87ffd000 0x80008000 0x80007000 zero_symbols (\<lambda>_. [])))),
     vd = \<lparr>vq_desc = [], vq_avail_idx = 0, vq_avail_ring = [], vq_used_idx = 0, vq_used_ring = [], vd_free = replicate NUM False,
       vd_used_idx = 0, vd_info = replicate NUM \<lparr>vi_b = None, vi_status = 0\<rparr>,
       vd_ops = replicate NUM \<lparr>rq_type = 0, rq_reserved = 0, rq_sector = 0\<rparr>, vq_dev_seen = 0, vq_dev_pending = [], vq_regs = [], vq_pages = []\<rparr>\<rparr>"

lemma test_pages: "kmem_free (vk test_vst) [0x87fff000, 0x87ffe000, 0x87ffd000]"
proof -
  let ?s = "boot_state 0x87ffd000 0x80008000 0x80007000 zero_symbols (\<lambda>_. [])"
  have "kmem_free ?s []" by (simp add: boot_state_def kmem_free_def)
  then have 1: "kmem_free (kfree_post 0x87ffd000 ?s) [0x87ffd000]"
    by (rule kmem_free_kfree_post) (simp_all add: boot_state_def page_ok_def aligned_def)
  then have 2: "kmem_free (kfree_post 0x87ffe000 (kfree_post 0x87ffd000 ?s)) [0x87ffe000, 0x87ffd000]"
    by (rule kmem_free_kfree_post) (simp_all add: boot_state_def page_ok_def aligned_def)
  then show ?thesis unfolding test_vst_def vst.simps
    by (rule kmem_free_kfree_post) (simp_all add: boot_state_def page_ok_def aligned_def)
qed

lemma test_boot: "block_device test_mmio" "vfresh test_vst" "\<exists>s. virtio_disk_init test_mmio test_vst = Ret () s"
proof -
  show b: "block_device test_mmio" by (simp add: block_device_def test_mmio_def)
  show "vfresh test_vst" by (simp add: vfresh_def test_vst_def kfree_post_def boot_state_def zero_buf_def)
  have "LKmem \<notin> set (held (vk test_vst))" by (simp add: test_vst_def kfree_post_def boot_state_def)
  then show "\<exists>s. virtio_disk_init test_mmio test_vst = Ret () s" by (rule virtio_disk_init_runs[OF b _ test_pages])
qed

lemma test_post:
  assumes inv: "vinv s [] [] [] []" and ctx: "in_disk me (vk s)" and bl: "b_blockno (bufs (vk s) ! 0) < 0x80000000"
  shows "\<exists>t q. vstep dev mmio (s, []) (Call q) (t, [q]) \<and> vinv t [q] [] [] [] \<and> q_b q = 0"
proof -
  have b: "0 < NBUF" "0 \<notin> q_b ` set ([] @ [] @ [] @ [])" by simp_all
  let ?sec = "vsector (b_blockno (bufs (vk s) ! 0))"
  from vdisk_rw_alloc_cases[OF inv b ctx, of False ?sec] show ?thesis
  proof (elim disjE exE conjE)
    fix q :: vcall and r t'
    assume q: "vdisk_rw_alloc 0 False ?sec s = Swtch me r" "vinv r ([] @ [q]) [] [] []" "q_b q = 0" "q_write q = False" "q_sector q = ?sec"
      "alloc3_desc s = Ret (0, [q_i0 q, q_i1 q, q_i2 q]) t'"
    have "vstep dev mmio (s, []) (Call q) (r, [] @ [q])"
      by (rule post[OF ctx _ _ _ _ q(6)]) (use q bl in simp_all)
    then show ?thesis using q(2,3) by auto
  qed simp
qed

lemma test_run:
  assumes "vready s"
  shows "\<exists>t q. vruns device_step mmio (s, []) [Other, Call q] (t, [q]) \<and> vinv t [q] [] [] [] \<and> q_b q = 0"
proof -
  let ?k = "(vk s)\<lparr>curproc := Some 0, held := [LDisk], procs := replicate NPROC zero_proc, bufs := replicate NBUF zero_buf\<rparr>"
  let ?s = "s\<lparr>vk := ?k\<rparr>"
  have "others [] (vk s) ?k" using assms by (simp add: others_def vready_def zero_buf_def)
  then have st: "vstep device_step mmio (s, []) Other (?s, [])" by (rule other)
  have inv: "vinv ?s [] [] [] []" by (rule vinv_ready) (use assms in \<open>simp add: vready_def zero_buf_def\<close>)
  obtain t q where t: "vstep device_step mmio (?s, []) (Call q) (t, [q])" "vinv t [q] [] [] []" "q_b q = 0"
    using test_post[OF inv, of 0 device_step mmio] by (auto simp: in_disk_def zero_buf_def)
  then have "vruns device_step mmio (s, []) ([] @ [Other] @ [Call q]) (t, [q])"
    using vruns.extend[OF vruns.extend[OF vruns.start st] t(1)] by simp
  then show ?thesis using t(2,3) by auto
qed

theorem virtio_driver_safe_witness:
  "\<exists>s0 t q. virtio_disk_init test_mmio test_vst = Ret () s0 \<and> vruns device_step test_mmio (s0, []) [Other, Call q] (t, [q]) \<and>
     card {i. i < NUM \<and> vd_free (vd t) ! i} = 5"
proof -
  obtain s0 where s0: "virtio_disk_init test_mmio test_vst = Ret () s0" using test_boot(3) by blast
  have "vready s0" using hoareD[OF virtio_disk_init_vready test_boot(2) s0] .
  then obtain t q where r: "vruns device_step test_mmio (s0, []) [Other, Call q] (t, [q])" using test_run by blast
  have "card {i. i < NUM \<and> vd_free (vd t) ! i} + 3 * length [q] = NUM"
    using virtio_driver_safe[OF _ test_boot(2) s0 r] by blast
  then show ?thesis using s0 r by auto
qed

theorem virtio_driver_refines_witness:
  "\<exists>s0 t q P D. vruns device_step test_mmio (s0, []) [Other, Call q] (t, [q]) \<and>
     druns (kview (vk s0), {}, {}) [Other, Call q] (kview (vk t), P, D) \<and> q \<in> P"
proof -
  obtain s0 where s0: "virtio_disk_init test_mmio test_vst = Ret () s0" using test_boot(3) by blast
  have v: "vready s0" using hoareD[OF virtio_disk_init_vready test_boot(2) s0] .
  then obtain t q where r: "vruns device_step test_mmio (s0, []) [Other, Call q] (t, [q])" using test_run by blast
  obtain P D where "druns (kview (vk s0), {}, {}) [Other, Call q] (kview (vk t), P, D)"
      "count_list [Other, Call q] (Call q) = count_list [Other, Call q] (Transfer q) + of_bool (q \<in> P)"
    using virtio_driver_refines[OF _ v r] by blast
  then have "druns (kview (vk s0), {}, {}) [Other, Call q] (kview (vk t), P, D) \<and> q \<in> P" by (auto simp: of_bool_def split: if_splits)
  then show ?thesis using r by blast
qed

lemma test_serve:
  assumes inv: "vinv s [q] [] [] []"
  shows "\<exists>r t. vstep device_step mmio (s, [q]) Tau (r, [q]) \<and> vstep device_step mmio (r, [q]) (Transfer q) (t, [q]) \<and>
     \<not> (\<exists>u. device_step t u) \<and> procs (vk t) = procs (vk s) \<and> held (vk t) = held (vk s)"
proof -
  let ?r = "dev_fetch s" and ?t = "completed q (dev_fetch s)"
  have ne: "vq_dev_seen (vd s) \<noteq> vq_avail_idx (vd s)"
    using inv by (auto simp: vinv_def vqueues_def ring_queue_def)
  have r: "vinv ?r [] [q] [] []" "vk ?r = vk s" using vinv_fetch[OF inv ne] by auto
  have pd: "vq_dev_pending (vd ?r) = [q_i0 q]" using r(1) by (simp add: vinv_def vqueues_def)
  have t: "dev_complete (q_i0 q) ?r = Some ?t" "vinv ?t [] [] [q] []" using vinv_complete[OF r(1), of "q_i0 q"] pd by auto
  have "vstep device_step mmio (s, [q]) Tau (?r, [q])"
    by (rule fetch) (use ne in \<open>simp_all add: device_step_def dev_fetch_def\<close>)
  moreover have "q_i0 q < NUM" "length (vq_used_ring (vd ?r)) = NUM" using r(1) by (auto simp: vinv_def vtab_def vsized_def descs_def)
  then have "vstep device_step mmio (?r, [q]) (Transfer q) (?t, [q])"
    by (intro transfer) (use t(1) pd in \<open>simp_all add: device_step_def completed_def unat_of_nat take_bit_nat_eq_self\<close>)
  moreover have "vq_dev_pending (vd ?t) = []" "vq_dev_seen (vd ?t) = vq_avail_idx (vd ?t)"
    using t(2) by (auto simp: vinv_def vqueues_def ring_queue_def unat_eq_0)
  then have "\<not> (\<exists>u. device_step ?t u)" by (simp add: device_step_def)
  moreover have "procs (vk ?t) = procs (vk s)" "held (vk ?t) = held (vk s)"
    using r(2) by (simp_all add: completed_def dev_transfer_def Let_def upd_buf_def)
  ultimately show ?thesis by blast
qed

theorem disk_requests_finish_witness:
  "\<exists>s0 t q s u k r. vruns device_step test_mmio (s0, []) [Other, Call q] (t, [q]) \<and> (\<forall>n r. (device_step ^^ n) t r \<longrightarrow> n \<le> 2) \<and>
     vruns device_step test_mmio (s0, []) [Other, Call q, Other, Tau, Transfer q] (s, [q]) \<and> virtio_disk_intr test_mmio s = Ret () u \<and>
     in_disk 0 k \<and> vdisk_rw_wait (q_b q) (q_i0 q) (u\<lparr>vk := k\<rparr>) = Ret () r"
proof -
  obtain s0 where s0: "virtio_disk_init test_mmio test_vst = Ret () s0" using test_boot(3) by blast
  have v: "vready s0" using hoareD[OF virtio_disk_init_vready test_boot(2) s0] .
  then obtain t q where r: "vruns device_step test_mmio (s0, []) [Other, Call q] (t, [q])" and inv: "vinv t [q] [] [] []" using test_run by blast
  have n: "\<forall>n u. (device_step ^^ n) t u \<longrightarrow> n \<le> 2 * length [q]" using disk_requests_finish[OF _ v r] by blast
  let ?t = "t\<lparr>vk := (vk t)\<lparr>held := [], procs := replicate NPROC zero_proc\<rparr>\<rparr>"
  have "vstep device_step test_mmio (t, [q]) Other (?t, [q])" by (rule other) (simp add: others_def)
  from vruns.extend[OF r this] have r1: "vruns device_step test_mmio (s0, []) [Other, Call q, Other] (?t, [q])" by simp
  have "vinv ?t [q] [] [] []" using inv by (simp add: vinv_def)
  from test_serve[OF this, of test_mmio] obtain w s where w: "vstep device_step test_mmio (?t, [q]) Tau (w, [q])"
      "vstep device_step test_mmio (w, [q]) (Transfer q) (s, [q])" and st: "\<not> (\<exists>u. device_step s u)" and
    k: "procs (vk s) = replicate NPROC zero_proc" "held (vk s) = []" by auto
  have r2: "vruns device_step test_mmio (s0, []) [Other, Call q, Other, Tau, Transfer q] (s, [q])"
    using vruns.extend[OF vruns.extend[OF r1 w(1)] w(2)] by simp
  have "proc_locks_free (vk s)" "length (procs (vk s)) = NPROC" "LDisk \<notin> set (held (vk s))" using k by (simp_all add: proc_locks_free_def)
  then obtain u where u: "virtio_disk_intr test_mmio s = Ret () u"
      "\<forall>q' \<in> set [q]. \<forall>me k. others [q] (vk u) k \<and> in_disk me k \<longrightarrow> (\<exists>r. vdisk_rw_wait (q_b q') (q_i0 q') (u\<lparr>vk := k\<rparr>) = Ret () r)"
    using disk_requests_finish[OF _ v r2] st by blast
  let ?k = "(vk u)\<lparr>curproc := Some 0, held := [LDisk], procs := replicate NPROC zero_proc\<rparr>"
  have kk: "others [q] (vk u) ?k" "in_disk 0 ?k" by (simp_all add: others_def in_disk_def)
  then obtain x where "vdisk_rw_wait (q_b q) (q_i0 q) (u\<lparr>vk := ?k\<rparr>) = Ret () x" using u(2) by (meson list.set_intros(1))
  then show ?thesis using r n r2 u(1) kk(2) by (intro exI conjI) auto
qed

end
