(* ===== verification/Xv6_Submit.thy ===== *)
theory Xv6_Submit
  imports Xv6_Diskops
begin

text \<open>
  The posting of a request in \<open>virtio_disk_rw\<close> of \<^verbatim>\<open>kernel/virtio_disk.c\<close>, store by store.  The device does not take
  \<open>vdisk_lock\<close>: it may fetch and complete other requests between any two of these stores, while \<open>Xv6_Diskops\<close> takes the
  posting as one step.  Here it is shown that up to the store to \<open>avail->idx\<close> the device does exactly what it could
  have done before the first of them, so that nothing is lost by putting its steps there.
\<close>

section \<open>The stores\<close>

definition store_op :: "nat \<Rightarrow> (virtio_blk_req \<Rightarrow> virtio_blk_req) \<Rightarrow> vst \<Rightarrow> vst" where
  "store_op i f s = s\<lparr>vd := (vd s)\<lparr>vd_ops := (vd_ops (vd s))[i := f (vd_ops (vd s) ! i)]\<rparr>\<rparr>"

definition store_desc :: "nat \<Rightarrow> (virtq_desc \<Rightarrow> virtq_desc) \<Rightarrow> vst \<Rightarrow> vst" where
  "store_desc i f s = s\<lparr>vd := (vd s)\<lparr>vq_desc := (vq_desc (vd s))[i := f (vq_desc (vd s) ! i)]\<rparr>\<rparr>"

definition store_info :: "nat \<Rightarrow> (vinfo \<Rightarrow> vinfo) \<Rightarrow> vst \<Rightarrow> vst" where
  "store_info i f s = s\<lparr>vd := (vd s)\<lparr>vd_info := (vd_info (vd s))[i := f (vd_info (vd s) ! i)]\<rparr>\<rparr>"

definition store_disk_flag :: "nat \<Rightarrow> vst \<Rightarrow> vst" where
  "store_disk_flag b s = s\<lparr>vk := upd_buf b (\<lambda>bp. bp\<lparr>b_disk := True\<rparr>) (vk s)\<rparr>"

definition store_ring :: "nat \<Rightarrow> vst \<Rightarrow> vst" where
  "store_ring i s = s\<lparr>vd := (vd s)\<lparr>vq_avail_ring := (vq_avail_ring (vd s))[unat (vq_avail_idx (vd s)) mod NUM := of_nat i]\<rparr>\<rparr>"

definition submit_stores :: "nat \<Rightarrow> nat \<Rightarrow> nat \<Rightarrow> nat \<Rightarrow> uint64 \<Rightarrow> bool \<Rightarrow> (vst \<Rightarrow> vst) list" where
  "submit_stores i0 i1 i2 b sector write =
    [store_op i0 (\<lambda>r. r\<lparr>rq_type := if write then VIRTIO_BLK_T_OUT else VIRTIO_BLK_T_IN\<rparr>),
     store_op i0 (\<lambda>r. r\<lparr>rq_reserved := 0\<rparr>),
     store_op i0 (\<lambda>r. r\<lparr>rq_sector := sector\<rparr>),
     store_desc i0 (\<lambda>d. d\<lparr>d_addr := VOp i0\<rparr>),
     store_desc i0 (\<lambda>d. d\<lparr>d_len := 16\<rparr>),
     store_desc i0 (\<lambda>d. d\<lparr>d_flags := VRING_DESC_F_NEXT\<rparr>),
     store_desc i0 (\<lambda>d. d\<lparr>d_next := of_nat i1\<rparr>),
     store_desc i1 (\<lambda>d. d\<lparr>d_addr := VData b\<rparr>),
     store_desc i1 (\<lambda>d. d\<lparr>d_len := of_nat BSIZE\<rparr>),
     store_desc i1 (\<lambda>d. d\<lparr>d_flags := if write then 0 else VRING_DESC_F_WRITE\<rparr>),
     store_desc i1 (\<lambda>d. d\<lparr>d_flags := d_flags d OR VRING_DESC_F_NEXT\<rparr>),
     store_desc i1 (\<lambda>d. d\<lparr>d_next := of_nat i2\<rparr>),
     store_info i0 (\<lambda>f. f\<lparr>vi_status := 0xff\<rparr>),
     store_desc i2 (\<lambda>d. d\<lparr>d_addr := VStatus i0\<rparr>),
     store_desc i2 (\<lambda>d. d\<lparr>d_len := 1\<rparr>),
     store_desc i2 (\<lambda>d. d\<lparr>d_flags := VRING_DESC_F_WRITE\<rparr>),
     store_desc i2 (\<lambda>d. d\<lparr>d_next := 0\<rparr>),
     store_disk_flag b,
     store_info i0 (\<lambda>f. f\<lparr>vi_b := Some b\<rparr>),
     store_ring i0]"

definition store_avail_idx :: "vst \<Rightarrow> vst" where
  "store_avail_idx s = s\<lparr>vd := (vd s)\<lparr>vq_avail_idx := vq_avail_idx (vd s) + 1\<rparr>\<rparr>"

abbreviation stored :: "(vst \<Rightarrow> vst) list \<Rightarrow> vst \<Rightarrow> vst" where
  "stored fs s \<equiv> fold (\<lambda>f. f) fs s"

lemmas store_defs = store_op_def store_desc_def store_info_def store_disk_flag_def store_ring_def store_avail_idx_def

section \<open>The device does not see them\<close>

text \<open>
  The requests the device works on use neither the descriptors \<open>X\<close> with the header and status byte \<open>i\<close> nor the buffer \<open>b\<close>, and a
  request it has yet to fetch is not in the slot of the available ring that is filled next.
\<close>

definition clear_of :: "nat set \<Rightarrow> nat \<Rightarrow> nat \<Rightarrow> virtq_desc list \<Rightarrow> nat \<Rightarrow> bool" where
  "clear_of X i b d h \<longleftrightarrow> (let n1 = unat (d_next (d ! h)); n2 = unat (d_next (d ! n1)) in
     h \<notin> X \<and> n1 \<notin> X \<and> n2 \<notin> X \<and> d_addr (d ! h) \<noteq> VOp i \<and> d_addr (d ! n1) \<noteq> VData b \<and> d_addr (d ! n2) \<noteq> VStatus i)"

definition apart :: "nat set \<Rightarrow> nat \<Rightarrow> nat \<Rightarrow> vst \<Rightarrow> bool" where
  "apart X i b s \<longleftrightarrow> (\<forall>h \<in> set (vq_dev_pending (vd s)). clear_of X i b (vq_desc (vd s)) h) \<and>
     (vq_dev_seen (vd s) \<noteq> vq_avail_idx (vd s) \<longrightarrow> unat (vq_dev_seen (vd s)) mod NUM \<noteq> unat (vq_avail_idx (vd s)) mod NUM)"

text \<open>A store is hidden if the device's steps before and after it correspond and it keeps requests apart.\<close>

definition hidden :: "nat set \<Rightarrow> nat \<Rightarrow> nat \<Rightarrow> (vst \<Rightarrow> vst) \<Rightarrow> bool" where
  "hidden X i b f \<longleftrightarrow> (\<forall>s. apart X i b s \<longrightarrow> apart X i b (f s) \<and> (\<forall>t. device_step (f s) t \<longleftrightarrow> (\<exists>u. device_step s u \<and> t = f u)))"

lemma hiddenI:
  assumes ring: "\<And>s. vq_dev_pending (vd (f s)) = vq_dev_pending (vd s) \<and> vq_dev_seen (vd (f s)) = vq_dev_seen (vd s) \<and>
      vq_avail_idx (vd (f s)) = vq_avail_idx (vd s)"
    and keep: "\<And>s. apart X i b s \<Longrightarrow> apart X i b (f s)"
    and fetch: "\<And>s. apart X i b s \<Longrightarrow> vq_dev_seen (vd s) \<noteq> vq_avail_idx (vd s) \<Longrightarrow> dev_fetch (f s) = f (dev_fetch s)"
    and complete: "\<And>s h. apart X i b s \<Longrightarrow> h \<in> set (vq_dev_pending (vd s)) \<Longrightarrow> dev_complete h (f s) = map_option f (dev_complete h s)"
  shows "hidden X i b f"
  unfolding hidden_def
proof (intro allI impI conjI)
  fix s t assume a: "apart X i b s"
  then show "apart X i b (f s)" by (rule keep)
  show "device_step (f s) t \<longleftrightarrow> (\<exists>u. device_step s u \<and> t = f u)"
    using ring[of s] fetch[OF a] complete[OF a] unfolding device_step_def by auto
qed

lemma hidden_stores:
  assumes "\<forall>f \<in> set fs. hidden X i b f" and "apart X i b s"
  shows "apart X i b (stored fs s) \<and> (\<forall>t. device_step (stored fs s) t \<longleftrightarrow> (\<exists>u. device_step s u \<and> t = stored fs u))"
  using assms
proof (induction fs arbitrary: s)
  case (Cons f fs)
  have f: "apart X i b (f s)" "device_step (f s) t \<longleftrightarrow> (\<exists>u. device_step s u \<and> t = f u)" for t
    using Cons.prems unfolding hidden_def by auto
  show ?case using Cons.IH[OF _ f(1)] Cons.prems(1) f(2) by auto
qed simp

lemma apartD:
  assumes "apart X i b s" and "h \<in> set (vq_dev_pending (vd s))"
  defines "d \<equiv> vq_desc (vd s)"
  shows "h \<notin> X" "unat (d_next (d ! h)) \<notin> X" "unat (d_next (d ! unat (d_next (d ! h)))) \<notin> X" "d_addr (d ! h) \<noteq> VOp i"
    "d_addr (d ! unat (d_next (d ! h))) \<noteq> VData b" "d_addr (d ! unat (d_next (d ! unat (d_next (d ! h))))) \<noteq> VStatus i"
  using assms by (auto simp: apart_def clear_of_def Let_def)

lemma clear_of_update:
  assumes "clear_of X i b d h" and "j \<in> X"
  shows "clear_of X i b (d[j := v]) h"
proof -
  have "j \<noteq> h" "j \<noteq> unat (d_next (d ! h))" "j \<noteq> unat (d_next (d ! unat (d_next (d ! h))))"
    using assms by (auto simp: clear_of_def Let_def)
  then show ?thesis using assms(1) by (simp add: clear_of_def Let_def)
qed

lemma hidden_desc:
  assumes "j \<in> X"
  shows "hidden X i b (store_desc j f)"
proof (rule hiddenI)
  fix s h assume a: "apart X i b s" "h \<in> set (vq_dev_pending (vd s))"
  have ne: "h \<noteq> j" "unat (d_next (vq_desc (vd s) ! h)) \<noteq> j"
    "unat (d_next (vq_desc (vd s) ! unat (d_next (vq_desc (vd s) ! h)))) \<noteq> j" using apartD[OF a] assms by auto
  then show "dev_complete h (store_desc j f s) = map_option (store_desc j f) (dev_complete h s)"
    by (simp add: dev_complete_def store_desc_def Let_def split: vaddr.split)
next
  fix s assume "apart X i b s"
  then show "apart X i b (store_desc j f s)" using clear_of_update[OF _ assms] by (simp add: apart_def store_desc_def)
qed (simp_all add: store_desc_def dev_fetch_def)

lemma hidden_op: "hidden X i b (store_op i f)"
proof (rule hiddenI)
  fix s h assume a: "apart X i b s" "h \<in> set (vq_dev_pending (vd s))"
  show "dev_complete h (store_op i f s) = map_option (store_op i f) (dev_complete h s)"
    using apartD(4)[OF a] by (auto simp: dev_complete_def store_op_def Let_def split: vaddr.split)
qed (simp_all add: store_op_def dev_fetch_def apart_def)

lemma hidden_info: "hidden X i b (store_info i f)"
proof (rule hiddenI)
  fix s h assume a: "apart X i b s" "h \<in> set (vq_dev_pending (vd s))"
  show "dev_complete h (store_info i f s) = map_option (store_info i f) (dev_complete h s)"
    using apartD(6)[OF a] by (auto simp: dev_complete_def store_info_def Let_def list_update_swap split: vaddr.split)
qed (simp_all add: store_info_def dev_fetch_def apart_def)

lemma transfer_flag: "b' \<noteq> b \<Longrightarrow> dev_transfer rq b' (upd_buf b f k) = upd_buf b f (dev_transfer rq b' k)"
  by (simp add: dev_transfer_def upd_buf_def Let_def list_update_swap)

lemma hidden_flag: "hidden X i b (store_disk_flag b)"
proof (rule hiddenI)
  fix s h assume a: "apart X i b s" "h \<in> set (vq_dev_pending (vd s))"
  show "dev_complete h (store_disk_flag b s) = map_option (store_disk_flag b) (dev_complete h s)"
    using apartD(5)[OF a] by (auto simp: dev_complete_def store_disk_flag_def Let_def transfer_flag split: vaddr.split)
qed (simp_all add: store_disk_flag_def dev_fetch_def apart_def)

lemma hidden_ring: "hidden X i b (store_ring j)"
proof (rule hiddenI)
  fix s assume a: "apart X i b s" "vq_dev_seen (vd s) \<noteq> vq_avail_idx (vd s)"
  then show "dev_fetch (store_ring j s) = store_ring j (dev_fetch s)" by (simp add: apart_def store_ring_def dev_fetch_def)
next
  fix s h show "dev_complete h (store_ring j s) = map_option (store_ring j) (dev_complete h s)"
    by (auto simp: dev_complete_def store_ring_def Let_def split: vaddr.split)
qed (simp_all add: store_ring_def apart_def)

lemma submit_stores_hidden: "f \<in> set (submit_stores i0 i1 i2 b sector wt) \<Longrightarrow> hidden {i0, i1, i2} i0 b f"
  unfolding submit_stores_def by (auto intro: hidden_desc hidden_op hidden_info hidden_flag hidden_ring)


section \<open>Any interleaving with the device\<close>

text \<open>The stores run in order, and the device takes any number of steps before, between and after them.\<close>

inductive interleaved :: "(vst \<Rightarrow> vst) list \<Rightarrow> vst \<Rightarrow> vst \<Rightarrow> bool" where
  all_stored: "interleaved [] s s"
| next_store: "interleaved fs (f s) t \<Longrightarrow> interleaved (f # fs) s t"
| device: "device_step s u \<Longrightarrow> interleaved fs u t \<Longrightarrow> interleaved fs s t"

text \<open>A driver in its invariant in which the descriptors \<open>X\<close> and the buffer \<open>b\<close> belong to no request.\<close>

definition unused :: "nat set \<Rightarrow> nat \<Rightarrow> vst \<Rightarrow> bool" where
  "unused X b s \<longleftrightarrow> (\<exists>w p u e. vinv s w p u e \<and> (\<forall>q \<in> set (w @ p @ u @ e). descs q \<inter> X = {} \<and> q_b q \<noteq> b))"

lemma unused_step:
  assumes "unused X b s" and "device_step s t"
  shows "unused X b t"
proof -
  obtain w p u e where inv: "vinv s w p u e" and R: "\<forall>q \<in> set (w @ p @ u @ e). descs q \<inter> X = {} \<and> q_b q \<noteq> b"
    using assms(1) unfolding unused_def by blast
  from assms(2) show ?thesis unfolding device_step_def
  proof (elim disjE conjE bexE)
    assume a: "vq_dev_seen (vd s) \<noteq> vq_avail_idx (vd s)" "t = dev_fetch s"
    obtain q w' where w: "w = q # w'" "vinv t w' (p @ [q]) u e" using vinv_fetch[OF inv a(1)] a(2) by blast
    have "set (w' @ (p @ [q]) @ u @ e) = set (w @ p @ u @ e)" using w(1) by auto
    then show ?thesis using w(2) R unfolding unused_def by metis
  next
    fix h assume a: "h \<in> set (vq_dev_pending (vd s))" "dev_complete h s = Some t"
    obtain q where q: "q \<in> set p" "vinv t w (remove1 q p) (u @ [q]) e" using vinv_complete[OF inv a(1)] a(2) by auto
    have "set (w @ remove1 q p @ (u @ [q]) @ e) \<subseteq> set (w @ p @ u @ e)" using q(1) set_remove1_subset[of q p] by auto
    then show ?thesis using q(2) R unfolding unused_def by blast
  qed
qed

lemma unused_apart:
  assumes "unused X b s" and i: "i \<in> X"
  shows "apart X i b s"
proof -
  obtain w p u e where inv: "vinv s w p u e" and R: "\<forall>q \<in> set (w @ p @ u @ e). descs q \<inter> X = {} \<and> q_b q \<noteq> b"
    using assms(1) unfolding unused_def by blast
  have tab: "vtab (vd s) (set (w @ p @ u @ e)) {}" and Q: "vqueues (vd s) w p u" using inv by (simp_all add: vinv_def)
  have "clear_of X i b (vq_desc (vd s)) h" if h: "h \<in> set (vq_dev_pending (vd s))" for h
  proof -
    obtain q where q: "q \<in> set p" "h = q_i0 q" using h Q by (auto simp: vqueues_def)
    have c: "vchain (vd s) q" "descs q \<subseteq> {..<NUM}" using tab q(1) unfolding vtab_def by auto
    have x: "q_i0 q \<notin> X" "q_i1 q \<notin> X" "q_i2 q \<notin> X" "q_b q \<noteq> b" using R q(1) by (auto simp: descs_def)
    have "unat (of_nat (q_i1 q) :: ushort) = q_i1 q" "unat (of_nat (q_i2 q) :: ushort) = q_i2 q"
      using c(2) by (auto simp: descs_def intro!: unat_small(1))
    moreover have "q_i0 q \<noteq> i" using x(1) i by auto
    ultimately show ?thesis using c(1) x by (simp add: clear_of_def Let_def q(2) vchain_def)
  qed
  moreover have "unat (vq_dev_seen (vd s)) mod NUM \<noteq> unat (vq_avail_idx (vd s)) mod NUM" if ne: "vq_dev_seen (vd s) \<noteq> vq_avail_idx (vd s)"
  proof
    let ?r = "vq_dev_seen (vd s)" and ?w = "vq_avail_idx (vd s)"
    assume eq: "unat ?r mod NUM = unat ?w mod NUM"
    have "length w = unat (?w - ?r)" using Q by (metis length_map length_ring_queue vqueues_def)
    moreover have "length w < 8" using free_count[OF inv] by simp
    ultimately have n: "unat (?w - ?r) < 8" by simp
    have "?w = ?r + of_nat (unat (?w - ?r))" by simp
    then have "unat ?w mod 8 = (unat ?r + unat (?w - ?r)) mod 8" using vring.unat_mod_add[of ?r "unat (?w - ?r)"] by simp
    then have "unat (?w - ?r) = 0" using mod_add_inj[of "unat ?r" 0 8 "unat (?w - ?r)"] eq n by simp
    then show False using ne by (simp add: unat_eq_0)
  qed
  ultimately show ?thesis unfolding apart_def by blast
qed

lemma interleaved_hidden:
  assumes "interleaved gs x t" and "x = stored fs s" and "unused X b s" and "i \<in> X" and "\<forall>f \<in> set (fs @ gs). hidden X i b f"
  shows "\<exists>u. device_step\<^sup>*\<^sup>* s u \<and> t = stored (fs @ gs) u"
  using assms
proof (induction arbitrary: fs s rule: interleaved.induct)
  case (next_store gs f x t)
  then show ?case using next_store.IH[of "fs @ [f]" s] by simp
next
  case (device x y gs t)
  have "apart X i b s" by (rule unused_apart[OF device.prems(2,3)])
  then obtain u where u: "device_step s u" "y = stored fs u"
    using hidden_stores[of fs X i b s] device.hyps(1) device.prems(1,4) by auto
  from device.IH[OF u(2) unused_step[OF device.prems(2) u(1)] device.prems(3,4)]
  show ?case using converse_rtranclp_into_rtranclp[of device_step s u, OF u(1)] by blast
qed auto


section \<open>Posting a request\<close>

definition set_free :: "bool list \<Rightarrow> vst \<Rightarrow> vst" where
  "set_free ff s = s\<lparr>vd := (vd s)\<lparr>vd_free := ff\<rparr>\<rparr>"

lemma hidden_free: "hidden X i b (set_free ff)"
proof (rule hiddenI)
  fix s h show "dev_complete h (set_free ff s) = map_option (set_free ff) (dev_complete h s)"
    by (auto simp: dev_complete_def set_free_def Let_def split: vaddr.split)
qed (simp_all add: set_free_def apart_def dev_fetch_def)

lemma alloc3_only_free: "alloc3_loop n idx s = Ret (0, js) t \<Longrightarrow> \<exists>ff. t = set_free ff s"
proof (induction n arbitrary: idx s)
  case 0
  then have "t = set_free (vd_free (vd s)) s" by (simp add: set_free_def)
  then show ?case by blast
next
  case (Suc n)
  show ?case
  proof (cases "List.find (\<lambda>i. vd_free (vd s) ! i) [0..<NUM]")
    case None
    then have "alloc_desc s = Ret (- 1) s" by (simp add: alloc_desc_def alloc_desc_loop_eq)
    then show ?thesis using Suc.prems by (cases "forK idx free_desc s") simp_all
  next
    case (Some i)
    then have "alloc_desc s = Ret (int i) (set_free ((vd_free (vd s))[i := False]) s)"
      by (simp add: alloc_desc_def alloc_desc_loop_eq set_free_def)
    then obtain ff where "t = set_free ff (set_free ((vd_free (vd s))[i := False]) s)" using Suc by force
    then show ?thesis by (auto simp: set_free_def)
  qed
qed

lemma submit_stores_eq:
  assumes "vsized (vd s)" "distinct [i0, i1, i2]" "{i0, i1, i2} \<subseteq> {..<NUM}"
  shows "vdisk_rw_submit b wt sector [i0, i1, i2] s = thenK (modK (stored (submit_stores i0 i1 i2 b sector wt)))
     (thenK (modK store_avail_idx) (thenK (wr VIRTIO_MMIO_QUEUE_NOTIFY 0) (vdisk_rw_wait b i0))) s"
proof -
  have l: "i0 < length (vd_ops (vd s))" "i0 < length (vd_info (vd s))" "i0 < length (vq_desc (vd s))" "i1 < length (vq_desc (vd s))"
    "i2 < length (vq_desc (vd s))" "i0 \<noteq> i1" "i0 \<noteq> i2" "i1 \<noteq> i2" using assms by (auto simp: vsized_def)
  have r: "(d :: virtq_desc)\<lparr>d_addr := a, d_len := n, d_flags := f, d_next := x\<rparr> = \<lparr>d_addr = a, d_len = n, d_flags = f, d_next = x\<rparr>"
    "(q :: virtio_blk_req)\<lparr>rq_type := y, rq_reserved := z, rq_sector := c\<rparr> = \<lparr>rq_type = y, rq_reserved = z, rq_sector = c\<rparr>"
    for d a n f x q y z c by simp_all
  have "store_avail_idx (stored (submit_stores i0 i1 i2 b sector wt) s) = s\<lparr>vk := upd_buf b (\<lambda>bp. bp\<lparr>b_disk := True\<rparr>) (vk s),
      vd := post_avail i0 b (format_descs i0 i1 i2 b sector wt (vd s))\<rparr>"
    using l by (simp add: submit_stores_def store_defs format_descs_def post_avail_def r)
  then show ?thesis by (simp add: vdisk_rw_submit_def liftV_def)
qed

text \<open>
  (C38) A request becomes visible to the device in one store.  Let \<open>virtio_disk_rw\<close> have taken three descriptors in any state
  the driver can reach.  Its code up to the notification is the sequence \<open>submit_stores\<close> of single stores, followed by the store to \<open>avail->idx\<close>;
  and however the device, which does not take the lock, runs between these stores, fetching and completing other requests, the
  state right before the store to \<open>avail->idx\<close> is one in which the device ran first and then all the stores were done.
\<close>

theorem submit_unseen_by_device:
  assumes dev: "\<forall>s t. dev s t \<longrightarrow> device_step s t" "vready s0" "vruns dev mmio (s0, []) tr (s, cs)"
    and ctx: "in_disk me (vk s)" and b: "b \<notin> q_b ` set cs" and al: "alloc3_desc s = Ret (0, [i0, i1, i2]) t"
  shows "vdisk_rw_submit b wt sector [i0, i1, i2] t = thenK (modK (stored (submit_stores i0 i1 i2 b sector wt)))
       (thenK (modK store_avail_idx) (thenK (wr VIRTIO_MMIO_QUEUE_NOTIFY 0) (vdisk_rw_wait b i0))) t \<and>
     (\<forall>v. interleaved (submit_stores i0 i1 i2 b sector wt) t v \<longrightarrow>
       (\<exists>u. device_step\<^sup>*\<^sup>* t u \<and> v = stored (submit_stores i0 i1 i2 b sector wt) u))"
proof -
  let ?X = "{i0, i1, i2}" and ?fs = "submit_stores i0 i1 i2 b sector wt"
  obtain w p u e where inv: "vinv s w p u e" and cs: "set cs = set (w @ p @ u @ e)" using vruns_inv[OF dev] by metis
  have tab0: "vtab (vd s) (set (w @ p @ u @ e)) (set [])" using inv by (simp add: vinv_def)
  have pr: "proc_locks_free (vk s)" "length (procs (vk s)) = NPROC" using ctx in_disk_locks by (simp_all add: in_disk_def)
  have tab: "vtab (vd t) (set (w @ p @ u @ e)) ?X" "distinct [i0, i1, i2]"
    using alloc3_loop_cases[OF tab0 _ pr, of 3] al by (auto simp: alloc3_desc_def)
  have X: "?X \<subseteq> {..<NUM}" "vsized (vd t)" using tab(1) by (simp_all add: vtab_def)
  have un: "unused ?X b s" using inv tab(1) b unfolding unused_def cs vtab_def by (intro exI conjI) auto
  obtain ff where t: "t = set_free ff s" using alloc3_only_free al unfolding alloc3_desc_def by blast
  have hid: "\<forall>f \<in> set ([set_free ff] @ ?fs). hidden ?X i0 b f" using hidden_free submit_stores_hidden by auto
  have "\<exists>u. device_step\<^sup>*\<^sup>* t u \<and> v = stored ?fs u" if il: "interleaved ?fs t v" for v
  proof -
    obtain r where r: "device_step\<^sup>*\<^sup>* s r" "v = stored ([set_free ff] @ ?fs) r"
      using interleaved_hidden[OF il _ un _ hid] t by auto
    from r(1) un have "device_step\<^sup>*\<^sup>* (set_free ff s) (set_free ff r)"
    proof (induction rule: converse_rtranclp_induct)
      case (step x y)
      have "device_step (set_free ff x) (set_free ff y)"
        using hidden_free[of ?X i0 b ff] unused_apart[OF step.prems, of i0] step.hyps(1) unfolding hidden_def by blast
      moreover have "device_step\<^sup>*\<^sup>* (set_free ff y) (set_free ff r)" by (rule step.IH[OF unused_step[OF step.prems step.hyps(1)]])
      ultimately show ?case by (rule converse_rtranclp_into_rtranclp)
    qed simp
    then show ?thesis using r(2) t by (intro exI[of _ "set_free ff r"]) simp
  qed
  then show ?thesis using submit_stores_eq[OF X(2) tab(2) X(1)] by blast
qed


lemma interleaved_at: "device_step (stored fs s) u \<Longrightarrow> interleaved (fs @ gs) s (stored gs u)"
proof (induction fs arbitrary: s)
  case Nil
  have "interleaved gs u (stored gs u)" for gs u by (induction gs arbitrary: u) (simp_all add: all_stored next_store)
  then show ?case using Nil by (auto intro: device)
qed (simp add: next_store)

lemma stored_rings:
  "vq_dev_seen (vd (stored (take n (submit_stores i0 i1 i2 b sector wt)) s)) = vq_dev_seen (vd s) \<and>
   vq_avail_idx (vd (stored (take n (submit_stores i0 i1 i2 b sector wt)) s)) = vq_avail_idx (vd s)"
proof -
  let ?ok = "\<lambda>f. \<forall>s. vq_dev_seen (vd (f s)) = vq_dev_seen (vd s) \<and> vq_avail_idx (vd (f s)) = vq_avail_idx (vd s)"
  have "?ok (stored fs)" if "\<forall>f \<in> set fs. ?ok f" for fs using that by (induction fs) simp_all
  moreover have "\<forall>f \<in> set (submit_stores i0 i1 i2 b sector wt). ?ok f" by (simp add: submit_stores_def store_defs)
  then have "\<forall>f \<in> set (take n (submit_stores i0 i1 i2 b sector wt)). ?ok f" using in_set_takeD by fast
  ultimately show ?thesis by blast
qed

theorem submit_unseen_by_device_witness:
  "\<exists>s0 s t q i0 i1 i2 u. vruns device_step test_mmio (s0, []) [Other, Call q, Other] (s, [q]) \<and> alloc3_desc s = Ret (0, [i0, i1, i2]) t \<and>
     vq_dev_seen (vd t) \<noteq> vq_avail_idx (vd t) \<and> device_step\<^sup>*\<^sup>* t u \<and>
     stored (drop 10 (submit_stores i0 i1 i2 1 8 True)) (dev_fetch (stored (take 10 (submit_stores i0 i1 i2 1 8 True)) t)) =
     stored (submit_stores i0 i1 i2 1 8 True) u"
proof -
  obtain s0 where s0: "virtio_disk_init test_mmio test_vst = Ret () s0" using test_boot(3) by blast
  have v: "vready s0" using hoareD[OF virtio_disk_init_vready test_boot(2) s0] .
  then obtain r q where r: "vruns device_step test_mmio (s0, []) [Other, Call q] (r, [q])" and inv: "vinv r [q] [] [] []" and q: "q_b q = 0"
    using test_run by blast
  let ?s = "r\<lparr>vk := (vk r)\<lparr>curproc := Some 0, held := [LDisk], procs := replicate NPROC zero_proc\<rparr>\<rparr>"
  have "vstep device_step test_mmio (r, [q]) Other (?s, [q])" by (rule other) (simp add: others_def)
  then have run: "vruns device_step test_mmio (s0, []) [Other, Call q, Other] (?s, [q])" using vruns.extend[OF r] by simp
  have inv': "vinv ?s [q] [] [] []" using inv by (simp add: vinv_def)
  have ctx: "in_disk 0 (vk ?s)" by (simp add: in_disk_def)
  obtain i0 i1 i2 t where al: "alloc3_desc ?s = Ret (0, [i0, i1, i2]) t"
    using vdisk_rw_alloc_cases[OF inv' _ _ ctx, of 1 True 8] q by auto
  let ?fs = "submit_stores i0 i1 i2 1 8 True"
  obtain ff where t: "t = set_free ff ?s" using alloc3_only_free al unfolding alloc3_desc_def by blast
  have ne: "vq_dev_seen (vd t) \<noteq> vq_avail_idx (vd t)"
  proof
    assume "vq_dev_seen (vd t) = vq_avail_idx (vd t)"
    then show False using inv t by (simp add: vinv_def vqueues_def ring_queue_def set_free_def)
  qed
  then have "device_step (stored (take 10 ?fs) t) (dev_fetch (stored (take 10 ?fs) t))" by (simp add: device_step_def stored_rings)
  from interleaved_at[OF this, of "drop 10 ?fs"]
  have il: "interleaved ?fs t (stored (drop 10 ?fs) (dev_fetch (stored (take 10 ?fs) t)))" by (simp only: append_take_drop_id)
  have "\<forall>w. interleaved ?fs t w \<longrightarrow> (\<exists>u. device_step\<^sup>*\<^sup>* t u \<and> w = stored ?fs u)"
    using submit_unseen_by_device[OF _ v run ctx _ al, of 1 True 8] q by simp
  with il obtain u where "device_step\<^sup>*\<^sup>* t u" "stored (drop 10 ?fs) (dev_fetch (stored (take 10 ?fs) t)) = stored ?fs u" by blast
  with run al ne show ?thesis by blast
qed

end
