(* ===== verification/Xv6_Fsops.thy ===== *)
theory Xv6_Fsops
  imports Xv6_Fs
begin

text \<open>
  The block layer of the file system inside a transaction (\<^verbatim>\<open>kernel/fs.c\<close>, the part on super block and
  bitmap).  \<open>fs_inv H s\<close> is the state between two operations on blocks while the buffers \<open>H\<close> are held,
  \<open>fsame s t\<close> that nothing but buffers, the in-memory log header and the inode table differs, and \<open>room\<close>
  that the log has space.  Reading and writing a block, \<open>balloc\<close> and \<open>bfree\<close> are described by their effect on
  the view of the disk.
\<close>

section \<open>Working on blocks in a transaction\<close>

definition fs_inv :: "(nat \<rightharpoonup> uint) \<Rightarrow> kstate \<Rightarrow> bool" where
  "fs_inv H s \<longleftrightarrow> log_ok (logs s) \<and> blk_inv H (set (logged (logs s))) s \<and> LLog \<notin> set (held s) \<and>
     clean_log (logs s) (disk s)"

definition fs_rest :: "kstate \<Rightarrow> kstate" where
  "fs_rest s = (log_rest s)\<lparr>itable := []\<rparr>"

definition fsame :: "kstate \<Rightarrow> kstate \<Rightarrow> bool" where
  "fsame s t \<longleftrightarrow> fs_rest t = fs_rest s \<and> disk t = disk s \<and> dwrites t = dwrites s"

definition room :: "uint set \<Rightarrow> nat \<Rightarrow> kstate \<Rightarrow> bool" where
  "room B n s \<longleftrightarrow> lg_outstanding (logs s) \<ge> 1 \<and> int (card (set (logged (logs s)) \<union> B) + n) < lg_size (logs s) - 1"

lemma fs_inv_log: "fs_inv Map.empty s \<longleftrightarrow> log_inv s"
  by (simp add: fs_inv_def log_inv_def)

lemma fsame_refl [simp]: "fsame s s"
  by (simp add: fsame_def)

lemma fsame_trans [trans]: "fsame s t \<Longrightarrow> fsame t u \<Longrightarrow> fsame s u"
  by (simp add: fsame_def)

lemma fs_rest_fields:
  assumes "fs_rest t = fs_rest s"
  shows "sb t = sb s" "held t = held s" "mem t = mem s" "curproc t = curproc s"
    "lg_start (logs t) = lg_start (logs s)" "lg_size (logs t) = lg_size (logs s)"
    "lg_outstanding (logs t) = lg_outstanding (logs s)" "log_area (logs t) = log_area (logs s)"
proof -
  have l: "(logs t)\<lparr>lh_n := 0, lh_block := []\<rparr> = (logs s)\<lparr>lh_n := 0, lh_block := []\<rparr>"
    using arg_cong[OF assms, of logs] by (simp add: fs_rest_def log_rest_def)
  show "sb t = sb s" "held t = held s" "mem t = mem s" "curproc t = curproc s"
    using arg_cong[OF assms, of sb] arg_cong[OF assms, of held] arg_cong[OF assms, of mem] arg_cong[OF assms, of curproc]
    by (simp_all add: fs_rest_def log_rest_def)
  show "lg_start (logs t) = lg_start (logs s)" "lg_size (logs t) = lg_size (logs s)"
    "lg_outstanding (logs t) = lg_outstanding (logs s)"
    using arg_cong[OF l, of lg_start] arg_cong[OF l, of lg_size] arg_cong[OF l, of lg_outstanding] by simp_all
  then show "log_area (logs t) = log_area (logs s)" by (simp add: log_area_def)
qed

lemma fsame_fields:
  assumes "fsame s t"
  shows "sb t = sb s" "held t = held s" "mem t = mem s" "curproc t = curproc s"
    "lg_start (logs t) = lg_start (logs s)" "lg_size (logs t) = lg_size (logs s)"
    "lg_outstanding (logs t) = lg_outstanding (logs s)" "log_area (logs t) = log_area (logs s)"
    "disk t = disk s" "dwrites t = dwrites s"
  using assms fs_rest_fields[of t s] by (simp_all add: fsame_def)

lemma bio_rest_same: "bio_rest t = bio_rest s \<Longrightarrow> disk t = disk s \<Longrightarrow> dwrites t = dwrites s \<Longrightarrow> fsame s t"
  using bio_rest_fields(10)[of t s] by (simp add: fsame_def fs_rest_def log_rest_def)

text \<open>The inode table is not part of any of this.\<close>

lemma itable_frame [simp]:
  "calm (s\<lparr>itable := x\<rparr>) = calm s" "mypid (s\<lparr>itable := x\<rparr>) = mypid s" "bcache_inv (s\<lparr>itable := x\<rparr>) = bcache_inv s"
  by (simp_all add: calm_def mypid_def bcache_inv_def lru_def caches_def split: option.split)

lemma fs_inv_itable [simp]: "fs_inv H (s\<lparr>itable := x\<rparr>) = fs_inv H s"
  by (simp add: fs_inv_def blk_inv_def bio_inv_def pinned_blocks_def)

lemma view_itable [simp]: "view (s\<lparr>itable := x\<rparr>) = view s"
  by (rule view_transfer) simp_all

lemma fsame_itable [simp]: "fsame s (t\<lparr>itable := x\<rparr>) = fsame s t" "fsame (s\<lparr>itable := x\<rparr>) t = fsame s t"
  by (simp_all add: fsame_def fs_rest_def log_rest_def bio_rest_def)

lemma room_itable [simp]: "room B n (s\<lparr>itable := x\<rparr>) = room B n s"
  by (simp add: room_def)


text \<open>Reading, changing and releasing a block.\<close>

lemma fs_inv_len: "fs_inv H s \<Longrightarrow> length (view s bn) = BSIZE"
  unfolding fs_inv_def by (elim conjE) (rule view_len_blk)

lemma fs_inv_calm: "fs_inv H s \<Longrightarrow> calm s"
  by (auto simp: fs_inv_def intro: blk_inv_calm)

lemma fs_inv_dev: "fs_inv H s \<Longrightarrow> lg_dev (logs s) = ROOTDEV"
  by (simp add: fs_inv_def log_okD)

lemma fs_dat: "fs_inv H s \<Longrightarrow> H b = Some bn \<Longrightarrow> b_data (bufs s ! b) = view s bn"
  unfolding fs_inv_def by (elim conjE) (rule bc.dat)

lemma fs_card: "fs_inv H s \<Longrightarrow> int (card (set (logged (logs s)))) = lh_n (logs s)"
  using card_logged[of "logs s"] log_okD(6)[of "logs s"] by (simp add: fs_inv_def)

lemma fs_card_lt: "fs_inv H s \<Longrightarrow> card (set (logged (logs s))) < NBUF"
  using card_logged[of "logs s"] log_okD(4,5)[of "logs s"] unfolding fs_inv_def by linarith

lemma room_card:
  assumes "fs_inv H s" and "room B n s"
  shows "lh_n (logs s) < lg_size (logs s) - 1" "Suc (card (set (logged (logs s)))) < NBUF" "lg_outstanding (logs s) \<ge> 1"
proof -
  have "card (set (logged (logs s))) \<le> card (set (logged (logs s)) \<union> B)" by (rule card_mono) simp_all
  then have c: "int (card (set (logged (logs s)))) < lg_size (logs s) - 1" using assms(2) by (simp add: room_def)
  then show "lh_n (logs s) < lg_size (logs s) - 1" using fs_card[OF assms(1)] by simp
  have "lg_size (logs s) \<le> int NBUF" using assms(1) by (simp add: fs_inv_def log_ok_def)
  then show "Suc (card (set (logged (logs s)))) < NBUF" using c by linarith
  show "lg_outstanding (logs s) \<ge> 1" using assms(2) by (simp add: room_def)
qed

lemma room_mono:
  assumes "fsame s t" and "room B n s" and "card (set (logged (logs t)) \<union> C) + k \<le> card (set (logged (logs s)) \<union> B) + n"
  shows "room C k t"
  using assms fsame_fields(6,7)[OF assms(1)] by (simp add: room_def)

lemma fs_rd:
  assumes inv: "fs_inv H s" and bn: "bn \<notin> ran H" and room: "card (dom H) + card (set (logged (logs s))) < NBUF"
  obtains b t where "bread ROOTDEV bn s = Ret b t" "H b = None" "fs_inv (H(b \<mapsto> bn)) t" "view t = view s" "fsame s t"
    "logs t = logs s" "itable t = itable s" "b_data (bufs t ! b) = view s bn"
    "bn \<in> set (logged (logs s)) \<or> view s bn = disk s bn"
proof -
  let ?Q = "set (logged (logs s))"
  have i: "blk_inv H ?Q s" using inv by (simp add: fs_inv_def)
  obtain b t where 1: "bread ROOTDEV bn s = Ret b t" "H b = None" "blk_inv (H(b \<mapsto> bn)) ?Q t" "view t = view s" "disk t = disk s"
    "dwrites t = dwrites s" "bio_rest t = bio_rest s" using bc.rd[OF i bn] room by blast
  note f = bio_rest_fields[OF 1(7)]
  have "fs_inv (H(b \<mapsto> bn)) t" using 1(3,5) inv f(1,10) by (simp add: fs_inv_def)
  moreover have "b_data (bufs t ! b) = view s bn" using bc.dat[OF 1(3), of b bn] 1(4) by simp
  moreover have "bn \<in> ?Q \<or> view s bn = disk s bn" using bc.vw_disk[OF i _ bn] by blast
  ultimately show thesis using that 1 f bio_rest_same[OF 1(7,5,6)] by blast
qed

lemma fs_rel:
  assumes inv: "fs_inv H s" and b: "H b = Some bn" and ok: "bn \<in> set (logged (logs s)) \<or> view s bn = disk s bn"
  obtains t where "brelse b s = Ret () t" "fs_inv (H(b := None)) t" "view t = view s" "fsame s t"
    "logs t = logs s" "itable t = itable s"
proof -
  have i: "blk_inv H (set (logged (logs s))) s" using inv by (simp add: fs_inv_def)
  obtain t where 1: "brelse b s = Ret () t" "blk_inv (H(b := None)) (set (logged (logs s))) t" "view t = view s" "disk t = disk s"
    "dwrites t = dwrites s" "bio_rest t = bio_rest s" using bc.rel[OF i b ok] by blast
  note f = bio_rest_fields[OF 1(6)]
  have "fs_inv (H(b := None)) t" using 1(2,4) inv f(1,10) by (simp add: fs_inv_def)
  then show thesis using that 1 f bio_rest_same[OF 1(6,4,5)] by blast
qed

lemma fs_put:
  assumes inv: "fs_inv H s" and b: "H b = Some bn" and d: "length d = BSIZE" and rm: "room B n s" and home: "bn \<notin> log_area (logs s)"
  obtains t where "log_write b (set_data b d s) = Ret () t" "fs_inv H t" "view t = (view s)(bn := d)" "fsame s t"
    "set (logged (logs t)) = insert bn (set (logged (logs s)))" "itable t = itable s"
proof -
  let ?Q = "set (logged (logs s))" and ?s = "set_data b d s"
  have i: "blk_inv H ?Q s" using inv by (simp add: fs_inv_def)
  have 1: "blk_inv H ?Q ?s" "view ?s = (view s)(bn := d)" "disk ?s = disk s" "dwrites ?s = dwrites s" "bio_rest ?s = bio_rest s"
    using set_data_blk[OF i b d] by auto
  note f = bio_rest_fields[OF 1(5)]
  obtain t where 2: "log_write b ?s = Ret () t" "log_ok (logs t)" "blk_inv H (set (logged (logs t))) t" "set (logged (logs t)) = insert bn ?Q"
    "view t = view ?s" "disk t = disk s" "dwrites t = dwrites s"
    "bio_rest t = (bio_rest s)\<lparr>logs := (logs s)\<lparr>lh_n := lh_n (logs t), lh_block := lh_block (logs t)\<rparr>\<rparr>"
    using log_write_spec[of ?s H b bn] inv 1 b home room_card[OF inv rm] unfolding f fs_inv_def by auto
  have l: "logs t = (logs s)\<lparr>lh_n := lh_n (logs t), lh_block := lh_block (logs t)\<rparr>" "held t = held s" "itable t = itable s"
    using arg_cong[OF 2(8), of logs] arg_cong[OF 2(8), of held] arg_cong[OF 2(8), of itable] by simp_all
  have st: "lg_start (logs t) = lg_start (logs s)" using arg_cong[OF l(1), of lg_start] by simp
  have "(logs t)\<lparr>lh_n := 0, lh_block := []\<rparr> = (logs s)\<lparr>lh_n := 0, lh_block := []\<rparr>" by (subst l(1)) simp
  then have "fsame s t" using 2(6-8) by (simp add: fsame_def fs_rest_def log_rest_def)
  moreover have "fs_inv H t" using 2(2,3,6) inv l(2) st by (simp add: fs_inv_def clean_log_def)
  ultimately show thesis using that[of t] 2(1,4,5) 1(2) l(3) by simp
qed

lemma fs_wb:
  assumes inv: "fs_inv H s" and b: "H b = Some bn" and d: "length d = BSIZE" and rm: "room B n s" and home: "bn \<notin> log_area (logs s)"
  obtains t u where "log_write b (set_data b d s) = Ret () t" "brelse b t = Ret () u" "fs_inv (H(b := None)) u"
    "view u = (view s)(bn := d)" "fsame s u" "set (logged (logs u)) = insert bn (set (logged (logs s)))" "itable u = itable s"
proof -
  obtain t where 1: "log_write b (set_data b d s) = Ret () t" "fs_inv H t" "view t = (view s)(bn := d)" "fsame s t"
    "set (logged (logs t)) = insert bn (set (logged (logs s)))" "itable t = itable s" using fs_put[OF assms] .
  obtain u where "brelse b t = Ret () u" "fs_inv (H(b := None)) u" "view u = view t" "fsame t u" "logs u = logs t" "itable u = itable t"
    using fs_rel[OF 1(2) b] 1(5) by auto
  then show thesis using that[of t u] 1 fsame_trans[of s t u] by simp
qed


section \<open>Layout and bitmap\<close>

text \<open>
  The layout \<^verbatim>\<open>mkfs/mkfs.c\<close> gives the disk: boot block, super block, log, inodes, bitmap, data; block numbers below
  \<open>size - nblocks\<close> are not data.  \<open>free_in\<close> reads the bitmap.
\<close>

definition meta :: "superblock \<Rightarrow> nat" where
  "meta sbp = unat (sb_size sbp) - unat (sb_nblocks sbp)"

definition layout :: "superblock \<Rightarrow> bool" where
  "layout sbp \<longleftrightarrow> 1 < unat (sb_logstart sbp) \<and> unat (sb_logstart sbp) + unat (sb_nlog sbp) \<le> unat (sb_inodestart sbp) \<and>
     unat (sb_inodestart sbp) + unat (sb_ninodes sbp) div IPB + 1 \<le> unat (sb_bmapstart sbp) \<and>
     unat (sb_bmapstart sbp) + unat (sb_size sbp) div BPB + 1 \<le> meta sbp"

definition free_in :: "superblock \<Rightarrow> (uint \<Rightarrow> bytes) \<Rightarrow> nat \<Rightarrow> bool" where
  "free_in sbp v n \<longleftrightarrow> bit_free (v (BBLOCK (of_nat n) sbp)) (n mod BPB)"

definition bmap_blocks :: "superblock \<Rightarrow> uint set" where
  "bmap_blocks sbp = (\<lambda>n. BBLOCK (of_nat n) sbp) ` {0..<unat (sb_size sbp)}"

definition fs_geo :: "kstate \<Rightarrow> bool" where
  "fs_geo s \<longleftrightarrow> layout (sb s) \<and> lg_start (logs s) = sb_logstart (sb s) \<and> lg_size (logs s) = int (unat (sb_nlog (sb s))) \<and>
     (\<forall>n<meta (sb s). \<not> free_in (sb s) (view s) n)"

lemma unat_lt32 [simp]: "unat (x :: uint) < 4294967296"
proof -
  have "unat x < 2 ^ LENGTH(32)" by (rule unsigned_less)
  then show ?thesis by simp
qed

lemma unat_of_nat32: "n < 4294967296 \<Longrightarrow> unat (of_nat n :: uint) = n"
  by (simp add: unat_of_nat take_bit_nat_eq_self)

lemma bit_free_iff: "bit_free d bi \<longleftrightarrow> \<not> bit (d ! (bi div 8)) (bi mod 8)"
  by (simp add: bit_free_def bit_mask_def push_bit_eq_mult and_exp_eq_0_iff_not_bit)

lemma length_bit_set [simp]: "length (bit_set bi d) = length d" "length (bit_clear bi d) = length d"
  by (simp_all add: bit_set_def bit_clear_def)

lemma bit_index_eq: "i div 8 = j div 8 \<Longrightarrow> i mod 8 = j mod 8 \<longleftrightarrow> i = (j :: nat)"
  by (metis div_mult_mod_eq)

lemma bit_mask_iff: "bit (bit_mask bi) k \<longleftrightarrow> k = bi mod 8"
proof -
  have "bi mod 8 < 8" by simp
  then show ?thesis by (auto simp: bit_mask_def push_bit_eq_mult bit_exp_iff possible_bit_word)
qed

lemma bit_free_set:
  assumes "bi < 8 * length d"
  shows "bit_free (bit_set bi d) bj \<longleftrightarrow> bit_free d bj \<and> bj \<noteq> bi"
proof (cases "bj div 8 = bi div 8")
  case True
  have "bi div 8 < length d" using assms by (simp add: less_mult_imp_div_less mult.commute)
  then show ?thesis using True bit_index_eq[OF True] by (auto simp: bit_free_iff bit_set_def bit_or_iff bit_mask_iff)
next
  case False
  then have "bj \<noteq> bi" by auto
  then show ?thesis using False by (simp add: bit_free_iff bit_set_def)
qed

lemma bit_free_clear:
  assumes "bi < 8 * length d"
  shows "bit_free (bit_clear bi d) bj \<longleftrightarrow> bit_free d bj \<or> bj = bi"
proof (cases "bj div 8 = bi div 8")
  case True
  have "bi div 8 < length d" using assms by (simp add: less_mult_imp_div_less mult.commute)
  moreover have "bj mod 8 < LENGTH(8)" by simp
  ultimately show ?thesis using True bit_index_eq[OF True]
    by (simp add: bit_free_iff bit_clear_def bit_and_iff bit_not_iff bit_mask_iff)
next
  case False
  then have "bj \<noteq> bi" by auto
  then show ?thesis using False by (simp add: bit_free_iff bit_clear_def)
qed

lemma layout_bmap:
  assumes "layout sbp" and "n < unat (sb_size sbp)"
  shows "unat (BBLOCK (of_nat n) sbp) = n div BPB + unat (sb_bmapstart sbp)"
    and "unat (BBLOCK (of_nat n) sbp) < meta sbp" and "unat (sb_inodestart sbp) < unat (BBLOCK (of_nat n) sbp)"
proof -
  have n: "n < 4294967296" using assms(2) unat_lt32[of "sb_size sbp"] by linarith
  have d: "n div 8192 \<le> unat (sb_size sbp) div 8192" using assms(2) by (intro div_le_mono) simp
  have m: "meta sbp < 4294967296" using unat_lt32[of "sb_size sbp"] by (simp add: meta_def less_imp_diff_less)
  have u: "unat (of_nat n div 8192 :: uint) = n div 8192" using n by (simp add: unat_div unat_of_nat32)
  have "n div 8192 + unat (sb_bmapstart sbp) < 4294967296" using assms(1) d m by (simp add: layout_def)
  then show e: "unat (BBLOCK (of_nat n) sbp) = n div BPB + unat (sb_bmapstart sbp)"
    using u by (simp add: BBLOCK_def unat_word_ariths)
  show "unat (BBLOCK (of_nat n) sbp) < meta sbp" "unat (sb_inodestart sbp) < unat (BBLOCK (of_nat n) sbp)"
    unfolding e using assms(1) d by (simp_all add: layout_def)
qed

lemma geo_log_area:
  assumes "fs_geo s" and "b \<in> log_area (logs s)"
  shows "unat b < unat (sb_inodestart (sb s))"
proof -
  obtain i where i: "b = sb_logstart (sb s) + of_nat i" "i < unat (sb_nlog (sb s))"
    using assms by (auto simp: log_area_def fs_geo_def)
  have l: "unat (sb_logstart (sb s)) + unat (sb_nlog (sb s)) \<le> unat (sb_inodestart (sb s))"
    using assms(1) by (simp add: fs_geo_def layout_def)
  have "i < 4294967296" using i(2) unat_lt32[of "sb_nlog (sb s)"] by linarith
  then have "unat (of_nat i :: uint) = i" by (rule unat_of_nat32)
  then have "unat b \<le> unat (sb_logstart (sb s)) + i" unfolding i(1) by (simp add: unat_word_ariths)
  then show ?thesis using i(2) l by linarith
qed

lemma BBLOCK_same:
  assumes "n div BPB = m div BPB" "n < 4294967296" "m < 4294967296"
  shows "BBLOCK (of_nat n) sbp = BBLOCK (of_nat m) sbp"
proof -
  have "unat (of_nat n div 8192 :: uint) = unat (of_nat m div 8192 :: uint)"
    using assms by (simp add: unat_div unat_of_nat32)
  then have "(of_nat n div 8192 :: uint) = of_nat m div 8192" by (rule iffD2[OF word_unat_eq_iff])
  then show ?thesis by (simp add: BBLOCK_def)
qed


section \<open>Allocating and freeing blocks\<close>

text \<open>The bitmap as a set of block numbers, and the view after block \<open>n\<close> is marked or cleared.\<close>

definition free_blocks :: "kstate \<Rightarrow> nat set" where
  "free_blocks s = {n. n < unat (sb_size (sb s)) \<and> free_in (sb s) (view s) n}"

definition allocated :: "superblock \<Rightarrow> nat \<Rightarrow> (uint \<Rightarrow> bytes) \<Rightarrow> uint \<Rightarrow> bytes" where
  "allocated sbp n v = (v(BBLOCK (of_nat n) sbp := bit_set (n mod BPB) (v (BBLOCK (of_nat n) sbp))))(of_nat n := replicate BSIZE 0)"

definition deallocated :: "superblock \<Rightarrow> nat \<Rightarrow> (uint \<Rightarrow> bytes) \<Rightarrow> uint \<Rightarrow> bytes" where
  "deallocated sbp n v = v(BBLOCK (of_nat n) sbp := bit_clear (n mod BPB) (v (BBLOCK (of_nat n) sbp)))"

lemma BBLOCK_eq_iff:
  assumes "layout sbp" "n < unat (sb_size sbp)" "m < unat (sb_size sbp)"
  shows "BBLOCK (of_nat n) sbp = BBLOCK (of_nat m) sbp \<longleftrightarrow> n div BPB = m div BPB"
  using layout_bmap(1)[OF assms(1,2)] layout_bmap(1)[OF assms(1,3)] by (auto simp: word_unat_eq_iff)

lemma bpb_index_eq: "n div BPB = m div BPB \<Longrightarrow> n mod BPB = m mod BPB \<longleftrightarrow> n = m"
  by (metis div_mult_mod_eq)

lemma free_in_set:
  assumes "layout sbp" "n < unat (sb_size sbp)" "m < unat (sb_size sbp)" "\<And>b. length (v b) = BSIZE"
  shows "free_in sbp (v(BBLOCK (of_nat n) sbp := bit_set (n mod BPB) (v (BBLOCK (of_nat n) sbp)))) m \<longleftrightarrow> free_in sbp v m \<and> m \<noteq> n"
    and "free_in sbp (deallocated sbp n v) m \<longleftrightarrow> free_in sbp v m \<or> m = n"
proof -
  have l: "n mod BPB < 8 * length (v (BBLOCK (of_nat n) sbp))" using assms(4) by simp
  note e = BBLOCK_eq_iff[OF assms(1-3)]
  show "free_in sbp (v(BBLOCK (of_nat n) sbp := bit_set (n mod BPB) (v (BBLOCK (of_nat n) sbp)))) m \<longleftrightarrow> free_in sbp v m \<and> m \<noteq> n"
    "free_in sbp (deallocated sbp n v) m \<longleftrightarrow> free_in sbp v m \<or> m = n"
    using e bpb_index_eq[of m n] bit_free_set[OF l, of "m mod BPB"] bit_free_clear[OF l, of "m mod BPB"]
    by (cases "n div BPB = m div BPB"; force simp: free_in_def deallocated_def)+
qed

lemma free_data:
  assumes geo: "fs_geo s" and n: "n \<in> free_blocks s"
  shows "meta (sb s) \<le> n" "n < unat (sb_size (sb s))" "unat (of_nat n :: uint) = n" "(of_nat n :: uint) \<notin> bmap_blocks (sb s)"
    "(of_nat n :: uint) \<notin> log_area (logs s)" "(of_nat n :: uint) \<noteq> 0"
proof -
  show sz: "n < unat (sb_size (sb s))" using n by (simp add: free_blocks_def)
  have fr: "free_in (sb s) (view s) n" using n by (simp add: free_blocks_def)
  have "\<forall>k<meta (sb s). \<not> free_in (sb s) (view s) k" and l: "layout (sb s)" using geo by (simp_all add: fs_geo_def)
  then show m: "meta (sb s) \<le> n" using fr linorder_not_less by blast
  show u: "unat (of_nat n :: uint) = n" using sz unat_lt32[of "sb_size (sb s)"] by (intro unat_of_nat32) linarith
  have ne: "(of_nat n :: uint) \<noteq> b" if "unat b < meta (sb s)" for b
  proof
    assume "(of_nat n :: uint) = b"
    then have "unat b = n" using u by simp
    then show False using that m by simp
  qed
  have "unat b < meta (sb s)" if "b \<in> bmap_blocks (sb s)" for b
    using that layout_bmap(2)[OF l] unfolding bmap_blocks_def by auto
  then show "(of_nat n :: uint) \<notin> bmap_blocks (sb s)" using ne by blast
  have i: "unat (sb_inodestart (sb s)) < meta (sb s)" "0 < meta (sb s)" using l by (simp_all add: layout_def)
  have "unat b < meta (sb s)" if "b \<in> log_area (logs s)" for b using geo_log_area[OF geo that] i by linarith
  then show "(of_nat n :: uint) \<notin> log_area (logs s)" using ne by blast
  show "(of_nat n :: uint) \<noteq> 0" using ne[of 0] i(2) by simp
qed

lemma bmap_home:
  assumes "fs_geo s" and "n < unat (sb_size (sb s))"
  shows "BBLOCK (of_nat n) (sb s) \<notin> log_area (logs s)" "BBLOCK (of_nat n) (sb s) \<in> bmap_blocks (sb s)"
  using layout_bmap(3)[of "sb s" n] geo_log_area[OF assms(1), of "BBLOCK (of_nat n) (sb s)"] assms
  by (auto simp: fs_geo_def bmap_blocks_def)


lemma bzero_spec:
  assumes inv: "fs_inv H s" and bn: "bn \<notin> ran H" "bn \<notin> log_area (logs s)" and H: "card (dom H) \<le> 1" and rm: "room B n s"
  obtains t where "bzero ROOTDEV bn s = Ret () t" "fs_inv H t" "view t = (view s)(bn := replicate BSIZE 0)" "fsame s t"
    "set (logged (logs t)) = insert bn (set (logged (logs s)))" "itable t = itable s"
proof -
  have c: "card (dom H) + card (set (logged (logs s))) < NBUF" using room_card(2)[OF inv rm] H by linarith
  obtain b t1 where 1: "bread ROOTDEV bn s = Ret b t1" "H b = None" "fs_inv (H(b \<mapsto> bn)) t1" "view t1 = view s" "fsame s t1"
    "logs t1 = logs s" "itable t1 = itable s" "b_data (bufs t1 ! b) = view s bn"
    "bn \<in> set (logged (logs s)) \<or> view s bn = disk s bn" using fs_rd[OF inv bn(1) c] .
  have rm1: "room B n t1" by (rule room_mono[OF 1(5) rm]) (simp add: 1(6))
  have z: "length (replicate BSIZE 0 :: bytes) = BSIZE" "bn \<notin> log_area (logs t1)" using bn(2) 1(6) by simp_all
  obtain t2 t3 where 2: "log_write b (set_data b (replicate BSIZE 0) t1) = Ret () t2" "brelse b t2 = Ret () t3"
    "fs_inv (H(b \<mapsto> bn, b := None)) t3" "view t3 = (view t1)(bn := replicate BSIZE 0)" "fsame t1 t3"
    "set (logged (logs t3)) = insert bn (set (logged (logs t1)))" "itable t3 = itable t1"
    using fs_wb[OF 1(3) fun_upd_same z(1) rm1 z(2)] .
  have H': "H(b \<mapsto> bn, b := None) = H" using 1(2) by (simp add: fun_upd_idem)
  have "bzero ROOTDEV bn s = Ret () t3" using 1(1) 2(1,2) by (simp add: bzero_def upd_data_def)
  then show thesis using that[of t3] 2 1 H' fsame_trans[OF 1(5) 2(5)] by simp
qed

text \<open>One round of the outer loop of \<open>balloc\<close> looks at the bits of one bitmap block.\<close>

lemma bitmap_round:
  assumes "j * BPB < sz" "sz = unat (sb_size sbp)" "bi < min BPB (sz - j * BPB)"
  shows "j * BPB + bi < sz" "BBLOCK (of_nat (j * BPB + bi)) sbp = BBLOCK (of_nat (j * BPB)) sbp" "(j * BPB + bi) mod BPB = bi"
    "free_in sbp v (j * BPB + bi) \<longleftrightarrow> bit_free (v (BBLOCK (of_nat (j * BPB)) sbp)) bi"
proof -
  show lt: "j * BPB + bi < sz" using assms(1,3) by linarith
  have "sz < 4294967296" using assms(2) by simp
  then show e: "BBLOCK (of_nat (j * BPB + bi)) sbp = BBLOCK (of_nat (j * BPB)) sbp"
    using lt assms(3) by (intro BBLOCK_same) (simp, linarith+)
  show m: "(j * BPB + bi) mod BPB = bi" using assms by simp
  show "free_in sbp v (j * BPB + bi) \<longleftrightarrow> bit_free (v (BBLOCK (of_nat (j * BPB)) sbp)) bi"
    by (simp only: free_in_def e m)
qed

lemma balloc_found:
  assumes inv: "fs_inv H s" and geo: "fs_geo s" and H: "card (dom H) \<le> 1" "ran H \<inter> bmap_blocks (sb s) = {}"
    and rm: "room B k s" and B: "bmap_blocks (sb s) \<subseteq> B" and n: "n \<in> free_blocks s" "of_nat n \<notin> ran H"
    and rd: "H b = None" "fs_inv (H(b \<mapsto> BBLOCK (of_nat n) (sb s))) t1" "view t1 = view s" "fsame s t1"
      "logs t1 = logs s" "itable t1 = itable s"
  obtains t where "thenK (upd_data b (bit_set (n mod BPB))) (thenK (log_write b) (thenK (brelse b)
      (thenK (bzero ROOTDEV (of_nat n)) (retK (of_nat n :: uint))))) t1 = Ret (of_nat n) t" "fs_inv H t"
    "view t = allocated (sb s) n (view s)" "fsame s t" "itable t = itable s"
    "set (logged (logs t)) = {BBLOCK (of_nat n) (sb s), of_nat n} \<union> set (logged (logs s))"
proof -
  let ?bb = "BBLOCK (of_nat n) (sb s)" and ?d = "bit_set (n mod BPB) (view s (BBLOCK (of_nat n) (sb s)))"
  note fd = free_data[OF geo n(1)] and home = bmap_home[OF geo free_data(2)[OF geo n(1)]]
  have rm1: "room B k t1" by (rule room_mono[OF rd(4) rm]) (simp add: rd(5))
  have dat: "b_data (bufs t1 ! b) = view s ?bb"
    using fs_dat[OF rd(2), of b ?bb] rd(3) by simp
  have dl: "length ?d = BSIZE" using fs_inv_len[OF inv] by simp
  have hm: "?bb \<notin> log_area (logs t1)" using home(1) rd(5) by simp
  obtain t2 t3 where 2: "log_write b (set_data b ?d t1) = Ret () t2" "brelse b t2 = Ret () t3"
    "fs_inv (H(b \<mapsto> ?bb, b := None)) t3" "view t3 = (view t1)(?bb := ?d)" "fsame t1 t3"
    "set (logged (logs t3)) = insert ?bb (set (logged (logs t1)))" "itable t3 = itable t1"
    using fs_wb[OF rd(2) fun_upd_same dl rm1 hm] .
  have H': "H(b \<mapsto> ?bb, b := None) = H" using rd(1) by (simp add: fun_upd_idem)
  have s3: "fsame s t3" by (rule fsame_trans[OF rd(4) 2(5)])
  have eq: "set (logged (logs t3)) \<union> B = set (logged (logs s)) \<union> B" using 2(6) rd(5) home(2) B by auto
  have rm3: "room B k t3" by (rule room_mono[OF s3 rm]) (simp add: eq)
  have inv3: "fs_inv H t3" using 2(3) H' by simp
  have la3: "of_nat n \<notin> log_area (logs t3)" using fd(5) fsame_fields(8)[OF s3] by simp
  obtain t4 where 4: "bzero ROOTDEV (of_nat n) t3 = Ret () t4" "fs_inv H t4" "view t4 = (view t3)(of_nat n := replicate BSIZE 0)" "fsame t3 t4"
    "set (logged (logs t4)) = insert (of_nat n) (set (logged (logs t3)))" "itable t4 = itable t3"
    using bzero_spec[OF inv3 n(2) la3 H(1) rm3] .
  show thesis
  proof (rule that[of t4])
    show "thenK (upd_data b (bit_set (n mod BPB))) (thenK (log_write b) (thenK (brelse b)
      (thenK (bzero ROOTDEV (of_nat n)) (retK (of_nat n :: uint))))) t1 = Ret (of_nat n) t4"
      using 2(1,2) 4(1) dat by (simp add: upd_data_def)
    show "view t4 = allocated (sb s) n (view s)" using 4(3) 2(4) rd(3) by (simp add: allocated_def)
    show "set (logged (logs t4)) = {?bb, of_nat n} \<union> set (logged (logs s))" using 4(5) 2(6) rd(5) by auto
  qed (use 4(2,6) 2(7) rd(6) fsame_trans[OF s3 4(4)] in simp_all)
qed


text \<open>
  \<open>unchanged H s t\<close>: \<open>t\<close> differs from \<open>s\<close> only in which blocks are cached.  \<open>alloc_res\<close> is the outcome of a search for
  a free block: the least one, marked and zeroed, or the message that there is none.
\<close>

definition unchanged :: "(nat \<rightharpoonup> uint) \<Rightarrow> kstate \<Rightarrow> kstate \<Rightarrow> bool" where
  "unchanged H s t \<longleftrightarrow> fs_inv H t \<and> view t = view s \<and> fsame s t \<and> logs t = logs s \<and> itable t = itable s"

definition alloc_res :: "(nat \<rightharpoonup> uint) \<Rightarrow> kstate \<Rightarrow> (nat, kstate, uint) outcome \<Rightarrow> bool" where
  "alloc_res H s r \<longleftrightarrow>
     (if free_blocks s = {} then \<exists>t. unchanged H s t \<and> r = thenK (printf ''balloc: out of blocks\<newline>'' []) (retK 0) t
      else \<exists>t. r = Ret (of_nat (Min (free_blocks s))) t \<and> fs_inv H t \<and> view t = allocated (sb s) (Min (free_blocks s)) (view s) \<and>
        fsame s t \<and> itable t = itable s \<and>
        set (logged (logs t)) = {BBLOCK (of_nat (Min (free_blocks s))) (sb s), of_nat (Min (free_blocks s))} \<union> set (logged (logs s)))"

lemma unchanged_trans: "unchanged H s t \<Longrightarrow> unchanged H' t u \<Longrightarrow> unchanged H' s u"
  using fsame_trans[of s t u] by (simp add: unchanged_def)

lemma unchanged_keeps:
  assumes "unchanged H s t"
  shows "fs_inv H t" "sb t = sb s" "free_blocks t = free_blocks s" "fs_geo t = fs_geo s" "room B k t = room B k s"
    "log_area (logs t) = log_area (logs s)"
proof -
  show 1: "fs_inv H t" using assms by (simp add: unchanged_def)
  have f: "fsame s t" and v: "view t = view s" "logs t = logs s" using assms by (simp_all add: unchanged_def)
  show 2: "sb t = sb s" by (rule fsame_fields(1)[OF f])
  show "free_blocks t = free_blocks s" "fs_geo t = fs_geo s" "room B k t = room B k s" "log_area (logs t) = log_area (logs s)"
    using 2 v by (simp_all add: free_blocks_def fs_geo_def room_def)
qed

lemma alloc_res_unchanged:
  assumes "unchanged H s t" and "alloc_res H t r"
  shows "alloc_res H s r"
proof -
  note k = unchanged_keeps[OF assms(1)]
  have e: "view t = view s" "logs t = logs s" "itable t = itable s" "fsame s t" using assms(1) by (simp_all add: unchanged_def)
  show ?thesis
    using assms(2) unchanged_trans[OF assms(1)] fsame_trans[OF e(4)] unfolding alloc_res_def k(2,3) e(1-3) by (auto split: if_splits)
qed

lemma finite_free_blocks [simp]: "finite (free_blocks s)"
  by (simp add: free_blocks_def)

lemma Min_first:
  assumes "n \<in> free_blocks s" "\<And>k. k < n \<Longrightarrow> k \<notin> free_blocks s"
  shows "Min (free_blocks s) = n"
  using assms by (intro Min_eqI) (auto simp: not_less[symmetric])

lemma balloc_round:
  assumes inv: "fs_inv H s" and geo: "fs_geo s" and H: "card (dom H) \<le> 1" "ran H \<inter> bmap_blocks (sb s) = {}"
    "\<And>n. n \<in> free_blocks s \<Longrightarrow> of_nat n \<notin> ran H"
    and rm: "room B k s" and B: "bmap_blocks (sb s) \<subseteq> B" and j: "j * BPB < unat (sb_size (sb s))"
    and low: "\<And>n. n < j * BPB \<Longrightarrow> n \<notin> free_blocks s"
    and rest: "\<And>t. unchanged H s t \<Longrightarrow> (\<And>n. n < Suc j * BPB \<Longrightarrow> n \<notin> free_blocks t) \<Longrightarrow> alloc_res H t (balloc_loop ROOTDEV bs t)"
  shows "alloc_res H s (balloc_loop ROOTDEV (j * BPB # bs) s)"
proof -
  let ?b = "j * BPB" and ?bb = "BBLOCK (of_nat (j * BPB)) (sb s)" and ?m = "min BPB (unat (sb_size (sb s)) - j * BPB)"
  have c: "card (dom H) + card (set (logged (logs s))) < NBUF" using room_card(2)[OF inv rm] H(1) by linarith
  have hb: "?bb \<notin> ran H" using bmap_home(2)[OF geo j] H(2) by blast
  obtain b t1 where 1: "bread ROOTDEV ?bb s = Ret b t1" "H b = None" "fs_inv (H(b \<mapsto> ?bb)) t1" "view t1 = view s" "fsame s t1"
    "logs t1 = logs s" "itable t1 = itable s" "b_data (bufs t1 ! b) = view s ?bb"
    "?bb \<in> set (logged (logs s)) \<or> view s ?bb = disk s ?bb" using fs_rd[OF inv hb c] .
  note rd = bitmap_round[OF j refl]
  show ?thesis
  proof (cases "List.find (bit_free (view s ?bb)) [0..<?m]")
    case (Some bi)
    let ?n = "?b + bi"
    have bi: "bi < ?m" "bit_free (view s ?bb) bi" "\<forall>i<bi. \<not> bit_free (view s ?bb) i" using find_upt_Some[OF Some] by simp_all
    note r = rd[OF bi(1)]
    have n: "?n \<in> free_blocks s" using r(1,4) bi(2) by (simp add: free_blocks_def)
    have "k \<notin> free_blocks s" if "k < ?n" for k
    proof (cases "k < ?b")
      case False
      then have k: "k = ?b + (k - ?b)" "k - ?b < bi" using that by simp_all
      then have "k - ?b < ?m" using bi(1) by linarith
      from rd(4)[OF this, of "view s"] show ?thesis using k bi(3) by (simp add: free_blocks_def)
    qed (rule low)
    then have mn: "Min (free_blocks s) = ?n" by (rule Min_first[OF n])
    have i1: "fs_inv (H(b \<mapsto> BBLOCK (of_nat ?n) (sb s))) t1" using 1(3) r(2) by simp
    obtain t where t: "thenK (upd_data b (bit_set (?n mod BPB))) (thenK (log_write b) (thenK (brelse b)
      (thenK (bzero ROOTDEV (of_nat ?n)) (retK (of_nat ?n :: uint))))) t1 = Ret (of_nat ?n) t" "fs_inv H t"
      "view t = allocated (sb s) ?n (view s)" "fsame s t" "itable t = itable s"
      "set (logged (logs t)) = {BBLOCK (of_nat ?n) (sb s), of_nat ?n} \<union> set (logged (logs s))"
      using balloc_found[OF inv geo H(1,2) rm B n H(3)[OF n] 1(2) i1 1(4-7)] .
    have "balloc_loop ROOTDEV (?b # bs) s = Ret (of_nat ?n) t"
      using 1(1,8) Some t(1) unfolding r(3) by (simp only: balloc_loop.simps bindK_apply getK_apply bindO.simps bdata_def option.case)
    then show ?thesis using n t(2-6) unfolding alloc_res_def mn by auto
  next
    case None
    have ok1: "?bb \<in> set (logged (logs t1)) \<or> view t1 ?bb = disk t1 ?bb" using 1(4,6,9) fsame_fields(9)[OF 1(5)] by simp
    obtain t2 where 2: "brelse b t1 = Ret () t2" "fs_inv (H(b \<mapsto> ?bb, b := None)) t2" "view t2 = view t1" "fsame t1 t2"
      "logs t2 = logs t1" "itable t2 = itable t1" using fs_rel[OF 1(3) fun_upd_same ok1] .
    have H': "H(b \<mapsto> ?bb, b := None) = H" using 1(2) by (simp add: fun_upd_idem)
    have u: "unchanged H s t2" using 2 1 H' fsame_trans[OF 1(5) 2(4)] by (simp add: unchanged_def)
    have none: "n \<notin> free_blocks t2" if "n < Suc j * BPB" for n
    proof (cases "n < ?b \<or> unat (sb_size (sb s)) \<le> n")
      case False
      then have "n = ?b + (n - ?b)" "n - ?b < ?m" using that by auto
      then show ?thesis using rd(4)[of "n - ?b" "view s"] None[unfolded find_upt_None] unchanged_keeps(3)[OF u]
        by (simp add: free_blocks_def)
    qed (use low unchanged_keeps(3)[OF u] in \<open>auto simp: free_blocks_def\<close>)
    have "balloc_loop ROOTDEV (?b # bs) s = balloc_loop ROOTDEV bs t2"
      using 1(1,8) None 2(1) by (simp only: balloc_loop.simps bindK_apply thenK_apply getK_apply bindO.simps bdata_def option.case)
    then show ?thesis using alloc_res_unchanged[OF u rest[OF u none]] by simp
  qed
qed


lemma balloc_loop_spec:
  assumes "fs_inv H s" "fs_geo s" and H: "card (dom H) \<le> 1" "ran H \<inter> bmap_blocks (sb s) = {}"
    "\<And>n. n \<in> free_blocks s \<Longrightarrow> of_nat n \<notin> ran H"
    and "room B k s" "bmap_blocks (sb s) \<subseteq> B" and m: "m = (unat (sb_size (sb s)) + BPB - 1) div BPB" and "j \<le> m"
    and "\<And>n. n < j * BPB \<Longrightarrow> n \<notin> free_blocks s"
  shows "alloc_res H s (balloc_loop ROOTDEV (map (\<lambda>k. k * BPB) [j..<m]) s)"
  using assms
proof (induction "m - j" arbitrary: j s)
  case 0
  have "unat (sb_size (sb s)) \<le> j * BPB"
    using "0.hyps" "0.prems"(8,9) dividend_less_times_div[of BPB "unat (sb_size (sb s)) + BPB - 1"] by simp
  then have "free_blocks s = {}" using "0.prems"(10) by (auto simp: free_blocks_def)
  moreover have "unchanged H s s" using "0.prems"(1) by (simp add: unchanged_def)
  ultimately show ?case using "0.hyps" by (auto simp: alloc_res_def)
next
  case (Suc d)
  then have jm: "j < m" "d = m - Suc j" by simp_all
  then have e: "map (\<lambda>k. k * BPB) [j..<m] = j * BPB # map (\<lambda>k. k * BPB) [Suc j..<m]" by (simp add: upt_conv_Cons)
  have "m * BPB \<le> unat (sb_size (sb s)) + BPB - 1" unfolding Suc.prems(8) by (rule div_times_less_eq_dividend)
  then have lt: "j * BPB < unat (sb_size (sb s))" using jm(1) by simp
  show ?case unfolding e
  proof (rule balloc_round[OF Suc.prems(1-7) lt Suc.prems(10)])
    fix t assume u: "unchanged H s t" and none: "\<And>n. n < Suc j * BPB \<Longrightarrow> n \<notin> free_blocks t"
    note k = unchanged_keeps[OF u]
    show "alloc_res H t (balloc_loop ROOTDEV (map (\<lambda>k. k * BPB) [Suc j..<m]) t)"
      by (rule Suc.hyps(1)[OF jm(2) k(1) _ Suc.prems(3) _ _ _ _ _ _ none])
        (use Suc.prems(2,4-8) jm in \<open>simp_all only: k, simp_all\<close>)
  qed
qed

lemma balloc_spec:
  assumes "fs_inv H s" "fs_geo s" "card (dom H) \<le> 1" "ran H \<inter> bmap_blocks (sb s) = {}"
    "\<And>n. n \<in> free_blocks s \<Longrightarrow> of_nat n \<notin> ran H" "room B k s" "bmap_blocks (sb s) \<subseteq> B"
  shows "alloc_res H s (balloc ROOTDEV s)"
  using balloc_loop_spec[OF assms refl le0] by (simp add: balloc_def)

text \<open>What the changed views mean for the set of free blocks.\<close>

lemma allocated_free:
  assumes geo: "fs_geo s" and len: "\<And>b. length (view s b) = BSIZE" and n: "n \<in> free_blocks s"
    and t: "sb t = sb s" "view t = allocated (sb s) n (view s)"
  shows "free_blocks t = free_blocks s - {n}"
proof -
  have l: "layout (sb s)" using geo by (simp add: fs_geo_def)
  note fd = free_data[OF geo n]
  have "free_in (sb s) (view t) m \<longleftrightarrow> free_in (sb s) (view s) m \<and> m \<noteq> n" if m: "m < unat (sb_size (sb s))" for m
  proof -
    have "BBLOCK (of_nat m) (sb s) \<noteq> of_nat n" using bmap_home(2)[OF geo m] fd(4) by metis
    then show ?thesis using free_in_set(1)[OF l fd(2) m, where v = "view s"] len
      by (simp add: free_in_def t(2) allocated_def)
  qed
  then show ?thesis by (auto simp: free_blocks_def t(1))
qed

lemma geo_mono:
  assumes "fs_geo s" "fsame s t" "\<And>n. n < meta (sb s) \<Longrightarrow> free_in (sb s) (view t) n \<Longrightarrow> free_in (sb s) (view s) n"
  shows "fs_geo t"
  using assms fsame_fields[OF assms(2)] by (auto simp: fs_geo_def)

lemma meta_size: "meta sbp \<le> unat (sb_size sbp)"
  by (simp add: meta_def)

lemma free_in_blocks: "n < unat (sb_size (sb s)) \<Longrightarrow> free_in (sb s) (view s) n \<longleftrightarrow> n \<in> free_blocks s"
  by (simp add: free_blocks_def)

lemma bfree_used:
  assumes inv: "fs_inv Map.empty s" and geo: "fs_geo s" and rm: "room B k s"
    and n: "meta (sb s) \<le> n" "n < unat (sb_size (sb s))" "n \<notin> free_blocks s"
  obtains t where "bfree ROOTDEV (of_nat n) s = Ret () t" "fs_inv Map.empty t" "view t = deallocated (sb s) n (view s)" "fsame s t"
    "itable t = itable s" "set (logged (logs t)) = insert (BBLOCK (of_nat n) (sb s)) (set (logged (logs s)))"
proof -
  let ?bb = "BBLOCK (of_nat n) (sb s)" and ?d = "bit_clear (n mod BPB) (view s (BBLOCK (of_nat n) (sb s)))"
  have n32: "unat (of_nat n :: uint) = n" using n(2) unat_lt32[of "sb_size (sb s)"] by (intro unat_of_nat32) linarith
  then have bi: "unat (of_nat n mod of_nat BPB :: uint) = n mod BPB" by (simp add: unat_mod)
  have c: "card (dom (Map.empty :: nat \<rightharpoonup> uint)) + card (set (logged (logs s))) < NBUF" using room_card(2)[OF inv rm] by simp
  have e: "?bb \<notin> ran (Map.empty :: nat \<rightharpoonup> uint)" by simp
  obtain b t1 where 1: "bread ROOTDEV ?bb s = Ret b t1" "Map.empty b = (None :: uint option)" "fs_inv (Map.empty(b \<mapsto> ?bb)) t1" "view t1 = view s"
    "fsame s t1" "logs t1 = logs s" "itable t1 = itable s" "b_data (bufs t1 ! b) = view s ?bb"
    "?bb \<in> set (logged (logs s)) \<or> view s ?bb = disk s ?bb" using fs_rd[OF inv e c] .
  have rm1: "room B k t1" by (rule room_mono[OF 1(5) rm]) (simp add: 1(6))
  have d: "length ?d = BSIZE" using fs_inv_len[OF inv] by simp
  have hm: "?bb \<notin> log_area (logs t1)" using bmap_home(1)[OF geo n(2)] 1(6) by simp
  obtain t2 t3 where 2: "log_write b (set_data b ?d t1) = Ret () t2" "brelse b t2 = Ret () t3"
    "fs_inv (Map.empty(b \<mapsto> ?bb, b := None)) t3" "view t3 = (view t1)(?bb := ?d)" "fsame t1 t3"
    "set (logged (logs t3)) = insert ?bb (set (logged (logs t1)))" "itable t3 = itable t1"
    using fs_wb[OF 1(3) fun_upd_same d rm1 hm] .
  have used: "\<not> bit_free (view s ?bb) (n mod BPB)" using n(2,3) by (simp add: free_blocks_def free_in_def)
  have r: "bfree ROOTDEV (of_nat n) s = Ret () t3"
    using 1(1,8) 2(1,2) used by (simp add: bfree_def Let_def bi[simplified] bdata_def upd_data_def)
  show thesis
    by (rule that[OF r]) (use 2(3-7) 1(4,6,7) fsame_trans[OF 1(5) 2(5)] in \<open>simp_all add: deallocated_def\<close>)
qed


section \<open>Properties\<close>

lemma balloc_full:
  assumes "fs_inv Map.empty s" "fs_geo s" "room (bmap_blocks (sb s)) 0 s" "free_blocks s = {}"
  shows "\<exists>t. unchanged Map.empty s t \<and> balloc ROOTDEV s = thenK (printf ''balloc: out of blocks\<newline>'' []) (retK 0) t"
  using balloc_spec[OF assms(1,2) _ _ _ assms(3) order_refl] assms(4) by (simp add: alloc_res_def)

text \<open>A disk with the layout of \<^verbatim>\<open>mkfs\<close>, 2000 blocks of which the first 47 are in use, and one operation begun.\<close>

definition test_sb :: superblock where
  "test_sb = \<lparr>sb_magic = FSMAGIC, sb_size = 2000, sb_nblocks = 1954, sb_ninodes = 200, sb_nlog = 30, sb_logstart = 2,
     sb_inodestart = 32, sb_bmapstart = 45\<rparr>"

definition test_bitmap :: bytes where
  "test_bitmap = replicate 5 255 @ 127 # replicate 1018 0"

lemma sb_frame [simp]:
  "calm (s\<lparr>sb := x\<rparr>) = calm s" "mypid (s\<lparr>sb := x\<rparr>) = mypid s" "bcache_inv (s\<lparr>sb := x\<rparr>) = bcache_inv s"
  by (simp_all add: calm_def mypid_def bcache_inv_def lru_def caches_def split: option.split)

lemma test_bitmap_used: "n < 47 \<Longrightarrow> \<not> bit_free test_bitmap n"
proof -
  assume "n < 47"
  moreover have "list_all (\<lambda>n. \<not> bit_free test_bitmap n) [0..<47]" by code_simp
  ultimately show ?thesis by (simp add: list_all_iff del: upt_rec_numeral)
qed

lemma test_bitmap_free: "bit_free test_bitmap 47"
  by code_simp

lemma test_BBLOCK: "n < 2000 \<Longrightarrow> BBLOCK (of_nat n) test_sb = 45"
  using BBLOCK_same[of n 0 test_sb] by (simp add: BBLOCK_def test_sb_def)

lemma test_fs:
  "\<exists>s. fs_inv Map.empty s \<and> fs_geo s \<and> room (bmap_blocks (sb s)) 0 s \<and> sb s = test_sb \<and> Min (free_blocks s) = 47 \<and>
     47 \<in> free_blocks s \<and> 46 \<notin> free_blocks s \<and> view s 47 = zero_disk 47"
proof -
  let ?d = "zero_disk(45 := test_bitmap)"
  have "length (?d bn) = BSIZE" for bn by (simp add: zero_disk_def test_bitmap_def)
  moreover have "length (lh_block test_log) = LOGSIZE" by (simp add: test_log_def)
  ultimately obtain s0 where s0: "blk_inv Map.empty {} s0" "disk s0 = ?d" "logs s0 = test_log" "held s0 = []"
    using fresh_cache[of ?d test_log] by blast
  let ?s = "s0\<lparr>sb := test_sb\<rparr>"
  have b: "blk_inv Map.empty {} ?s" using s0(1) by (simp add: blk_inv_def bio_inv_def pinned_blocks_def)
  have lg: "log_ok test_log" "logged test_log = []" by (simp_all add: log_ok_def logged_def test_log_def)
  have "clean_log test_log ?d"
    by (simp add: clean_log_def header_n_def zero_disk_def get32_def slice_def test_log_def)
  then have inv: "fs_inv Map.empty ?s" using b s0 lg by (simp add: fs_inv_def)
  have v: "view ?s = ?d" using bc.vw_disk[OF b] s0(2) by auto
  have sz: "unat (sb_size test_sb) = 2000" "meta test_sb = 46" by (simp_all add: meta_def test_sb_def)
  have fr: "n \<in> free_blocks ?s \<longleftrightarrow> n < 2000 \<and> bit_free test_bitmap n" for n
    using test_BBLOCK[of n] by (auto simp: free_blocks_def free_in_def v sz(1))
  have used: "n \<notin> free_blocks ?s" if "n < 47" for n using test_bitmap_used[OF that] by (simp add: fr)
  have f47: "47 \<in> free_blocks ?s" using test_bitmap_free by (simp add: fr)
  have "\<not> free_in test_sb (view ?s) n" if "n < 46" for n
    using used[of n] that sz(1) by (simp add: free_blocks_def)
  then have geo: "fs_geo ?s" using s0(3) sz(2) by (simp add: fs_geo_def layout_def) (simp add: test_log_def test_sb_def)
  have "bmap_blocks test_sb \<subseteq> {45}" using test_BBLOCK by (auto simp: bmap_blocks_def sz(1))
  then have "card (bmap_blocks test_sb) \<le> 1" using card_mono[of "{45 :: uint}"] by simp
  then have "room (bmap_blocks test_sb) 0 ?s" using s0(3) lg(2) by (simp add: room_def) (simp add: test_log_def)
  moreover have "Min (free_blocks ?s) = 47" by (rule Min_first[OF f47 used])
  ultimately show ?thesis using inv geo f47 used[of 46] v by (intro exI[of _ ?s]) simp
qed

text \<open>
  (C11) Inside a transaction with log space, \<open>balloc\<close> on a file system with a free block returns the least free block, which is a
  data block.  It is then in use and all zero, no other block changes but the bitmap, the bitmap changes in that bit only,
  and nothing has reached the disk yet.
\<close>

theorem balloc_takes_least:
  assumes "fs_inv Map.empty s" "fs_geo s" "room (bmap_blocks (sb s)) 0 s" "free_blocks s \<noteq> {}"
  shows "\<exists>n t. n = Min (free_blocks s) \<and> balloc ROOTDEV s = Ret (of_nat n) t \<and> meta (sb s) \<le> n \<and>
     free_blocks t = free_blocks s - {n} \<and> view t (of_nat n) = replicate BSIZE 0 \<and>
     (\<forall>b. b \<noteq> of_nat n \<and> b \<notin> bmap_blocks (sb s) \<longrightarrow> view t b = view s b) \<and>
     disk t = disk s \<and> fs_inv Map.empty t \<and> fs_geo t"
proof -
  let ?n = "Min (free_blocks s)"
  have n: "?n \<in> free_blocks s" using assms(4) by (intro Min_in) simp_all
  note fd = free_data[OF assms(2) n]
  obtain t where t: "balloc ROOTDEV s = Ret (of_nat ?n) t" "fs_inv Map.empty t" "view t = allocated (sb s) ?n (view s)" "fsame s t"
    using balloc_spec[OF assms(1,2) _ _ _ assms(3) order_refl] assms(4) by (auto simp: alloc_res_def)
  have sbt: "sb t = sb s" by (rule fsame_fields(1)[OF t(4)])
  have fr: "free_blocks t = free_blocks s - {?n}" by (rule allocated_free[OF assms(2) fs_inv_len[OF assms(1)] n sbt t(3)])
  have "fs_geo t"
  proof (rule geo_mono[OF assms(2) t(4)])
    fix m assume m: "m < meta (sb s)" "free_in (sb s) (view t) m"
    then have "m < unat (sb_size (sb s))" using meta_size[of "sb s"] by linarith
    then show "free_in (sb s) (view s) m" using m(2) fr free_in_blocks[of m s] free_in_blocks[of m t] sbt by auto
  qed
  moreover have "view t b = view s b" if "b \<noteq> of_nat ?n" "b \<notin> bmap_blocks (sb s)" for b
  proof -
    have "b \<noteq> BBLOCK (of_nat ?n) (sb s)" using that(2) bmap_home(2)[OF assms(2) fd(2)] by metis
    then show ?thesis using that(1) by (simp add: t(3) allocated_def)
  qed
  moreover have "view t (of_nat ?n) = replicate BSIZE 0" by (simp add: t(3) allocated_def)
  ultimately show ?thesis using t(1,2) fr fd(1) fsame_fields(9)[OF t(4)] by (intro exI[of _ ?n] exI[of _ t]) simp
qed

theorem balloc_takes_least_witness:
  "\<exists>s t. fs_inv Map.empty s \<and> fs_geo s \<and> room (bmap_blocks (sb s)) 0 s \<and> 47 \<in> free_blocks s \<and>
     balloc ROOTDEV s = Ret 47 t \<and> free_blocks t = free_blocks s - {47} \<and> view t 47 = replicate BSIZE 0"
proof -
  obtain s where s: "fs_inv Map.empty s" "fs_geo s" "room (bmap_blocks (sb s)) 0 s" "Min (free_blocks s) = 47" "47 \<in> free_blocks s"
    using test_fs by metis
  then have "free_blocks s \<noteq> {}" by blast
  from balloc_takes_least[OF s(1-3) this] obtain t where
    "balloc ROOTDEV s = Ret (of_nat 47) t" "free_blocks t = free_blocks s - {47}" "view t (of_nat 47) = replicate BSIZE 0"
    unfolding s(4) by blast
  then show ?thesis using s(1,2,3,5) by (intro exI[of _ s] exI[of _ t]) simp
qed


lemma bfree_free:
  assumes inv: "fs_inv Map.empty s" and geo: "fs_geo s" and n: "n \<in> free_blocks s"
  shows "bfree ROOTDEV (of_nat n) s = Panic ''freeing free block''"
proof -
  let ?bb = "BBLOCK (of_nat n) (sb s)"
  have bi: "unat (of_nat n mod of_nat BPB :: uint) = n mod BPB" using free_data(3)[OF geo n] by (simp add: unat_mod)
  have c: "card (dom (Map.empty :: nat \<rightharpoonup> uint)) + card (set (logged (logs s))) < NBUF" using fs_card_lt[OF inv] by simp
  have e: "?bb \<notin> ran (Map.empty :: nat \<rightharpoonup> uint)" by simp
  obtain b t1 where 1: "bread ROOTDEV ?bb s = Ret b t1" "Map.empty b = (None :: uint option)" "fs_inv (Map.empty(b \<mapsto> ?bb)) t1" "view t1 = view s"
    "fsame s t1" "logs t1 = logs s" "itable t1 = itable s" "b_data (bufs t1 ! b) = view s ?bb"
    "?bb \<in> set (logged (logs s)) \<or> view s ?bb = disk s ?bb" using fs_rd[OF inv e c] .
  have "bit_free (view s ?bb) (n mod BPB)" using n by (simp add: free_blocks_def free_in_def)
  then show ?thesis using 1(1,8) by (simp add: bfree_def Let_def bi[simplified] bdata_def)
qed

text \<open>
  (C12) Inside a transaction with log space, \<open>bfree\<close> on a data block that is in use returns it to the free blocks and changes nothing else
  but its bit in the bitmap; freeing a block that is free already panics.
\<close>

theorem bfree_exact:
  assumes "fs_inv Map.empty s" "fs_geo s" "room (bmap_blocks (sb s)) 0 s" "meta (sb s) \<le> n" "n < unat (sb_size (sb s))"
  shows "if n \<in> free_blocks s then bfree ROOTDEV (of_nat n) s = Panic ''freeing free block''
     else \<exists>t. bfree ROOTDEV (of_nat n) s = Ret () t \<and> free_blocks t = insert n (free_blocks s) \<and>
       (\<forall>b. b \<notin> bmap_blocks (sb s) \<longrightarrow> view t b = view s b) \<and> disk t = disk s \<and> fs_inv Map.empty t \<and> fs_geo t"
proof (cases "n \<in> free_blocks s")
  case True
  then show ?thesis using bfree_free[OF assms(1,2)] by simp
next
  case False
  obtain t where t: "bfree ROOTDEV (of_nat n) s = Ret () t" "fs_inv Map.empty t" "view t = deallocated (sb s) n (view s)" "fsame s t"
    "itable t = itable s" "set (logged (logs t)) = insert (BBLOCK (of_nat n) (sb s)) (set (logged (logs s)))"
    using bfree_used[OF assms(1-5) False] .
  have l: "layout (sb s)" using assms(2) by (simp add: fs_geo_def)
  have fi: "free_in (sb s) (view t) m \<longleftrightarrow> free_in (sb s) (view s) m \<or> m = n" if "m < unat (sb_size (sb s))" for m
    unfolding t(3) by (rule free_in_set(2)[OF l assms(5) that fs_inv_len[OF assms(1)]])
  have "free_blocks t = insert n (free_blocks s)"
    using fi assms(5) fsame_fields(1)[OF t(4)] by (auto simp: free_blocks_def)
  moreover have "fs_geo t"
  proof (rule geo_mono[OF assms(2) t(4)])
    fix m assume m: "m < meta (sb s)" "free_in (sb s) (view t) m"
    then show "free_in (sb s) (view s) m" using fi[of m] meta_size[of "sb s"] assms(4) by auto
  qed
  moreover have "view t b = view s b" if "b \<notin> bmap_blocks (sb s)" for b
  proof -
    have "b \<noteq> BBLOCK (of_nat n) (sb s)" using that bmap_home(2)[OF assms(2,5)] by metis
    then show ?thesis by (simp add: t(3) deallocated_def)
  qed
  ultimately show ?thesis using False t(1,2) fsame_fields(9)[OF t(4)] by auto
qed

theorem bfree_exact_witness:
  "\<exists>s t. fs_inv Map.empty s \<and> fs_geo s \<and> room (bmap_blocks (sb s)) 0 s \<and> 46 \<notin> free_blocks s \<and>
     bfree ROOTDEV 46 s = Ret () t \<and> free_blocks t = insert 46 (free_blocks s) \<and> bfree ROOTDEV 47 s = Panic ''freeing free block''"
proof -
  obtain s where s: "fs_inv Map.empty s" "fs_geo s" "room (bmap_blocks (sb s)) 0 s" "sb s = test_sb" "47 \<in> free_blocks s" "46 \<notin> free_blocks s"
    using test_fs by metis
  have g: "meta (sb s) \<le> 46" "46 < unat (sb_size (sb s))" "meta (sb s) \<le> 47" "47 < unat (sb_size (sb s))"
    unfolding s(4) by (simp_all add: meta_def test_sb_def)
  obtain t where t: "bfree ROOTDEV (of_nat 46) s = Ret () t" "free_blocks t = insert 46 (free_blocks s)"
    using bfree_exact[OF s(1-3) g(1,2)] s(6) by auto
  moreover have "bfree ROOTDEV (of_nat 47) s = Panic ''freeing free block''"
    using bfree_exact[OF s(1-3) g(3,4)] s(5) by simp
  ultimately show ?thesis using s(1,2,3,6) by (intro exI[of _ s] exI[of _ t]) simp
qed


section \<open>Log space promised and log space there is\<close>

text \<open>
  Processes that work on the file system in turn: \<open>run_as p m\<close> is the next piece of kernel code, run by process \<open>p\<close>.
  Between two such pieces no buffer is held.
\<close>

definition run_as :: "nat \<Rightarrow> 'a kernel \<Rightarrow> 'a kernel" where
  "run_as p m = thenK (modK (\<lambda>s. s\<lparr>curproc := Some p\<rparr>)) m"

lemma curproc_frame [simp]:
  "bcache_inv (s\<lparr>curproc := p\<rparr>) = bcache_inv s" "pinned_blocks P (s\<lparr>curproc := p\<rparr>) = pinned_blocks P s"
  by (simp_all add: bcache_inv_def lru_def caches_def pinned_blocks_def)

lemma fs_inv_curproc:
  assumes "fs_inv Map.empty s" and "p < NPROC"
  shows "fs_inv Map.empty (s\<lparr>curproc := Some p\<rparr>)"
  using assms unfolding fs_inv_def blk_inv_def bio_inv_def calm_def by (auto simp: buf_ok_def)

lemma fs_inv_outstanding [simp]: "fs_inv H (s\<lparr>logs := (logs s)\<lparr>lg_outstanding := k\<rparr>\<rparr>) = fs_inv H s"
  by (simp add: fs_inv_def log_ok_def logged_def log_area_def clean_log_def)

lemma begin_op_admits:
  assumes "fs_inv Map.empty s" "p < NPROC" "\<not> lg_committing (logs s)"
    "lh_n (logs s) + (lg_outstanding (logs s) + 1) * int MAXOPBLOCKS \<le> int LOGSIZE"
  shows "\<exists>t. run_as p begin_op s = Ret () t \<and> fs_inv Map.empty t \<and>
     logs t = (logs s)\<lparr>lg_outstanding := lg_outstanding (logs s) + 1\<rparr>"
proof -
  let ?s = "s\<lparr>curproc := Some p\<rparr>"
  let ?t = "?s\<lparr>logs := (logs ?s)\<lparr>lg_outstanding := lg_outstanding (logs ?s) + 1\<rparr>\<rparr>"
  have inv: "fs_inv Map.empty ?s" by (rule fs_inv_curproc[OF assms(1,2)])
  have "LLog \<notin> set (held s)" using assms(1) by (simp add: fs_inv_def)
  then have "run_as p begin_op s = Ret () ?t"
    using assms(3,4) by (simp add: run_as_def begin_op_def begin_op_loop_def upd_log_def)
  moreover have "fs_inv Map.empty ?t" using inv by (simp only: fs_inv_outstanding)
  ultimately show ?thesis by (intro exI[of _ ?t]) simp
qed

lemma begin_ops_admitted:
  assumes "fs_inv Map.empty s" "set ps \<subseteq> {..<NPROC}" "\<not> lg_committing (logs s)"
    "lh_n (logs s) + (lg_outstanding (logs s) + int (length ps)) * int MAXOPBLOCKS \<le> int LOGSIZE"
  shows "\<exists>t. forK ps (\<lambda>p. run_as p begin_op) s = Ret () t \<and> fs_inv Map.empty t \<and>
     logs t = (logs s)\<lparr>lg_outstanding := lg_outstanding (logs s) + int (length ps)\<rparr>"
  using assms
proof (induction ps arbitrary: s)
  case (Cons p ps)
  obtain t where t: "run_as p begin_op s = Ret () t" "fs_inv Map.empty t"
    "logs t = (logs s)\<lparr>lg_outstanding := lg_outstanding (logs s) + 1\<rparr>"
    using begin_op_admits[OF Cons.prems(1), of p] Cons.prems(2-4) by auto
  obtain u where "forK ps (\<lambda>p. run_as p begin_op) t = Ret () u" "fs_inv Map.empty u"
    "logs u = (logs t)\<lparr>lg_outstanding := lg_outstanding (logs t) + int (length ps)\<rparr>"
    using Cons.IH[OF t(2)] Cons.prems(2-4) t(3) by auto
  then show ?case using t(1,3) by (intro exI[of _ u]) (simp add: add_ac)
qed (auto intro!: exI)

lemma bzero_run:
  assumes "fs_inv Map.empty s" "p < NPROC" "bn \<notin> log_area (logs s)" "room {} 0 s"
  shows "\<exists>t. run_as p (bzero ROOTDEV bn) s = Ret () t \<and> fs_inv Map.empty t \<and> lg_size (logs t) = lg_size (logs s) \<and>
     lg_outstanding (logs t) = lg_outstanding (logs s) \<and> log_area (logs t) = log_area (logs s) \<and>
     set (logged (logs t)) = insert bn (set (logged (logs s)))"
proof -
  let ?s = "s\<lparr>curproc := Some p\<rparr>"
  have inv: "fs_inv Map.empty ?s" by (rule fs_inv_curproc[OF assms(1,2)])
  have la: "bn \<notin> log_area (logs ?s)" "room {} 0 ?s" "bn \<notin> ran (Map.empty :: nat \<rightharpoonup> uint)" "card (dom (Map.empty :: nat \<rightharpoonup> uint)) \<le> 1"
    using assms(3,4) by (simp_all add: room_def)
  obtain t where "bzero ROOTDEV bn ?s = Ret () t" "fs_inv Map.empty t" "view t = (view ?s)(bn := replicate BSIZE 0)" "fsame ?s t"
    "set (logged (logs t)) = insert bn (set (logged (logs ?s)))" "itable t = itable ?s"
    using bzero_spec[OF inv la(3,1,4,2)] .
  then show ?thesis using fsame_fields(6,7,8)[of ?s t] by (intro exI[of _ t]) (simp add: run_as_def)
qed

lemma bzero_runs:
  assumes "fs_inv Map.empty s" "lg_outstanding (logs s) \<ge> 1" "fst ` set ws \<subseteq> {..<NPROC}" "distinct (map snd ws)"
    "snd ` set ws \<inter> (log_area (logs s) \<union> set (logged (logs s))) = {}" "lh_n (logs s) + int (length ws) < lg_size (logs s)"
  shows "\<exists>t. forK ws (\<lambda>(p, bn). run_as p (bzero ROOTDEV bn)) s = Ret () t \<and> fs_inv Map.empty t \<and>
     lg_size (logs t) = lg_size (logs s) \<and> lh_n (logs t) = lh_n (logs s) + int (length ws)"
  using assms
proof (induction ws arbitrary: s)
  case (Cons w ws)
  obtain p bn where w: "w = (p, bn)" by (cases w)
  note card = fs_card[OF Cons.prems(1)]
  have "room {} 0 s" using Cons.prems(2,6) card by (simp add: room_def)
  then obtain t where t: "run_as p (bzero ROOTDEV bn) s = Ret () t" "fs_inv Map.empty t" "lg_size (logs t) = lg_size (logs s)"
     "lg_outstanding (logs t) = lg_outstanding (logs s)" "log_area (logs t) = log_area (logs s)"
     "set (logged (logs t)) = insert bn (set (logged (logs s)))"
    using bzero_run[OF Cons.prems(1), of p bn] Cons.prems(3,5) w by auto
  have "bn \<notin> set (logged (logs s))" using Cons.prems(5) w by auto
  then have n: "lh_n (logs t) = lh_n (logs s) + 1" using fs_card[OF t(2)] card t(6) by simp
  obtain u where "forK ws (\<lambda>(p, bn). run_as p (bzero ROOTDEV bn)) t = Ret () u" "fs_inv Map.empty u"
     "lg_size (logs u) = lg_size (logs t)" "lh_n (logs u) = lh_n (logs t) + int (length ws)"
    using Cons.IH[OF t(2)] Cons.prems(2-6) w t(3-6) n by auto
  then show ?case using w t(1,3) n by (intro exI[of _ u]) simp
qed auto

lemma bzero_too_big:
  assumes "fs_inv Map.empty s" "p < NPROC" "lh_n (logs s) \<ge> lg_size (logs s) - 1"
  shows "run_as p (bzero ROOTDEV bn) s = Panic ''too big a transaction''"
proof -
  let ?s = "s\<lparr>curproc := Some p\<rparr>"
  have inv: "fs_inv Map.empty ?s" by (rule fs_inv_curproc[OF assms(1,2)])
  have c: "card (dom (Map.empty :: nat \<rightharpoonup> uint)) + card (set (logged (logs ?s))) < NBUF" using fs_card_lt[OF inv] by simp
  have e: "bn \<notin> ran (Map.empty :: nat \<rightharpoonup> uint)" by simp
  obtain b t1 where 1: "bread ROOTDEV bn ?s = Ret b t1" "Map.empty b = (None :: uint option)" "fs_inv (Map.empty(b \<mapsto> bn)) t1" "view t1 = view ?s"
    "fsame ?s t1" "logs t1 = logs ?s" "itable t1 = itable ?s" "b_data (bufs t1 ! b) = view ?s bn"
    "bn \<in> set (logged (logs ?s)) \<or> view ?s bn = disk ?s bn" using fs_rd[OF inv e c] .
  have "LLog \<notin> set (held t1)" using 1(3) by (simp add: fs_inv_def)
  then have "log_write b (set_data b (replicate BSIZE 0) t1) = Panic ''too big a transaction''"
    using assms(3) 1(6) by (simp add: log_write_def set_data_def upd_buf_def)
  then show ?thesis using 1(1) by (simp add: run_as_def bzero_def upd_data_def)
qed


text \<open>
  (C35) The reservation is one block short.  On an idle log of \<open>LOGSIZE\<close> blocks, the size \<open>mkfs\<close> makes, \<open>begin_op\<close> lets three processes
  start an operation each.  If each of them then writes \<open>MAXOPBLOCKS\<close> blocks, as many as it was promised, all of them
  different and in any order, the first 29 of the 30 \<open>log_write\<close>s return and the last one panics: one block of the log is
  its header.  The writes are calls of \<open>bzero\<close>.
\<close>

theorem log_reservation_short:
  assumes inv: "log_inv s" and idle: "lg_outstanding (logs s) = 0" "\<not> lg_committing (logs s)" "lh_n (logs s) = 0"
    and size: "lg_size (logs s) = int LOGSIZE"
    and ps: "distinct ps" "length ps = 3" "set ps \<subseteq> {..<NPROC}"
    and ws: "fst ` set ws \<subseteq> set ps" "\<forall>p \<in> set ps. count_list (map fst ws) p = MAXOPBLOCKS"
      "distinct (map snd ws)" "snd ` set ws \<inter> log_area (logs s) = {}"
  shows "\<exists>t. thenK (forK ps (\<lambda>p. run_as p begin_op)) (forK (butlast ws) (\<lambda>(p, bn). run_as p (bzero ROOTDEV bn))) s = Ret () t \<and>
     run_as (fst (last ws)) (bzero ROOTDEV (snd (last ws))) t = Panic ''too big a transaction''"
proof -
  have "(\<Sum>p \<in> set ps. count_list (map fst ws) p) = length (map fst ws)" using ws(1) by (intro sum_count_set) auto
  then have len: "length ws = 30" using ws(2) distinct_card[OF ps(1)] ps(2) by simp
  then have ne: "ws \<noteq> []" by auto
  have "set (butlast ws) \<subseteq> set ws" by (rule subsetI) (rule in_set_butlastD)
  then have b: "fst ` set (butlast ws) \<subseteq> {..<NPROC}" "snd ` set (butlast ws) \<inter> log_area (logs s) = {}"
    using ws(1,4) ps(3) by blast+
  have d: "distinct (map snd (butlast ws))" using distinct_butlast[OF ws(3)] by (simp add: map_butlast)
  obtain t where t: "forK ps (\<lambda>p. run_as p begin_op) s = Ret () t" "fs_inv Map.empty t"
    "logs t = (logs s)\<lparr>lg_outstanding := lg_outstanding (logs s) + int (length ps)\<rparr>"
    using begin_ops_admitted[of s ps] inv idle ps(2,3) by (auto simp: fs_inv_log)
  have lt: "lg_outstanding (logs t) = 3" "lh_n (logs t) = 0" "lg_size (logs t) = 30" "log_area (logs t) = log_area (logs s)" "logged (logs t) = []"
    using t(3) idle size ps(2) by (simp_all add: log_area_def logged_def)
  obtain u where u: "forK (butlast ws) (\<lambda>(p, bn). run_as p (bzero ROOTDEV bn)) t = Ret () u" "fs_inv Map.empty u"
    "lg_size (logs u) = lg_size (logs t)" "lh_n (logs u) = lh_n (logs t) + int (length (butlast ws))"
    using bzero_runs[OF t(2), of "butlast ws"] b d lt len by auto
  have "fst (last ws) < NPROC" using last_in_set[OF ne] ws(1) ps(3) by (meson image_eqI lessThan_iff subset_iff)
  then have "run_as (fst (last ws)) (bzero ROOTDEV (snd (last ws))) u = Panic ''too big a transaction''"
    by (rule bzero_too_big[OF u(2)]) (use u(3,4) lt len in simp)
  then show ?thesis using t(1) u(1) by (intro exI[of _ u]) simp
qed

theorem log_reservation_short_witness:
  "let ws = map (\<lambda>i. (i mod 3, of_nat (50 + i))) [0..<30] in
   \<exists>s t. log_inv s \<and> lg_size (logs s) = int LOGSIZE \<and>
     thenK (forK [0, 1, 2] (\<lambda>p. run_as p begin_op)) (forK (butlast ws) (\<lambda>(p, bn). run_as p (bzero ROOTDEV bn))) s = Ret () t \<and>
     run_as (fst (last ws)) (bzero ROOTDEV (snd (last ws))) t = Panic ''too big a transaction''"
proof -
  let ?l = "test_log\<lparr>lg_outstanding := 0\<rparr>" and ?ws = "map (\<lambda>i. (i mod 3, of_nat (50 + i) :: uint)) [0..<30]"
  have "length (lh_block ?l) = LOGSIZE" by (simp add: test_log_def)
  moreover have "length (zero_disk bn) = BSIZE" for bn by (simp add: zero_disk_def)
  ultimately obtain s where s: "blk_inv Map.empty {} s" "disk s = zero_disk" "logs s = ?l" "held s = []"
    using fresh_cache[of zero_disk ?l] by blast
  have lg: "log_ok ?l" "logged ?l = []" by (simp_all add: log_ok_def logged_def test_log_def)
  have "clean_log ?l zero_disk" by (simp add: clean_log_def header_n_def zero_disk_def get32_def slice_def test_log_def)
  then have inv: "log_inv s" using s lg by (simp add: log_inv_def)
  have st: "lg_outstanding (logs s) = 0" "\<not> lg_committing (logs s)" "lh_n (logs s) = 0" "lg_size (logs s) = int LOGSIZE"
    using s(3) by (simp_all add: test_log_def)
  have "log_area (logs s) = log_area test_log" using s(3) by (simp add: log_area_def)
  moreover have "(of_nat (50 + i) :: uint) \<notin> {2..31}" if "i < 30" for i
    using that by (simp add: word_le_nat_alt unat_word_ariths unat_of_nat take_bit_nat_eq_self)
  ultimately have la: "snd ` set ?ws \<inter> log_area (logs s) = {}" unfolding test_log_area by fastforce
  have ps: "distinct [0, 1, 2 :: nat]" "length [0, 1, 2 :: nat] = 3" "set [0, 1, 2 :: nat] \<subseteq> {..<NPROC}" by simp_all
  have "i mod 3 \<in> set [0, 1, 2]" for i :: nat by simp linarith
  then have ws1: "fst ` set ?ws \<subseteq> set [0, 1, 2]" by (simp only: set_map image_image fst_conv image_subset_iff) blast
  have "list_all (\<lambda>p. count_list (map fst (map (\<lambda>i. (i mod 3, 50 + i)) [0..<30 :: nat])) p = 10) [0, 1, 2 :: nat]" by code_simp
  then have ws2: "\<forall>p \<in> set [0, 1, 2]. count_list (map fst ?ws) p = MAXOPBLOCKS" by (simp only: list_all_iff map_map comp_def fst_conv MAXOPBLOCKS_def)
  have "inj_on (\<lambda>i. of_nat (50 + i) :: uint) {0..<30}" by (rule inj_onI) (simp add: of_nat_inj32)
  then have ws3: "distinct (map snd ?ws)" by (simp only: map_map comp_def snd_conv distinct_map set_upt distinct_upt simp_thms)
  show ?thesis unfolding Let_def
    using log_reservation_short[OF inv st ps ws1 ws2 ws3 la] inv st(4) by blast
qed

end
