(* ===== verification/Xv6_Grep.thy ===== *)
theory Xv6_Grep
  imports Xv6_Prelude
begin

text \<open>
  \<^verbatim>\<open>user/grep.c\<close>: the regular expression matcher of Kernighan and Pike, and the loop that reads a file piece
  by piece and prints the matching lines.  A C string is the list of the characters before its nul.
\<close>

section \<open>The matcher\<close>

declare conj_cong [fundef_cong]

function (sequential) matchhere :: "string \<Rightarrow> string \<Rightarrow> bool"
  and matchstar :: "char \<Rightarrow> string \<Rightarrow> string \<Rightarrow> bool" where
  "matchhere [] tx = True"
| "matchhere (c # re) tx =
     (if re \<noteq> [] \<and> hd re = CHR ''*'' then matchstar c (tl re) tx
      else if c = CHR ''$'' \<and> re = [] then tx = []
      else tx \<noteq> [] \<and> (c = CHR ''.'' \<or> c = hd tx) \<and> matchhere re (tl tx))"
| "matchstar c re tx =
     (matchhere re tx \<or> (tx \<noteq> [] \<and> (hd tx = c \<or> c = CHR ''.'') \<and> matchstar c re (tl tx)))"
  by pat_completeness auto
termination
  by (relation "measures [\<lambda>x. case x of Inl (re, _) \<Rightarrow> 2 * length re | Inr (_, re, _) \<Rightarrow> 2 * length re + 1,
       \<lambda>x. case x of Inl (_, t) \<Rightarrow> length t | Inr (_, _, t) \<Rightarrow> length t]") (auto simp: neq_Nil_conv)

declare matchstar.simps [simp del]

fun match_from :: "string \<Rightarrow> string \<Rightarrow> bool" where
  "match_from re [] = matchhere re []"
| "match_from re (c # tx) = (matchhere re (c # tx) \<or> match_from re tx)"

definition match_re :: "string \<Rightarrow> string \<Rightarrow> bool" where
  "match_re re tx = (if re \<noteq> [] \<and> hd re = CHR ''^'' then matchhere (tl re) tx else match_from re tx)"

section \<open>Reading and printing\<close>

definition BUF :: nat where [simp]: "BUF = 1024"

text \<open>
  The inner loop: the output for the complete lines of the buffer, and what is left of it.  \<open>strchr\<close> looks for the
  newline up to the nul that ends the buffer or is part of the data.
\<close>

function grep_lines :: "string \<Rightarrow> string \<Rightarrow> string \<times> string" where
  "grep_lines pattern p =
     (if CHR 0x0A \<in> set (takeWhile (\<lambda>c. c \<noteq> CHR 0x00) p) then
        let l = takeWhile (\<lambda>c. c \<noteq> CHR 0x0A) p; r = drop (length l + 1) p; (out, rest) = grep_lines pattern r in
        ((if match_re pattern l then l @ [CHR 0x0A] else []) @ out, rest)
      else ([], p))"
  by pat_completeness auto
termination
  by (relation "measure (\<lambda>(_, p). length p)") (auto, metis diff_less empty_iff empty_set length_greater_0_conv takeWhile.simps(1) zero_less_Suc)

declare grep_lines.simps [simp del]

text \<open>
  \<open>read\<close> returns at most as many bytes as it is asked for, and at least one unless there are none left or none
  are asked for; the sizes of the short reads are the list \<open>ks\<close>.
\<close>

definition read_size :: "nat list \<Rightarrow> nat \<Rightarrow> string \<Rightarrow> nat" where
  "read_size ks sz input = min sz (min (length input) (case ks of [] \<Rightarrow> sz | k # _ \<Rightarrow> max 1 k))"

function grep_loop :: "string \<Rightarrow> nat list \<Rightarrow> string \<Rightarrow> string \<Rightarrow> string" where
  "grep_loop pattern ks input buf =
     (let n = read_size ks (BUF - length buf - 1) input in
      if n = 0 then []
      else let (out, rest) = grep_lines pattern (buf @ take n input) in
        out @ grep_loop pattern (tl ks) (drop n input) rest)"
  by pat_completeness auto
termination
  by (relation "measure (\<lambda>(_, _, input, _). length input)") (auto simp: read_size_def)

declare grep_loop.simps [simp del]

definition grep :: "string \<Rightarrow> nat list \<Rightarrow> string \<Rightarrow> string" where
  "grep pattern ks input = grep_loop pattern ks input []"

text \<open>
  \<open>main\<close>: what is written to which file descriptor, and the exit status.  The contents of the files that can be
  opened are the argument \<open>files\<close>.
\<close>

fun grep_files :: "(string \<Rightarrow> string option) \<Rightarrow> nat list \<Rightarrow> string \<Rightarrow> string list \<Rightarrow> (nat \<times> string) list \<times> int" where
  "grep_files files ks pattern [] = ([], 0)"
| "grep_files files ks pattern (f # fs) =
     (case files f of
        None \<Rightarrow> ([(1, ''grep: cannot open '' @ f @ [CHR 0x0A])], 1)
      | Some input \<Rightarrow> let (out, status) = grep_files files ks pattern fs in ((1, grep pattern ks input) # out, status))"

definition grep_main :: "(string \<Rightarrow> string option) \<Rightarrow> nat list \<Rightarrow> string \<Rightarrow> string list \<Rightarrow> (nat \<times> string) list \<times> int" where
  "grep_main files ks stdin argv =
     (if length argv \<le> 1 then ([(2, ''usage: grep pattern [file ...]'' @ [CHR 0x0A])], 1)
      else if length argv \<le> 2 then ([(1, grep (argv ! 1) ks stdin)], 0)
      else grep_files files ks (argv ! 1) (drop 2 argv))"

section \<open>What a pattern means\<close>

text \<open>A pattern is a sequence of items, each a set of strings; \<open>^\<close> and \<open>$\<close> tie the match to the ends of the line.\<close>

datatype item = One "char option" | Many "char option"

fun item_lang :: "item \<Rightarrow> string set" where
  "item_lang (One x) = {[d] | d. x = None \<or> x = Some d}"
| "item_lang (Many x) = {w. \<forall>d \<in> set w. x = None \<or> x = Some d}"

fun items_lang :: "item list \<Rightarrow> string set" where
  "items_lang [] = {[]}"
| "items_lang (i # is) = {u @ v | u v. u \<in> item_lang i \<and> v \<in> items_lang is}"

definition sym_of :: "char \<Rightarrow> char option" where
  "sym_of c = (if c = CHR ''.'' then None else Some c)"

fun items_of :: "string \<Rightarrow> item list \<times> bool" where
  "items_of [] = ([], False)"
| "items_of (c # re) =
     (if re \<noteq> [] \<and> hd re = CHR ''*'' then (let (is, e) = items_of (tl re) in (Many (sym_of c) # is, e))
      else if c = CHR ''$'' \<and> re = [] then ([], True)
      else (let (is, e) = items_of re in (One (sym_of c) # is, e)))"

definition prefix_matches :: "item list \<times> bool \<Rightarrow> string \<Rightarrow> bool" where
  "prefix_matches ie tx \<longleftrightarrow> (\<exists>u v. tx = u @ v \<and> u \<in> items_lang (fst ie) \<and> (snd ie \<longrightarrow> v = []))"

definition pattern_matches :: "string \<Rightarrow> string \<Rightarrow> bool" where
  "pattern_matches re tx \<longleftrightarrow>
     (if re \<noteq> [] \<and> hd re = CHR ''^'' then prefix_matches (items_of (tl re)) tx
      else (\<exists>u v. tx = u @ v \<and> prefix_matches (items_of re) v))"

lemma prefix_Cons: "prefix_matches (i # is, e) tx \<longleftrightarrow> (\<exists>w r. tx = w @ r \<and> w \<in> item_lang i \<and> prefix_matches (is, e) r)"
proof
  assume "prefix_matches (i # is, e) tx"
  then obtain w u v where "tx = w @ (u @ v)" "w \<in> item_lang i" "u \<in> items_lang is" "e \<longrightarrow> v = []"
    unfolding prefix_matches_def by force
  moreover from this(3,4) have "prefix_matches (is, e) (u @ v)" unfolding prefix_matches_def by auto
  ultimately show "\<exists>w r. tx = w @ r \<and> w \<in> item_lang i \<and> prefix_matches (is, e) r" by blast
next
  assume "\<exists>w r. tx = w @ r \<and> w \<in> item_lang i \<and> prefix_matches (is, e) r"
  then obtain w u v where "tx = (w @ u) @ v" "w \<in> item_lang i" "u \<in> items_lang is" "e \<longrightarrow> v = []"
    unfolding prefix_matches_def by auto
  moreover from this(2,3) have "w @ u \<in> items_lang (i # is)" by auto
  ultimately show "prefix_matches (i # is, e) tx" unfolding prefix_matches_def by (metis fst_conv snd_conv)
qed

lemma prefix_One:
  "prefix_matches (One x # is, e) tx \<longleftrightarrow> tx \<noteq> [] \<and> (x = None \<or> x = Some (hd tx)) \<and> prefix_matches (is, e) (tl tx)"
proof (cases tx)
  case (Cons a t)
  have "(\<exists>w r. a # t = w @ r \<and> w \<in> item_lang (One x) \<and> P r) \<longleftrightarrow> (x = None \<or> x = Some a) \<and> P t" for P
  proof
    show "(x = None \<or> x = Some a) \<and> P t" if "\<exists>w r. a # t = w @ r \<and> w \<in> item_lang (One x) \<and> P r" using that by auto
    show "\<exists>w r. a # t = w @ r \<and> w \<in> item_lang (One x) \<and> P r" if "(x = None \<or> x = Some a) \<and> P t"
      by (rule exI[of _ "[a]"], rule exI[of _ t]) (use that in auto)
  qed
  then show ?thesis unfolding Cons prefix_Cons by simp
qed (simp add: prefix_Cons)

lemma prefix_Many:
  "prefix_matches (Many x # is, e) tx \<longleftrightarrow> prefix_matches (is, e) tx \<or>
     (tx \<noteq> [] \<and> (x = None \<or> x = Some (hd tx)) \<and> prefix_matches (Many x # is, e) (tl tx))" (is "?l \<longleftrightarrow> ?r")
proof
  assume ?l
  then obtain w r where w: "tx = w @ r" "w \<in> item_lang (Many x)" "prefix_matches (is, e) r" by (auto simp only: prefix_Cons)
  show ?r
  proof (cases w)
    case (Cons d w')
    have "tl tx = w' @ r" "w' \<in> item_lang (Many x)" using w(1,2) Cons by auto
    then have "prefix_matches (Many x # is, e) (tl tx)" using w(3) by (auto simp only: prefix_Cons)
    then show ?thesis using w(1,2) Cons by auto
  qed (use w in simp)
next
  assume r: ?r
  show ?l
  proof (cases "prefix_matches (is, e) tx")
    case True
    moreover have "tx = [] @ tx" "[] \<in> item_lang (Many x)" by simp_all
    ultimately show ?l unfolding prefix_Cons by blast
  next
    case False
    then have a: "tx \<noteq> []" "x = None \<or> x = Some (hd tx)" "prefix_matches (Many x # is, e) (tl tx)" using r by simp_all
    from a(3) obtain w r where w: "tl tx = w @ r" "w \<in> item_lang (Many x)" "prefix_matches (is, e) r" by (auto simp only: prefix_Cons)
    have "tx = (hd tx # w) @ r" using a(1) w(1) by (cases tx) simp_all
    moreover have "hd tx # w \<in> item_lang (Many x)" using a(2) w(2) by auto
    ultimately show ?l using w(3) unfolding prefix_Cons by blast
  qed
qed

lemma matchhere_items:
  "matchhere re tx = prefix_matches (items_of re) tx"
  "matchstar c re tx = prefix_matches (Many (sym_of c) # fst (items_of re), snd (items_of re)) tx"
proof (induction re tx and c re tx rule: matchhere_matchstar.induct)
  case (1 tx)
  then show ?case by (auto simp: prefix_matches_def)
next
  case (2 c re tx)
  then show ?case
    by (auto simp: prefix_One sym_of_def split: prod.splits) (auto simp: prefix_matches_def)
next
  case (3 c re tx)
  then show ?case unfolding matchstar.simps[of c re tx]
    using prefix_Many[of "sym_of c" "fst (items_of re)" "snd (items_of re)" tx] by (auto simp: sym_of_def)
qed

lemma match_from_iff: "match_from re tx \<longleftrightarrow> (\<exists>u v. tx = u @ v \<and> prefix_matches (items_of re) v)"
proof (induction tx)
  case Nil
  then show ?case by (simp add: matchhere_items)
next
  case (Cons c tx)
  have "(\<exists>u v. c # tx = u @ v \<and> P v) \<longleftrightarrow> P (c # tx) \<or> (\<exists>u v. tx = u @ v \<and> P v)" for P
    by (metis append_Cons append_Nil list.sel(3) tl_append2)
  then show ?case using Cons by (simp add: matchhere_items)
qed

section \<open>Lines\<close>

definition unlines :: "string list \<Rightarrow> string" where
  "unlines ls = concat (map (\<lambda>l. l @ [CHR 0x0A]) ls)"

definition line_ok :: "string \<Rightarrow> bool" where
  "line_ok l \<longleftrightarrow> CHR 0x0A \<notin> set l \<and> CHR 0x00 \<notin> set l \<and> length l < BUF - 1"

lemma unlines_simps [simp]: "unlines [] = []" "unlines (l # ls) = l @ CHR 0x0A # unlines ls" "unlines (ls @ ms) = unlines ls @ unlines ms"
  by (simp_all add: unlines_def)

lemma takeWhile_line: "CHR 0x0A \<notin> set l \<Longrightarrow> takeWhile (\<lambda>c. c \<noteq> CHR 0x0A) (l @ CHR 0x0A # r) = l"
  by (subst takeWhile_append2) auto

lemma grep_lines_unlines:
  assumes "\<forall>l \<in> set ls. line_ok l" and "CHR 0x0A \<notin> set r"
  shows "grep_lines pattern (unlines ls @ r) = (unlines (filter (match_re pattern) ls), r)"
  using assms(1)
proof (induction ls)
  case Nil
  have "CHR 0x0A \<notin> set (takeWhile (\<lambda>c. c \<noteq> CHR 0x00) r)" using assms(2) by (auto dest: set_takeWhileD)
  then show ?case by (simp add: grep_lines.simps)
next
  case (Cons l ls)
  then have l: "CHR 0x0A \<notin> set l" "CHR 0x00 \<notin> set l" by (simp_all add: line_ok_def)
  have "takeWhile (\<lambda>c. c \<noteq> CHR 0x00) (l @ CHR 0x0A # unlines ls @ r) = l @ takeWhile (\<lambda>c. c \<noteq> CHR 0x00) (CHR 0x0A # unlines ls @ r)"
    using l(2) by (intro takeWhile_append2) auto
  then have "CHR 0x0A \<in> set (takeWhile (\<lambda>c. c \<noteq> CHR 0x00) (l @ CHR 0x0A # unlines ls @ r))" by simp
  then show ?case using Cons takeWhile_line[OF l(1), of "unlines ls @ r"]
    by (subst grep_lines.simps) simp
qed

text \<open>Any beginning of a text consists of whole lines and the beginning of the next line.\<close>

lemma unlines_prefix:
  assumes "unlines ls = p @ q" and "\<forall>l \<in> set ls. line_ok l"
  shows "\<exists>ms ns r. ls = ms @ ns \<and> p = unlines ms @ r \<and> r @ q = unlines ns \<and> CHR 0x0A \<notin> set r"
  using assms
proof (induction ls arbitrary: p)
  case Nil
  then show ?case by auto
next
  case (Cons l ls)
  show ?case
  proof (cases "length p \<le> length l")
    case True
    have "p = take (length p) (p @ q)" by simp
    also have "\<dots> = take (length p) l" using Cons.prems(1)[symmetric] True by simp
    finally have "set p \<subseteq> set l" by (metis set_take_subset)
    then have "CHR 0x0A \<notin> set p" using Cons.prems(2) by (auto simp: line_ok_def)
    then show ?thesis using Cons.prems(1) by (intro exI[of _ "[]"] exI[of _ "l # ls"] exI[of _ p]) simp
  next
    case False
    then have "l @ [CHR 0x0A] = take (Suc (length l)) (p @ q)" using Cons.prems(1)[symmetric] by simp
    then have p: "p = (l @ [CHR 0x0A]) @ drop (Suc (length l)) p" using False by (simp add: not_le Suc_le_eq)
    then have "unlines ls = drop (Suc (length l)) p @ q"
      using Cons.prems(1) by (metis append_Cons append_Nil append_assoc same_append_eq unlines_simps(2))
    then obtain ms ns r where "ls = ms @ ns" "drop (Suc (length l)) p = unlines ms @ r" "r @ q = unlines ns" "CHR 0x0A \<notin> set r"
      using Cons.IH Cons.prems(2) by auto
    then show ?thesis using p by (intro exI[of _ "l # ms"] exI[of _ ns] exI[of _ r]) simp
  qed
qed

lemma partial_line_short:
  assumes "r @ q = unlines ns" and "CHR 0x0A \<notin> set r" and "\<forall>l \<in> set ns. line_ok l"
  shows "length r < BUF - 1 \<and> (q = [] \<longrightarrow> ns = [])"
proof (cases ns)
  case Nil
  then show ?thesis using assms(1) by simp
next
  case (Cons l ls)
  have "\<not> length l < length r"
  proof
    assume "length l < length r"
    then have "r ! length l = (r @ q) ! length l" by (simp add: nth_append)
    also have "\<dots> = CHR 0x0A" using assms(1) Cons by (simp add: nth_append)
    finally show False using assms(2) \<open>length l < length r\<close> by (metis nth_mem)
  qed
  moreover have "q \<noteq> []" using assms(1,2) Cons by auto
  ultimately show ?thesis using assms(3) Cons by (simp add: line_ok_def)
qed

lemma grep_loop_lines:
  assumes "r @ input = unlines ls" and "CHR 0x0A \<notin> set r" and "\<forall>l \<in> set ls. line_ok l"
  shows "grep_loop pattern ks input r = unlines (filter (match_re pattern) ls)"
  using assms
proof (induction pattern ks input r arbitrary: ls rule: grep_loop.induct)
  case (1 pattern ks input r)
  note short = partial_line_short[OF 1(2-4)]
  let ?n = "read_size ks (BUF - length r - 1) input"
  show ?case
  proof (cases "input = []")
    case True
    then show ?thesis using short by (subst grep_loop.simps) (simp add: read_size_def)
  next
    case False
    then have n: "?n \<noteq> 0" using short by (cases ks) (auto simp: read_size_def)
    have "unlines ls = (r @ take ?n input) @ drop ?n input" using 1(2) by simp
    from unlines_prefix[OF this 1(4)] obtain ms ns r' where
      d: "ls = ms @ ns" "r @ take ?n input = unlines ms @ r'" "r' @ drop ?n input = unlines ns" "CHR 0x0A \<notin> set r'" by blast
    have g: "grep_lines pattern (r @ take ?n input) = (unlines (filter (match_re pattern) ms), r')"
      unfolding d(2) by (rule grep_lines_unlines) (use 1(4) d in auto)
    have "grep_loop pattern (tl ks) (drop ?n input) r' = unlines (filter (match_re pattern) ns)"
      by (rule 1(1)[OF refl n g[symmetric] refl d(3,4)]) (use 1(4) d(1) in auto)
    then show ?thesis using n g d(1) by (subst grep_loop.simps) (simp add: Let_def)
  qed
qed

section \<open>Properties\<close>

text \<open>
  (C33) The recursive matcher decides the meaning of the pattern: \<open>match\<close> succeeds on a line exactly if some part of it
  (its beginning, for \<open>^\<close>; up to its end, for \<open>$\<close>) is in the language of the pattern, where \<open>.\<close> is any character
  and \<open>*\<close> repeats the character before it.
\<close>

theorem match_decides_pattern: "match_re re tx \<longleftrightarrow> pattern_matches re tx"
  by (simp add: match_re_def pattern_matches_def matchhere_items match_from_iff)

text \<open>
  (C34) \<open>grep\<close> prints exactly the lines that match, in order, however \<open>read\<close> cuts the file into pieces, if every line
  ends with a newline, has no nul and fits the buffer.
\<close>

theorem grep_prints_matches:
  assumes "\<forall>l \<in> set ls. line_ok l"
  shows "grep pattern ks (unlines ls) = unlines (filter (pattern_matches pattern) ls)"
proof -
  have "match_re pattern = pattern_matches pattern"
    by (intro ext) (simp add: match_re_def pattern_matches_def matchhere_items match_from_iff)
  then show ?thesis using grep_loop_lines[of "[]" "unlines ls" ls pattern ks] assms by (simp add: grep_def)
qed

theorem grep_prints_matches_witness:
  "grep ''a.c$'' [2, 3] (unlines [''xabc'', ''ab'', ''abcd'', ''aac'']) = unlines (filter (pattern_matches ''a.c$'') [''xabc'', ''ab'', ''abcd'', ''aac''])"
  by (rule grep_prints_matches) (simp add: line_ok_def)

text \<open>A last line without a newline is never looked at.\<close>

lemma grep_drops_last:
  assumes "CHR 0x0A \<notin> set l" and "length l < BUF - 1"
  shows "grep pattern [] l = []"
proof -
  have g: "grep_lines pattern l = ([], l)" using grep_lines_unlines[of "[]" l pattern] assms(1) by simp
  have "grep_loop pattern [] [] l = []" by (subst grep_loop.simps) (simp add: read_size_def)
  then show ?thesis using assms(2) g unfolding grep_def by (subst grep_loop.simps) (simp add: read_size_def Let_def)
qed

end
