(* ===== verification/Xv6_Sh.thy ===== *)
theory Xv6_Sh
  imports Xv6_Prelude "HOL-Library.Sublist"
begin

text \<open>
  The parser of the shell, \<^verbatim>\<open>user/sh.c\<close>.  A pointer into the command line is represented by the string from there
  to the end \<open>es\<close> of the line; a pointer that is stored in a command is its distance to \<open>es\<close>, the length of
  that string.  A call of \<open>panic\<close>, which ends the process, is the result \<open>Inl\<close> with the text it writes.

  The loops shorten the string; the mutual recursion of \<open>parseline\<close>, \<open>parsepipe\<close>, \<open>parseexec\<close> and \<open>parseblock\<close> has
  fuel, and \<open>parsecmd\<close> gives it five units for each character, which is always enough (\<open>parse_enough\<close>).
\<close>

section \<open>Commands\<close>

datatype (words: 'w) cmd =
    EXEC "'w list"
  | REDIR "'w cmd" 'w int int
  | PIPE "'w cmd" "'w cmd"
  | LIST "'w cmd" "'w cmd"
  | BACK "'w cmd"
  for map: map_cmd

definition MAXARGS :: nat where [simp]: "MAXARGS = 10"

type_synonym ptr = "nat \<times> nat"

section \<open>Tokens\<close>

definition whitespace :: string where
  "whitespace = [CHR '' '', CHR 0x09, CHR 0x0D, CHR 0x0A, CHR 0x0B]"

definition shsymbols :: string where
  "shsymbols = ''<|>&;()''"

definition wordchar :: "char \<Rightarrow> bool" where
  "wordchar c \<longleftrightarrow> c \<notin> set whitespace \<and> c \<notin> set shsymbols"

fun skip :: "string \<Rightarrow> string" where
  "skip [] = []"
| "skip (c # s) = (if c \<in> set whitespace then skip s else c # s)"

text \<open>The kind of the token, the pointers \<open>q\<close> and \<open>eq\<close> to its begin and end, and the string after it.\<close>

definition gettoken :: "string \<Rightarrow> char \<times> nat \<times> nat \<times> string" where
  "gettoken ps = (let s = skip ps; q = length s in
     case s of
       [] \<Rightarrow> (CHR 0x00, q, q, [])
     | c # r \<Rightarrow>
         if c \<in> set ''|();&<'' then (c, q, length r, skip r)
         else if c = CHR ''>'' then
           (if r \<noteq> [] \<and> hd r = CHR ''>'' then (CHR ''+'', q, length (tl r), skip (tl r)) else (CHR ''>'', q, length r, skip r))
         else let t = dropWhile wordchar s in (CHR ''a'', q, length t, skip t))"

definition peek :: "string \<Rightarrow> string \<Rightarrow> bool \<times> string" where
  "peek ps toks = (let s = skip ps in (s \<noteq> [] \<and> hd s \<in> set toks, s))"

lemma length_skip: "length (skip s) \<le> length s"
  by (induction s) auto

lemma skip_skip [simp]: "skip (skip s) = skip s"
  by (induction s) auto

lemma length_dropWhile_less: "s \<noteq> [] \<Longrightarrow> P (hd s) \<Longrightarrow> length (dropWhile P s) < length s"
  by (cases s) (auto simp: length_dropWhile_le le_imp_less_Suc)

lemma hd_skip: "skip s \<noteq> [] \<Longrightarrow> hd (skip s) \<notin> set whitespace"
  by (induction s) auto

lemma gettoken_less:
  assumes "gettoken s = (tok, q, eq, r)" and "skip s \<noteq> []"
  shows "length r < length (skip s)"
proof -
  obtain c t where s: "skip s = c # t" using assms(2) by (cases "skip s") auto
  have w: "wordchar c" if "c \<notin> set ''|();&<''" "c \<noteq> CHR ''>''"
    using that hd_skip[OF assms(2)] s by (auto simp: wordchar_def shsymbols_def)
  have "length (skip (dropWhile wordchar (c # t))) < length (c # t)" if "wordchar c"
    using length_skip[of "dropWhile wordchar (c # t)"] length_dropWhile_less[of "c # t" wordchar] that by simp
  then show ?thesis
    using assms(1) w length_skip[of t] length_skip[of "tl t"]
    by (auto simp: gettoken_def s Let_def split: if_splits)
qed

lemma gettoken_le: "gettoken s = (tok, q, eq, r) \<Longrightarrow> length r \<le> length s"
  using gettoken_less[of s tok q eq r] length_skip[of s] by (cases "skip s = []") (auto simp: gettoken_def)

lemma gettoken_peek: "peek ps toks = (True, s) \<Longrightarrow> gettoken s = (tok, q, eq, r) \<Longrightarrow> length r < length ps"
  using gettoken_less[of s tok q eq r] length_skip[of ps] by (auto simp: peek_def Let_def)

lemma gettoken_nonzero: "gettoken s = (tok, q, eq, r) \<Longrightarrow> tok \<noteq> CHR 0x00 \<Longrightarrow> length r < length s"
  using gettoken_less[of s tok q eq r] length_skip[of s] by (cases "skip s = []") (auto simp: gettoken_def)

lemma peek_le: "peek ps toks = (b, s) \<Longrightarrow> s = skip ps \<and> length s \<le> length ps"
  using length_skip[of ps] by (auto simp: peek_def Let_def)

section \<open>The parser\<close>

definition redir_mode :: "char \<Rightarrow> int \<times> int" where
  "redir_mode tok = (if tok = CHR ''<'' then (0x000, 0) else if tok = CHR ''>'' then (0x601, 1) else (0x201, 1))"

function parseredirs :: "ptr cmd \<Rightarrow> string \<Rightarrow> string + ptr cmd \<times> string" where
  "parseredirs cmd ps = (let (b, s) = peek ps ''<>'' in
     if \<not> b then Inr (cmd, s)
     else let (tok, _, _, s) = gettoken s; (t, q, eq, s) = gettoken s in
       if t \<noteq> CHR ''a'' then Inl ''missing file for redirection''
       else let (mode, fd) = redir_mode tok in parseredirs (REDIR cmd (q, eq) mode fd) s)"
  by pat_completeness auto
termination
proof (relation "measure (\<lambda>(_, s). length s)", simp)
  fix cmd :: "ptr cmd" and ps x b s y tok y1 q0 y2 eq0 s1 z t z1 q z2 eq s2 m mode fd
  assume a: "x = peek ps ''<>''" "(b, s) = x" "\<not> \<not> b" "y = gettoken s" "(tok, y1) = y" "(q0, y2) = y1" "(eq0, s1) = y2"
    "z = gettoken s1" "(t, z1) = z" "(q, z2) = z1" "(eq, s2) = z2"
  then have "length s1 < length ps" "length s2 \<le> length s1"
    using gettoken_peek[of ps "''<>''" s tok q0 eq0 s1] gettoken_le[of s1 t q eq s2] by auto
  then show "((REDIR cmd (q, eq) mode fd, s2), cmd, ps) \<in> measure (\<lambda>(_, s). length s)" by simp
qed

declare parseredirs.simps [simp del]

text \<open>
  \<open>parseexec\<close> fills the argument vector of the \<open>EXEC\<close> command it allocated, which redirections may have been wrapped
  around in the meantime.
\<close>

primrec add_arg :: "'w \<Rightarrow> 'w cmd \<Rightarrow> 'w cmd" where
  "add_arg a (EXEC argv) = EXEC (argv @ [a])"
| "add_arg a (REDIR c f mode fd) = REDIR (add_arg a c) f mode fd"
| "add_arg a (PIPE l r) = PIPE l r"
| "add_arg a (LIST l r) = LIST l r"
| "add_arg a (BACK c) = BACK c"

lemma gettoken_skip [simp]: "gettoken (skip s) = gettoken s"
  by (simp add: gettoken_def)

lemma parseredirs_stop:
  "skip ps = [] \<or> hd (skip ps) \<notin> set ''<>'' \<Longrightarrow> parseredirs cmd ps = Inr (cmd, skip ps)"
  by (subst parseredirs.simps) (auto simp: peek_def Let_def)

lemma parseredirs_step:
  assumes "skip ps \<noteq> []" and "hd (skip ps) \<in> set ''<>''" and "gettoken ps = (tok, q0, eq0, s1)" and "gettoken s1 = (t, q, eq, s2)"
  shows "parseredirs cmd ps = (if t \<noteq> CHR ''a'' then Inl ''missing file for redirection''
     else parseredirs (REDIR cmd (q, eq) (fst (redir_mode tok)) (snd (redir_mode tok))) s2)"
  using assms by (subst parseredirs.simps) (auto simp: peek_def Let_def split: prod.splits)

lemma parseredirs_le: "parseredirs cmd ps = Inr (c, s) \<Longrightarrow> length s \<le> length ps"
proof (induction "length ps" arbitrary: cmd ps rule: less_induct)
  case less
  show ?case
  proof (cases "skip ps = [] \<or> hd (skip ps) \<notin> set ''<>''")
    case True
    then show ?thesis using less(2) parseredirs_stop[OF True, of cmd] length_skip[of ps] by auto
  next
    case False
    obtain tok q0 eq0 s1 where g1: "gettoken ps = (tok, q0, eq0, s1)" by (metis prod_cases4)
    obtain t q eq s2 where g2: "gettoken s1 = (t, q, eq, s2)" by (metis prod_cases4)
    have lt: "length s2 < length ps"
      using gettoken_less[OF g1] gettoken_le[OF g2] length_skip[of ps] False by auto
    have "length s \<le> length s2"
      using less(1)[OF lt] less(2) parseredirs_step[OF _ _ g1 g2, of cmd] False by (auto split: if_splits)
    then show ?thesis using lt by simp
  qed
qed

function parseexec_loop :: "ptr cmd \<Rightarrow> nat \<Rightarrow> string \<Rightarrow> string + ptr cmd \<times> string" where
  "parseexec_loop ret argc ps = (let (b, s) = peek ps ''|)&;'' in
     if b then Inr (ret, s)
     else let (tok, q, eq, s) = gettoken s in
       if tok = CHR 0x00 then Inr (ret, s)
       else if tok \<noteq> CHR ''a'' then Inl ''syntax''
       else if argc + 1 \<ge> MAXARGS then Inl ''too many args''
       else case parseredirs (add_arg (q, eq) ret) s of
         Inl e \<Rightarrow> Inl e
       | Inr (ret, s) \<Rightarrow> parseexec_loop ret (argc + 1) s)"
  by pat_completeness auto
termination
  by (relation "measure (\<lambda>(_, _, s). length s)")
    (auto dest!: peek_le[OF sym] gettoken_nonzero[OF sym] parseredirs_le)

declare parseexec_loop.simps [simp del]

function back_loop :: "ptr cmd \<Rightarrow> string \<Rightarrow> ptr cmd \<times> string" where
  "back_loop cmd ps = (let (b, s) = peek ps ''&'' in
     if b then let (_, _, _, s) = gettoken s in back_loop (BACK cmd) s else (cmd, s))"
  by pat_completeness auto
termination
  by (relation "measure (\<lambda>(_, s). length s)") (auto dest!: gettoken_peek[OF sym sym], metis Pair_inject)

declare back_loop.simps [simp del]

text \<open>Sequencing: \<open>None\<close> is fuel that has run out, \<open>Inl\<close> a panic.\<close>

definition bindP :: "(string + 'a) option \<Rightarrow> ('a \<Rightarrow> (string + 'b) option) \<Rightarrow> (string + 'b) option" where
  "bindP x f = (case x of None \<Rightarrow> None | Some (Inl e) \<Rightarrow> Some (Inl e) | Some (Inr y) \<Rightarrow> f y)"

fun parseline :: "nat \<Rightarrow> string \<Rightarrow> (string + ptr cmd \<times> string) option"
  and parsepipe :: "nat \<Rightarrow> string \<Rightarrow> (string + ptr cmd \<times> string) option"
  and parseexec :: "nat \<Rightarrow> string \<Rightarrow> (string + ptr cmd \<times> string) option"
  and parseblock :: "nat \<Rightarrow> string \<Rightarrow> (string + ptr cmd \<times> string) option" where
  "parseline 0 ps = None"
| "parseline (Suc n) ps = bindP (parsepipe n ps) (\<lambda>(cmd, s).
     let (cmd, s) = back_loop cmd s; (b, s) = peek s '';'' in
     if b then let (_, _, _, s) = gettoken s in bindP (parseline n s) (\<lambda>(r, s). Some (Inr (LIST cmd r, s)))
     else Some (Inr (cmd, s)))"
| "parsepipe 0 ps = None"
| "parsepipe (Suc n) ps = bindP (parseexec n ps) (\<lambda>(cmd, s).
     let (b, s) = peek s ''|'' in
     if b then let (_, _, _, s) = gettoken s in bindP (parsepipe n s) (\<lambda>(r, s). Some (Inr (PIPE cmd r, s)))
     else Some (Inr (cmd, s)))"
| "parseexec 0 ps = None"
| "parseexec (Suc n) ps = (let (b, s) = peek ps ''('' in
     if b then parseblock n s
     else Some (case parseredirs (EXEC []) s of Inl e \<Rightarrow> Inl e | Inr (ret, s) \<Rightarrow> parseexec_loop ret 0 s))"
| "parseblock 0 ps = None"
| "parseblock (Suc n) ps = (let (b, s) = peek ps ''('' in
     if \<not> b then Some (Inl ''parseblock'')
     else let (_, _, _, s) = gettoken s in bindP (parseline n s) (\<lambda>(cmd, s).
       let (b, s) = peek s '')'' in
       if \<not> b then Some (Inl ''syntax - missing )'')
       else let (_, _, _, s) = gettoken s in Some (parseredirs cmd s)))"

text \<open>
  \<open>nulterminate\<close> works on the line buffer: \<open>len\<close> is the length of the line, so that the pointer with distance \<open>d\<close>
  to its end is the index \<open>len - d\<close>.
\<close>

primrec nulterminate :: "nat \<Rightarrow> ptr cmd \<Rightarrow> string \<Rightarrow> string" where
  "nulterminate len (EXEC argv) buf = fold (\<lambda>p buf. buf[len - snd p := CHR 0x00]) argv buf"
| "nulterminate len (REDIR c f mode fd) buf = (nulterminate len c buf)[len - snd f := CHR 0x00]"
| "nulterminate len (PIPE l r) buf = nulterminate len r (nulterminate len l buf)"
| "nulterminate len (LIST l r) buf = nulterminate len r (nulterminate len l buf)"
| "nulterminate len (BACK c) buf = nulterminate len c buf"

definition parsecmd :: "string \<Rightarrow> (string + ptr cmd \<times> string) option" where
  "parsecmd line = bindP (parseline (5 * length line + 5) line) (\<lambda>(cmd, s).
     if snd (peek s []) \<noteq> [] then Some (Inl (''leftovers: '' @ snd (peek s []) @ [CHR 0x0A] @ ''syntax''))
     else Some (Inr (cmd, nulterminate (length line) cmd (line @ [CHR 0x00]))))"

text \<open>The C string at a pointer into the buffer: what \<open>runcmd\<close> passes to \<open>exec\<close> and \<open>open\<close>.\<close>

definition cword :: "nat \<Rightarrow> string \<Rightarrow> ptr \<Rightarrow> string" where
  "cword len buf p = takeWhile (\<lambda>c. c \<noteq> CHR 0x00) (drop (len - fst p) buf)"

section \<open>The parser returns\<close>

lemma parseexec_loop_stop:
  "skip ps = [] \<or> hd (skip ps) \<in> set ''|)&;'' \<Longrightarrow> parseexec_loop ret argc ps = Inr (ret, skip ps)"
  by (subst parseexec_loop.simps) (auto simp: peek_def Let_def gettoken_def)

lemma parseexec_loop_step:
  assumes "skip ps \<noteq> []" and "hd (skip ps) \<notin> set ''|)&;''" and "gettoken ps = (tok, q, eq, s)"
  shows "parseexec_loop ret argc ps =
     (if tok = CHR 0x00 then Inr (ret, s) else if tok \<noteq> CHR ''a'' then Inl ''syntax''
      else if argc + 1 \<ge> MAXARGS then Inl ''too many args''
      else case parseredirs (add_arg (q, eq) ret) s of Inl e \<Rightarrow> Inl e | Inr (ret, s) \<Rightarrow> parseexec_loop ret (argc + 1) s)"
  using assms by (subst parseexec_loop.simps) (auto simp: peek_def Let_def)

lemma parseexec_loop_le: "parseexec_loop ret argc ps = Inr (c, s) \<Longrightarrow> length s \<le> length ps"
proof (induction "length ps" arbitrary: ret argc ps rule: less_induct)
  case less
  show ?case
  proof (cases "skip ps = [] \<or> hd (skip ps) \<in> set ''|)&;''")
    case True
    then show ?thesis using less(2) parseexec_loop_stop[OF True, of ret argc] length_skip[of ps] by auto
  next
    case False
    obtain tok q eq t where g: "gettoken ps = (tok, q, eq, t)" by (metis prod_cases4)
    have lt: "length t < length ps" using gettoken_less[OF g] length_skip[of ps] False by auto
    show ?thesis
    proof (cases "parseredirs (add_arg (q, eq) ret) t")
      case (Inl e)
      then show ?thesis using less(2) parseexec_loop_step[OF _ _ g, of ret argc] False lt by (auto split: if_splits)
    next
      case (Inr x)
      then obtain ret' u where r: "parseredirs (add_arg (q, eq) ret) t = Inr (ret', u)" by (cases x) auto
      have "length u < length ps" using parseredirs_le[OF r] lt by simp
      then show ?thesis
        using less(1)[of u ret' "argc + 1"] less(2) parseexec_loop_step[OF _ _ g, of ret argc] False lt r
        by (auto split: if_splits)
    qed
  qed
qed

lemma back_loop_stop: "skip ps = [] \<or> hd (skip ps) \<noteq> CHR ''&'' \<Longrightarrow> back_loop cmd ps = (cmd, skip ps)"
  by (subst back_loop.simps) (auto simp: peek_def Let_def)

lemma back_loop_step:
  "skip ps \<noteq> [] \<Longrightarrow> hd (skip ps) = CHR ''&'' \<Longrightarrow> back_loop cmd ps = back_loop (BACK cmd) (skip (tl (skip ps)))"
  by (subst back_loop.simps) (auto simp: peek_def Let_def gettoken_def neq_Nil_conv)

lemma back_loop_le: "back_loop cmd ps = (c, s) \<Longrightarrow> length s \<le> length ps"
proof (induction "length ps" arbitrary: cmd ps rule: less_induct)
  case less
  show ?case
  proof (cases "skip ps = [] \<or> hd (skip ps) \<noteq> CHR ''&''")
    case True
    then show ?thesis using less(2) back_loop_stop[OF True, of cmd] length_skip[of ps] by auto
  next
    case False
    have lt: "length (skip (tl (skip ps))) < length ps"
      using False length_skip[of "tl (skip ps)"] length_skip[of ps] by (cases "skip ps") auto
    have "length s \<le> length (skip (tl (skip ps)))"
      using less(1)[OF lt, of "BACK cmd"] less(2) back_loop_step[of ps cmd] False by simp
    then show ?thesis using lt by simp
  qed
qed

lemma bindP_simps [simp]: "bindP (Some (Inl e)) f = Some (Inl e)" "bindP (Some (Inr x)) f = f x"
  by (simp_all add: bindP_def)

definition returns :: "nat \<Rightarrow> (string + 'c \<times> string) option \<Rightarrow> bool" where
  "returns len r \<longleftrightarrow> (\<exists>x. r = Some x \<and> (\<forall>c s. x = Inr (c, s) \<longrightarrow> length s \<le> len))"

lemma returns_bind:
  assumes "returns m r" and "\<And>c s. r = Some (Inr (c, s)) \<Longrightarrow> length s \<le> m \<Longrightarrow> returns len (f (c, s))"
  shows "returns len (bindP r f)"
proof -
  obtain x where x: "r = Some x" "\<forall>c s. x = Inr (c, s) \<longrightarrow> length s \<le> m" using assms(1) by (auto simp: returns_def)
  show ?thesis
  proof (cases x)
    case (Inl e)
    then show ?thesis using x(1) by (simp add: returns_def)
  next
    case (Inr y)
    then obtain c s where "x = Inr (c, s)" by (cases y) auto
    then show ?thesis using x assms(2)[of c s] by simp
  qed
qed

lemma returns_Some: "(\<And>c s. x = Inr (c, s) \<Longrightarrow> length s \<le> len) \<Longrightarrow> returns len (Some x)"
  by (simp add: returns_def)

lemma returns_wrap: "returns m r \<Longrightarrow> m \<le> len \<Longrightarrow> returns len (bindP r (\<lambda>(d, s). Some (Inr (f d, s))))"
  by (erule returns_bind) (auto intro: returns_Some)

lemma gettoken_tl:
  assumes "skip s \<noteq> []" and "hd (skip s) \<in> set ''|();&<''"
  shows "gettoken s = (hd (skip s), length (skip s), length (tl (skip s)), skip (tl (skip s)))"
  using assms by (cases "skip s") (auto simp: gettoken_def Let_def)

lemma tl_skip_le: "skip s \<noteq> [] \<Longrightarrow> Suc (length (skip (tl (skip s)))) \<le> length s"
  using length_skip[of "tl (skip s)"] length_skip[of s] by (cases "skip s") auto

lemma parse_enough:
  "5 * length s + 5 \<le> n \<Longrightarrow> returns (length s) (parseline n s)"
  "5 * length s + 4 \<le> n \<Longrightarrow> returns (length s) (parsepipe n s)"
  "5 * length s + 3 \<le> n \<Longrightarrow> returns (length s) (parseexec n s)"
  "5 * length s + 2 \<le> n \<Longrightarrow> returns (length s) (parseblock n s)"
proof (induction n arbitrary: s)
  case (Suc n)
  {
    case 1
    show ?case unfolding parseline.simps
    proof (rule returns_bind[OF Suc(2)], use 1 in simp, unfold split_conv)
      fix c :: "ptr cmd" and t :: string assume t: "length t \<le> length s"
      obtain c1 t1 where b: "back_loop c t = (c1, t1)" by fastforce
      note le = back_loop_le[OF b]
      show "returns (length s) (let (cmd, s) = back_loop c t; (b, s) = peek s '';'' in
          if b then let (_, _, _, s) = gettoken s in bindP (parseline n s) (\<lambda>(r, s). Some (Inr (LIST cmd r, s))) else Some (Inr (cmd, s)))"
      proof (cases "skip t1 \<noteq> [] \<and> hd (skip t1) = CHR '';''")
        case True
        have "returns (length (skip (tl (skip t1)))) (parseline n (skip (tl (skip t1))))"
          by (rule Suc(1)) (use tl_skip_le[of t1] True le t 1 in simp)
        then show ?thesis using True b gettoken_tl[of t1] tl_skip_le[of t1] le t
          by (auto simp: peek_def Let_def intro!: returns_wrap)
      next
        case False
        then show ?thesis using b le t length_skip[of t1] by (auto simp: peek_def Let_def intro!: returns_Some)
      qed
    qed
  next
    case 2
    show ?case unfolding parsepipe.simps
    proof (rule returns_bind[OF Suc(3)], use 2 in simp, unfold split_conv)
      fix c :: "ptr cmd" and t :: string assume t: "length t \<le> length s"
      show "returns (length s) (let (b, s) = peek t ''|'' in
          if b then let (_, _, _, s) = gettoken s in bindP (parsepipe n s) (\<lambda>(r, s). Some (Inr (PIPE c r, s))) else Some (Inr (c, s)))"
      proof (cases "skip t \<noteq> [] \<and> hd (skip t) = CHR ''|''")
        case True
        have "returns (length (skip (tl (skip t)))) (parsepipe n (skip (tl (skip t))))"
          by (rule Suc(2)) (use tl_skip_le[of t] True t 2 in simp)
        then show ?thesis using True gettoken_tl[of t] tl_skip_le[of t] t
          by (auto simp: peek_def Let_def intro!: returns_wrap)
      next
        case False
        then show ?thesis using t length_skip[of t] by (auto simp: peek_def Let_def intro!: returns_Some)
      qed
    qed
  next
    case 3
    show ?case
    proof (cases "skip s \<noteq> [] \<and> hd (skip s) = CHR ''(''")
      case True
      have "returns (length (skip s)) (parseblock n (skip s))" by (rule Suc(4)) (use 3 length_skip[of s] in simp)
      then show ?thesis using True length_skip[of s] by (auto simp: peek_def Let_def returns_def dest: order_trans)
    next
      case False
      then show ?thesis using length_skip[of s]
        by (auto simp: peek_def Let_def intro!: returns_Some split: sum.splits
            dest!: parseredirs_le parseexec_loop_le) 
    qed
  next
    case 4
    show ?case
    proof (cases "skip s \<noteq> [] \<and> hd (skip s) = CHR ''(''")
      case True
      have r: "returns (length (skip (tl (skip s)))) (parseline n (skip (tl (skip s))))"
        by (rule Suc(1)) (use tl_skip_le[of s] True 4 in simp)
      have "returns (length s) (bindP (parseline n (skip (tl (skip s)))) (\<lambda>(cmd, s).
          let (b, s) = peek s '')'' in if \<not> b then Some (Inl ''syntax - missing )'')
          else let (_, _, _, s) = gettoken s in Some (parseredirs cmd s)))"
      proof (rule returns_bind[OF r], unfold split_conv)
        fix c :: "ptr cmd" and t :: string assume t: "length t \<le> length (skip (tl (skip s)))"
        have "length t \<le> length s" using t tl_skip_le[of s] True by simp
        then show "returns (length s) (let (b, s) = peek t '')'' in if \<not> b then Some (Inl ''syntax - missing )'')
          else let (_, _, _, s) = gettoken s in Some (parseredirs c s))"
          by (auto simp: peek_def Let_def intro!: returns_Some split: prod.splits dest!: parseredirs_le gettoken_le)
      qed
      then show ?thesis using True gettoken_tl[of s] by (simp add: peek_def Let_def)
    next
      case False
      then show ?thesis by (simp add: peek_def Let_def returns_def)
    qed
  }
qed simp_all

section \<open>The words of a command\<close>

text \<open>The text a pair of pointers into the line delimits, and that it is a whole word of the line.\<close>

definition tokat :: "string \<Rightarrow> ptr \<Rightarrow> string" where
  "tokat line p = take (fst p - snd p) (drop (length line - fst p) line)"

definition word_at :: "string \<Rightarrow> ptr \<Rightarrow> bool" where
  "word_at line p \<longleftrightarrow> snd p < fst p \<and> fst p \<le> length line \<and> (\<forall>c \<in> set (tokat line p). wordchar c) \<and>
     (snd p \<noteq> 0 \<longrightarrow> \<not> wordchar (line ! (length line - snd p)))"

lemma tokat_append: "fst p \<le> length s \<Longrightarrow> tokat (pre @ s) p = tokat s p"
  by (simp add: tokat_def)

lemma word_at_append: "word_at s p \<Longrightarrow> word_at (pre @ s) p"
  by (auto simp: word_at_def tokat_append nth_append)

lemma suffix_skip: "suffix (skip s) s"
  by (induction s) (auto simp: suffix_Cons)

lemma gettoken_word:
  assumes "skip s = c # r" and "wordchar c"
  shows "gettoken s = (CHR ''a'', length (c # r), length (dropWhile wordchar r), skip (dropWhile wordchar r))"
  using assms by (simp add: gettoken_def Let_def) (auto simp: wordchar_def shsymbols_def)

lemma take_takeWhile: "take (length t - length (dropWhile P t)) t = takeWhile P t"
proof -
  have "length t = length (takeWhile P t) + length (dropWhile P t)" by (metis length_append takeWhile_dropWhile_id)
  then have "length t - length (dropWhile P t) = length (takeWhile P t)" by simp
  then show ?thesis using takeWhile_eq_take[of P t] by (simp only:)
qed

lemma gettoken_suffix:
  assumes "gettoken s = (tok, q, eq, r)"
  shows "suffix r s" and "tok = CHR ''a'' \<Longrightarrow> word_at s (q, eq)"
proof -
  have "suffix r (skip s) \<and> (tok = CHR ''a'' \<longrightarrow> word_at (skip s) (q, eq))"
  proof (cases "skip s")
    case Nil
    then show ?thesis using assms by (auto simp: gettoken_def)
  next
    case (Cons c t)
    show ?thesis
    proof (cases "wordchar c")
      case True
      let ?d = "dropWhile wordchar t"
      have a: "t = takeWhile wordchar t @ ?d" by simp
      have g: "tok = CHR ''a''" "q = length (c # t)" "eq = length ?d" "r = skip ?d"
        using gettoken_word[OF Cons True] assms by simp_all
      have "suffix r ?d" using suffix_skip g(4) by simp
      moreover have "suffix ?d (c # t)" using a by (auto simp: suffix_def intro: exI[of _ "c # takeWhile wordchar t"])
      ultimately have "suffix r (c # t)" by (rule suffix_order.trans)
      moreover have "length ?d \<le> length t" by (rule length_dropWhile_le)
      then have tk: "tokat (c # t) (q, eq) = c # takeWhile wordchar t"
        using g take_takeWhile[of t wordchar] by (simp add: tokat_def Suc_diff_le)
      have "\<not> wordchar ((c # t) ! (length (c # t) - length ?d))" if "?d \<noteq> []"
      proof -
        have "length t = length (takeWhile wordchar t) + length ?d" by (metis length_append takeWhile_dropWhile_id)
        then have "length (c # t) - length ?d = Suc (length (takeWhile wordchar t))" by simp
        moreover have "t ! length (takeWhile wordchar t) = hd ?d" using that by (metis a hd_conv_nth nth_append_length_plus add_0_right)
        ultimately show ?thesis using hd_dropWhile[OF that] by simp
      qed
      then have "word_at (c # t) (q, eq)"
        unfolding word_at_def tk using True g \<open>length ?d \<le> length t\<close> by (auto dest: set_takeWhileD)
      ultimately show ?thesis using Cons by simp
    next
      case False
      have ws: "c \<notin> set whitespace" using hd_skip[of s] Cons by simp
      then have "c \<in> set ''|();&<'' \<or> c = CHR ''>''" using False by (auto simp: wordchar_def shsymbols_def)
      then show ?thesis using assms Cons suffix_skip[of t] suffix_skip[of "tl t"]
        by (auto simp: gettoken_def Let_def suffix_ConsI split: if_splits intro: suffix_order.trans suffix_tl)
    qed
  qed
  then have a: "suffix r (skip s)" "tok = CHR ''a'' \<longrightarrow> word_at (skip s) (q, eq)" by simp_all
  show "suffix r s" using suffix_order.trans[OF a(1) suffix_skip] .
  obtain pre where "s = pre @ skip s" using suffix_skip[of s] by (auto simp: suffix_def)
  then show "word_at s (q, eq)" if "tok = CHR ''a''" using word_at_append[of "skip s" "(q, eq)" pre] a(2) that by simp
qed

primrec args_ok :: "'w cmd \<Rightarrow> bool" where
  "args_ok (EXEC argv) \<longleftrightarrow> length argv < MAXARGS"
| "args_ok (REDIR c f mode fd) \<longleftrightarrow> args_ok c"
| "args_ok (PIPE l r) \<longleftrightarrow> args_ok l \<and> args_ok r"
| "args_ok (LIST l r) \<longleftrightarrow> args_ok l \<and> args_ok r"
| "args_ok (BACK c) \<longleftrightarrow> args_ok c"

primrec inner_args :: "'w cmd \<Rightarrow> nat" where
  "inner_args (EXEC argv) = length argv"
| "inner_args (REDIR c f mode fd) = inner_args c"
| "inner_args (PIPE l r) = 0"
| "inner_args (LIST l r) = 0"
| "inner_args (BACK c) = 0"

definition cmd_ok :: "string \<Rightarrow> ptr cmd \<Rightarrow> bool" where
  "cmd_ok line c \<longleftrightarrow> (\<forall>p \<in> words c. word_at line p) \<and> args_ok c"

lemma cmd_ok_simps [simp]:
  "cmd_ok line (EXEC argv) \<longleftrightarrow> (\<forall>p \<in> set argv. word_at line p) \<and> length argv < MAXARGS"
  "cmd_ok line (REDIR c f mode fd) \<longleftrightarrow> cmd_ok line c \<and> word_at line f"
  "cmd_ok line (PIPE l r) \<longleftrightarrow> cmd_ok line l \<and> cmd_ok line r"
  "cmd_ok line (LIST l r) \<longleftrightarrow> cmd_ok line l \<and> cmd_ok line r"
  "cmd_ok line (BACK c) \<longleftrightarrow> cmd_ok line c"
  by (auto simp: cmd_ok_def)

lemma word_at_suffix: "suffix s line \<Longrightarrow> word_at s p \<Longrightarrow> word_at line p"
  by (auto simp only: suffix_def word_at_append)

lemma parseredirs_ok:
  assumes "parseredirs cmd ps = Inr (c, s)" and "suffix ps line" and "cmd_ok line cmd"
  shows "suffix s line \<and> cmd_ok line c \<and> inner_args c = inner_args cmd"
  using assms
proof (induction "length ps" arbitrary: cmd ps rule: less_induct)
  case less
  show ?case
  proof (cases "skip ps = [] \<or> hd (skip ps) \<notin> set ''<>''")
    case True
    then show ?thesis using less(2-) parseredirs_stop[OF True, of cmd] suffix_order.trans[OF suffix_skip] by auto
  next
    case False
    obtain tok q0 eq0 s1 where g1: "gettoken ps = (tok, q0, eq0, s1)" by (metis prod_cases4)
    obtain t q eq s2 where g2: "gettoken s1 = (t, q, eq, s2)" by (metis prod_cases4)
    have lt: "length s2 < length ps"
      using gettoken_less[OF g1] gettoken_le[OF g2] length_skip[of ps] False by auto
    have s1: "suffix s1 line" using suffix_order.trans[OF gettoken_suffix(1)[OF g1] less(3)] .
    have s2: "suffix s2 line" using suffix_order.trans[OF gettoken_suffix(1)[OF g2] s1] .
    have t: "t = CHR ''a''" using less(2) parseredirs_step[OF _ _ g1 g2, of cmd] False by (auto split: if_splits)
    have "word_at line (q, eq)" using word_at_suffix[OF s1 gettoken_suffix(2)[OF g2 t]] .
    then show ?thesis using less(1)[OF lt _ s2] less(2,4) parseredirs_step[OF _ _ g1 g2, of cmd] False t by fastforce
  qed
qed

lemma add_arg_ok:
  "cmd_ok line c \<Longrightarrow> word_at line p \<Longrightarrow> inner_args c + 1 < MAXARGS \<Longrightarrow> cmd_ok line (add_arg p c)"
  by (induction c) auto

lemma add_arg_inner: "inner_args (add_arg p c) \<le> inner_args c + 1"
  by (induction c) auto

lemma parseexec_loop_ok:
  assumes "parseexec_loop ret argc ps = Inr (c, s)" and "suffix ps line" and "cmd_ok line ret" and "inner_args ret \<le> argc"
  shows "suffix s line \<and> cmd_ok line c"
  using assms
proof (induction "length ps" arbitrary: ret argc ps rule: less_induct)
  case less
  show ?case
  proof (cases "skip ps = [] \<or> hd (skip ps) \<in> set ''|)&;''")
    case True
    then show ?thesis using less(2-) parseexec_loop_stop[OF True, of ret argc] suffix_order.trans[OF suffix_skip] by auto
  next
    case False
    obtain tok q eq t where g: "gettoken ps = (tok, q, eq, t)" by (metis prod_cases4)
    note st = parseexec_loop_step[OF _ _ g, of ret argc]
    have lt: "length t < length ps" using gettoken_less[OF g] length_skip[of ps] False by auto
    have t: "suffix t line" using suffix_order.trans[OF gettoken_suffix(1)[OF g] less(3)] .
    show ?thesis
    proof (cases "tok = CHR ''a'' \<and> argc + 1 < MAXARGS")
      case True
      have w: "word_at line (q, eq)" using word_at_suffix[OF less(3) gettoken_suffix(2)[OF g]] True by simp
      have ok: "cmd_ok line (add_arg (q, eq) ret)" using add_arg_ok[OF less(4) w] less(5) True by simp
      obtain ret' u where r: "parseredirs (add_arg (q, eq) ret) t = Inr (ret', u)"
        using less(2) st False True by (auto split: sum.splits)
      have lu: "length u < length ps" using parseredirs_le[OF r] lt by simp
      have p: "suffix u line" "cmd_ok line ret'" "inner_args ret' \<le> argc + 1"
        using parseredirs_ok[OF r t ok] add_arg_inner[of "(q, eq)" ret] less(5) by auto
      have "parseexec_loop ret' (argc + 1) u = Inr (c, s)" using less(2) st False True r by auto
      then show ?thesis using less(1)[OF lu _ p] by blast
    next
      case False
      then have "tok = CHR 0x00 \<and> c = ret \<and> s = t"
        using less(2) st \<open>\<not> (skip ps = [] \<or> hd (skip ps) \<in> set ''|)&;'')\<close> by (auto split: if_splits)
      then show ?thesis using less(4) t by simp
    qed
  qed
qed

lemma back_loop_ok:
  assumes "back_loop cmd ps = (c, s)" and "suffix ps line" and "cmd_ok line cmd"
  shows "suffix s line \<and> cmd_ok line c"
  using assms
proof (induction "length ps" arbitrary: cmd ps rule: less_induct)
  case less
  show ?case
  proof (cases "skip ps = [] \<or> hd (skip ps) \<noteq> CHR ''&''")
    case True
    then show ?thesis using less(2-) back_loop_stop[OF True, of cmd] suffix_order.trans[OF suffix_skip] by auto
  next
    case False
    have lt: "length (skip (tl (skip ps))) < length ps"
      using False length_skip[of "tl (skip ps)"] length_skip[of ps] by (cases "skip ps") auto
    have "suffix (skip (tl (skip ps))) line"
      using less(3) suffix_skip suffix_tl suffix_order.trans by metis
    moreover have "cmd_ok line (BACK cmd)" using less(4) by simp
    ultimately show ?thesis using less(1)[OF lt, of "BACK cmd"] less(2) back_loop_step[of ps cmd] False by simp
  qed
qed

lemma bindP_Inr: "bindP r f = Some (Inr y) \<longleftrightarrow> (\<exists>x. r = Some (Inr x) \<and> f x = Some (Inr y))"
  by (auto simp: bindP_def split: option.splits sum.splits)

lemma suffix_token: "suffix ps line \<Longrightarrow> gettoken (skip ps) = (t, q, eq, s) \<Longrightarrow> suffix s line"
  using gettoken_suffix(1)[of ps t q eq s] suffix_order.trans by fastforce

lemma suffix_skip_line: "suffix ps line \<Longrightarrow> suffix (skip ps) line"
  using suffix_order.trans[OF suffix_skip] .

lemma parse_ok:
  "parseline n ps = Some (Inr (c, s)) \<Longrightarrow> suffix ps line \<Longrightarrow> suffix s line \<and> cmd_ok line c"
  "parsepipe n ps = Some (Inr (c, s)) \<Longrightarrow> suffix ps line \<Longrightarrow> suffix s line \<and> cmd_ok line c"
  "parseexec n ps = Some (Inr (c, s)) \<Longrightarrow> suffix ps line \<Longrightarrow> suffix s line \<and> cmd_ok line c"
  "parseblock n ps = Some (Inr (c, s)) \<Longrightarrow> suffix ps line \<Longrightarrow> suffix s line \<and> cmd_ok line c"
proof (induction n arbitrary: ps c s)
  case (Suc n)
  {
    case 1
    then obtain c0 s0 where p: "parsepipe n ps = Some (Inr (c0, s0))" by (auto simp: bindP_Inr)
    obtain c1 s1 where b: "back_loop c0 s0 = (c1, s1)" by fastforce
    have ok: "suffix s1 line" "cmd_ok line c1" using back_loop_ok[OF b] Suc(2)[OF p 1(2)] by auto
    obtain t q eq s2 where g: "gettoken (skip s1) = (t, q, eq, s2)" by (metis prod_cases4)
    show ?case
    proof (cases "skip s1 \<noteq> [] \<and> hd (skip s1) = CHR '';''")
      case True
      then obtain r where "parseline n s2 = Some (Inr (r, s))" "c = LIST c1 r"
        using 1(1) p b g by (auto simp: peek_def Let_def bindP_Inr)
      then show ?thesis using Suc(1)[OF _ suffix_token[OF ok(1) g]] ok(2) by simp
    next
      case False
      then show ?thesis using 1(1) p b ok suffix_skip_line by (auto simp: peek_def Let_def)
    qed
  next
    case 2
    then obtain c1 s1 where p: "parseexec n ps = Some (Inr (c1, s1))" by (auto simp: bindP_Inr)
    have ok: "suffix s1 line" "cmd_ok line c1" using Suc(3)[OF p 2(2)] by auto
    obtain t q eq s2 where g: "gettoken (skip s1) = (t, q, eq, s2)" by (metis prod_cases4)
    show ?case
    proof (cases "skip s1 \<noteq> [] \<and> hd (skip s1) = CHR ''|''")
      case True
      then obtain r where "parsepipe n s2 = Some (Inr (r, s))" "c = PIPE c1 r"
        using 2(1) p g by (auto simp: peek_def Let_def bindP_Inr)
      then show ?thesis using Suc(2)[OF _ suffix_token[OF ok(1) g]] ok(2) by simp
    next
      case False
      then show ?thesis using 2(1) p ok suffix_skip_line by (auto simp: peek_def Let_def)
    qed
  next
    case 3
    show ?case
    proof (cases "skip ps \<noteq> [] \<and> hd (skip ps) = CHR ''(''")
      case True
      then show ?thesis using 3(1) Suc(4)[OF _ suffix_skip_line[OF 3(2)]] by (simp add: peek_def Let_def)
    next
      case False
      then obtain c0 s0 where r: "parseredirs (EXEC []) (skip ps) = Inr (c0, s0)" "parseexec_loop c0 0 s0 = Inr (c, s)"
        using 3(1) by (auto simp: peek_def Let_def split: sum.splits)
      have "suffix s0 line \<and> cmd_ok line c0 \<and> inner_args c0 = inner_args (EXEC [] :: ptr cmd)"
        by (rule parseredirs_ok[OF r(1) suffix_skip_line[OF 3(2)]]) simp
      then show ?thesis using parseexec_loop_ok[OF r(2)] by simp
    qed
  next
    case 4
    obtain t q eq s1 where g: "gettoken (skip ps) = (t, q, eq, s1)" by (metis prod_cases4)
    have s1: "suffix s1 line" using suffix_token[OF 4(2) g] .
    obtain c2 s2 t' q' eq' s3 where p: "parseline n s1 = Some (Inr (c2, s2))" and g': "gettoken (skip s2) = (t', q', eq', s3)"
        and r: "parseredirs c2 s3 = Inr (c, s)"
      using 4(1) g by (auto simp: peek_def Let_def bindP_Inr split: if_splits prod.splits)
    have ok: "suffix s2 line" "cmd_ok line c2" using Suc(1)[OF p s1] by auto
    show ?case using parseredirs_ok[OF r suffix_token[OF ok(1) g'] ok(2)] by simp
  }
qed simp_all

subsection \<open>nulterminate\<close>

lemma length_nulterminate [simp]: "length (nulterminate len c buf) = length buf"
proof (induction c arbitrary: buf)
  case (EXEC argv)
  show ?case by (induction argv arbitrary: buf) simp_all
qed simp_all

lemma nth_nulterminate:
  "i < length buf \<Longrightarrow> nulterminate len c buf ! i = (if i \<in> (\<lambda>p. len - snd p) ` words c then CHR 0x00 else buf ! i)"
proof (induction c arbitrary: buf)
  case (EXEC argv)
  then show ?case by (induction argv arbitrary: buf) (auto simp: nth_list_update)
next
  case (REDIR c f mode fd)
  then show ?case by (cases "i = len - snd f") auto
next
  case (PIPE l r)
  then show ?case by (auto simp: image_Un)
next
  case (LIST l r)
  then show ?case by (auto simp: image_Un)
qed simp

lemma cword_nulterminate:
  assumes words: "\<forall>p \<in> words c. word_at line p" and p: "p \<in> words c" and line: "CHR 0x00 \<notin> set line"
  shows "cword (length line) (nulterminate (length line) c (line @ [CHR 0x00])) p = tokat line p"
proof -
  let ?len = "length line" and ?b = "nulterminate (length line) c (line @ [CHR 0x00])"
  have w: "snd p < fst p" "fst p \<le> ?len" "\<forall>c \<in> set (tokat line p). wordchar c" using words p by (auto simp: word_at_def)
  have char: "?b ! (?len - fst p + i) = line ! (?len - fst p + i) \<and> line ! (?len - fst p + i) \<noteq> CHR 0x00" if i: "i < fst p - snd p" for i
  proof -
    have lt: "?len - fst p + i < ?len" using i w by simp
    have "tokat line p ! i = line ! (?len - fst p + i)" using i w lt by (simp add: tokat_def)
    moreover have "tokat line p ! i \<in> set (tokat line p)" using i w lt by (intro nth_mem) (simp add: tokat_def)
    ultimately have wc: "wordchar (line ! (?len - fst p + i))" using w(3) by simp
    have "?len - fst p + i \<noteq> ?len - snd r" if "r \<in> words c" for r
    proof
      assume e: "?len - fst p + i = ?len - snd r"
      have "word_at line r" using words that by simp
      moreover have "snd r \<noteq> 0" using e lt by auto
      ultimately show False using wc e by (simp add: word_at_def)
    qed
    then have "?b ! (?len - fst p + i) = (line @ [CHR 0x00]) ! (?len - fst p + i)" using lt by (subst nth_nulterminate) auto
    moreover have "line ! (?len - fst p + i) \<noteq> CHR 0x00" using line nth_mem[OF lt] by metis
    ultimately show ?thesis using lt by (simp add: nth_append)
  qed
  have nul: "?b ! (?len - snd p) = CHR 0x00" using p w by (subst nth_nulterminate) auto
  have "cword ?len ?b p = take (fst p - snd p) (drop (?len - fst p) ?b)" unfolding cword_def
    by (rule takeWhile_eq_take_P_nth) (use char nul w in \<open>auto simp: nth_drop\<close>)
  also have "\<dots> = tokat line p"
    unfolding tokat_def by (rule nth_equalityI) (use char w in \<open>auto simp: nth_drop\<close>)
  finally show ?thesis .
qed

section \<open>Printing and parsing\<close>

text \<open>
  A command printed with as few parentheses as the grammar allows.  Level 0 is a line, 1 the left side of \<open>;\<close>
  (where \<open>&\<close> may stand), 2 a pipeline and 3 the left side of \<open>|\<close>.
\<close>

definition showop :: "int \<Rightarrow> string" where
  "showop mode = (if mode = 0x000 then ''<'' else if mode = 0x601 then ''>'' else ''>>'')"

definition showwords :: "string list \<Rightarrow> string" where
  "showwords ws = concat (map (\<lambda>w. w @ '' '') ws)"

definition paren :: "bool \<Rightarrow> string \<Rightarrow> string" where
  "paren b s = (if b then ''( '' @ s @ '') '' else s)"

primrec showcmd :: "string cmd \<Rightarrow> nat \<Rightarrow> string" where
  "showcmd (EXEC argv) n = showwords argv"
| "showcmd (REDIR c f mode fd) n = showcmd c 3 @ showop mode @ '' '' @ f @ '' ''"
| "showcmd (PIPE l r) n = paren (2 < n) (showcmd l 3 @ ''| '' @ showcmd r 2)"
| "showcmd (LIST l r) n = paren (0 < n) (showcmd l 1 @ ''; '' @ showcmd r 0)"
| "showcmd (BACK c) n = paren (1 < n) (showcmd c 1 @ ''& '')"

definition word_ok :: "string \<Rightarrow> bool" where
  "word_ok w \<longleftrightarrow> w \<noteq> [] \<and> (\<forall>c \<in> set w. wordchar c \<and> c \<noteq> CHR 0x00)"

primrec modes_ok :: "'w cmd \<Rightarrow> bool" where
  "modes_ok (EXEC argv) \<longleftrightarrow> True"
| "modes_ok (REDIR c f mode fd) \<longleftrightarrow> modes_ok c \<and> (mode, fd) \<in> {(0x000, 0), (0x601, 1), (0x201, 1)}"
| "modes_ok (PIPE l r) \<longleftrightarrow> modes_ok l \<and> modes_ok r"
| "modes_ok (LIST l r) \<longleftrightarrow> modes_ok l \<and> modes_ok r"
| "modes_ok (BACK c) \<longleftrightarrow> modes_ok c"

definition wf_cmd :: "string cmd \<Rightarrow> bool" where
  "wf_cmd c \<longleftrightarrow> (\<forall>w \<in> words c. word_ok w) \<and> args_ok c \<and> modes_ok c"

primrec is_exec :: "'w cmd \<Rightarrow> bool" where
  "is_exec (EXEC argv) \<longleftrightarrow> True"
| "is_exec (REDIR c f mode fd) \<longleftrightarrow> is_exec c"
| "is_exec (PIPE l r) \<longleftrightarrow> False"
| "is_exec (LIST l r) \<longleftrightarrow> False"
| "is_exec (BACK c) \<longleftrightarrow> False"

definition reads :: "string \<Rightarrow> ptr cmd \<Rightarrow> string cmd \<Rightarrow> bool" where
  "reads u p c \<longleftrightarrow> map_cmd (tokat u) p = c \<and> (\<forall>x \<in> words p. fst x \<le> length u)"

lemma reads_append: "reads u p c \<Longrightarrow> reads (pre @ u) p c"
proof -
  assume r: "reads u p c"
  have "map_cmd (tokat (pre @ u)) p = map_cmd (tokat u) p"
    by (rule cmd.map_cong0) (use r tokat_append in \<open>auto simp: reads_def\<close>)
  then show ?thesis using r by (auto simp: reads_def)
qed

definition follow :: "string \<Rightarrow> string \<Rightarrow> bool" where
  "follow cs rest \<longleftrightarrow> skip rest = [] \<or> hd (skip rest) \<in> set cs"

lemma space_white [simp]: "CHR '' '' \<in> set whitespace"
  by (simp add: whitespace_def)

lemma skip_sym [simp]: "c \<in> set shsymbols \<Longrightarrow> skip (c # s) = c # s"
  by (auto simp: whitespace_def shsymbols_def)

lemma skip_word: "word_ok w \<Longrightarrow> skip (w @ s) = w @ s"
  by (cases w) (auto simp: word_ok_def wordchar_def)

lemma gettoken_showword:
  assumes "word_ok w"
  shows "gettoken (w @ '' '' @ s) = (CHR ''a'', length w + Suc (length s), Suc (length s), skip s)"
proof -
  obtain c r where w: "w = c # r" "wordchar c" "\<forall>d \<in> set r. wordchar d" using assms by (cases w) (auto simp: word_ok_def)
  have "skip (w @ '' '' @ s) = c # (r @ '' '' @ s)" using skip_word[OF assms, of "'' '' @ s"] w(1) by simp
  moreover have "dropWhile wordchar (r @ '' '' @ s) = '' '' @ s"
    using w(3) by (simp add: dropWhile_append2) (simp add: wordchar_def whitespace_def)
  ultimately show ?thesis using gettoken_word[of "w @ '' '' @ s"] w(1,2) by simp
qed

lemma parseredirs_skip: "parseredirs c (skip s) = parseredirs c s"
  by (subst (1 2) parseredirs.simps) (simp add: peek_def)

lemma parse_skip:
  "parseexec n (skip s) = parseexec n s" "parsepipe n (skip s) = parsepipe n s" "parseline n (skip s) = parseline n s"
proof -
  show e: "parseexec n (skip s) = parseexec n s" for n by (cases n) (simp_all add: peek_def)
  show p: "parsepipe n (skip s) = parsepipe n s" for n by (cases n) (simp_all add: e)
  show "parseline n (skip s) = parseline n s" by (cases n) (simp_all add: p)
qed

lemma tokat_word: "tokat (w @ r) (length w + length r, length r) = w"
  by (simp add: tokat_def)

text \<open>What is left to do of \<open>parseexec\<close> once the command and its redirections so far have been read.\<close>

definition rest_of_exec :: "string cmd \<Rightarrow> ptr cmd \<Rightarrow> string \<Rightarrow> string + ptr cmd \<times> string" where
  "rest_of_exec c p s = (if is_exec c
     then case parseredirs p s of Inl e \<Rightarrow> Inl e | Inr (r, s) \<Rightarrow> parseexec_loop r (inner_args c) s
     else parseredirs p s)"

lemma showwords_simps [simp]: "showwords [] = []" "showwords (w # ws) = w @ '' '' @ showwords ws"
  by (simp_all add: showwords_def)

lemma hd_word: "word_ok w \<Longrightarrow> w @ s \<noteq> [] \<and> wordchar (hd (w @ s))"
  by (cases w) (auto simp: word_ok_def)

lemma wordchar_syms: "wordchar c \<Longrightarrow> c \<notin> set ''|)&;''" "wordchar c \<Longrightarrow> c \<notin> set ''<>''" "wordchar c \<Longrightarrow> c \<noteq> CHR ''(''"
  by (auto simp: wordchar_def shsymbols_def)

lemma parseexec_loop_words:
  assumes "\<forall>w \<in> set ws. word_ok w" and "k + length ws < MAXARGS" and "ws \<noteq> []"
  shows "\<exists>ps. map (tokat (showwords ws @ rest)) ps = ws \<and> (\<forall>x \<in> set ps. fst x \<le> length (showwords ws @ rest)) \<and>
     parseexec_loop (EXEC args) k (showwords ws @ rest) =
       (case parseredirs (EXEC (args @ ps)) (skip rest) of Inl e \<Rightarrow> Inl e | Inr (r, s) \<Rightarrow> parseexec_loop r (k + length ws) s)"
  using assms
proof (induction ws arbitrary: args k)
  case (Cons w ws)
  let ?u = "showwords (w # ws) @ rest" and ?v = "showwords ws @ rest"
  have w: "word_ok w" using Cons.prems(1) by simp
  let ?p = "(length w + Suc (length ?v), Suc (length ?v))"
  have g: "gettoken ?u = (CHR ''a'', fst ?p, snd ?p, skip ?v)" using gettoken_showword[OF w, of ?v] by simp
  have sk: "skip ?u = ?u" using skip_word[OF w, of "'' '' @ ?v"] by simp
  have h: "?u \<noteq> []" "wordchar (hd ?u)" using hd_word[OF w, of "'' '' @ ?v"] by simp_all
  have st: "parseexec_loop (EXEC args) k ?u =
      (case parseredirs (EXEC (args @ [?p])) (skip ?v) of Inl e \<Rightarrow> Inl e | Inr (r, s) \<Rightarrow> parseexec_loop r (k + 1) s)"
    using parseexec_loop_step[OF _ _ g, of "EXEC args" k] h sk wordchar_syms(1)[OF h(2)] Cons.prems(2) by simp
  have tp: "tokat ?u ?p = w" using tokat_word[of w "'' '' @ ?v"] by simp
  show ?case
  proof (cases "ws = []")
    case True
    then have e: "k + length (w # ws) = k + 1" by simp
    show ?thesis unfolding e using st tp True by (intro exI[of _ "[?p]"]) simp
  next
    case False
    then obtain w' ws' where ws: "ws = w' # ws'" by (cases ws) auto
    have w': "word_ok w'" using Cons.prems(1) ws by simp
    have "skip ?v = ?v" using skip_word[OF w', of "'' '' @ showwords ws' @ rest"] ws by simp
    moreover have "?v \<noteq> []" "hd ?v \<notin> set ''<>''" using hd_word[OF w', of "'' '' @ showwords ws' @ rest"] wordchar_syms(2) ws by auto
    ultimately have "parseredirs (EXEC (args @ [?p])) (skip ?v) = Inr (EXEC (args @ [?p]), ?v)"
      using parseredirs_stop[of "skip ?v" "EXEC (args @ [?p])"] by simp
    then have st': "parseexec_loop (EXEC args) k ?u = parseexec_loop (EXEC (args @ [?p])) (k + 1) ?v" using st by simp
    obtain ps where ps: "map (tokat ?v) ps = ws" "\<forall>x \<in> set ps. fst x \<le> length ?v"
      "parseexec_loop (EXEC (args @ [?p])) (k + 1) ?v =
         (case parseredirs (EXEC ((args @ [?p]) @ ps)) (skip rest) of Inl e \<Rightarrow> Inl e | Inr (r, s) \<Rightarrow> parseexec_loop r (k + 1 + length ws) s)"
      using Cons.IH[of "k + 1" "args @ [?p]"] Cons.prems False by auto
    have "map (tokat ?u) ps = map (tokat ?v) ps"
      by (rule map_cong[OF refl]) (use ps(2) tokat_append[of _ ?v "w @ '' ''"] in auto)
    then have "map (tokat ?u) ps = ws" using ps(1) by simp
    moreover have e: "k + length (w # ws) = k + 1 + length ws" by simp
    ultimately show ?thesis unfolding e using st' ps(2,3) tp by (intro exI[of _ "?p # ps"]) auto
  qed
qed simp

definition exec_reads :: "string cmd \<Rightarrow> bool" where
  "exec_reads c \<longleftrightarrow> (\<forall>n rest. 5 * length (showcmd c 3 @ rest) + 3 \<le> n \<longrightarrow> follow ''<>|)&;'' rest \<longrightarrow>
     (\<exists>p. reads (showcmd c 3 @ rest) p c \<and> parseexec n (showcmd c 3 @ rest) = Some (rest_of_exec c p (skip rest))))"

definition pipe_reads :: "string cmd \<Rightarrow> bool" where
  "pipe_reads c \<longleftrightarrow> (\<forall>n rest. 5 * length (showcmd c 2 @ rest) + 4 \<le> n \<longrightarrow> follow '')&;'' rest \<longrightarrow>
     (\<exists>p. reads (showcmd c 2 @ rest) p c \<and> parsepipe n (showcmd c 2 @ rest) = Some (Inr (p, skip rest))))"

definition back_reads :: "string cmd \<Rightarrow> bool" where
  "back_reads c \<longleftrightarrow> (\<forall>n rest. 5 * length (showcmd c 1 @ rest) + 4 \<le> n \<longrightarrow> follow '')&;'' rest \<longrightarrow>
     (\<exists>p p0 s0. reads (showcmd c 1 @ rest) p c \<and> parsepipe n (showcmd c 1 @ rest) = Some (Inr (p0, s0)) \<and>
        back_loop p0 s0 = back_loop p (skip rest)))"

definition line_reads :: "string cmd \<Rightarrow> bool" where
  "line_reads c \<longleftrightarrow> (\<forall>n rest. 5 * length (showcmd c 0 @ rest) + 5 \<le> n \<longrightarrow> follow '')'' rest \<longrightarrow>
     (\<exists>p. reads (showcmd c 0 @ rest) p c \<and> parseline n (showcmd c 0 @ rest) = Some (Inr (p, skip rest))))"

lemma follow_sym: "c \<in> set cs \<Longrightarrow> c \<in> set shsymbols \<Longrightarrow> follow cs (c # s)"
  by (simp add: follow_def del: skip.simps)

lemma follow_mono: "follow cs s \<Longrightarrow> set cs \<subseteq> set ds \<Longrightarrow> follow ds s"
  by (auto simp: follow_def)

lemma rest_of_exec_stop:
  assumes "follow ''|)&;'' rest"
  shows "rest_of_exec c p (skip rest) = Inr (p, skip rest)"
proof -
  have "skip rest = [] \<or> hd (skip rest) \<notin> set ''<>''" using assms by (auto simp: follow_def)
  then have "parseredirs p (skip rest) = Inr (p, skip rest)" using parseredirs_stop[of "skip rest" p] by simp
  moreover have "parseexec_loop p k (skip rest) = Inr (p, skip rest)" for k
    using parseexec_loop_stop[of "skip rest" p k] assms by (auto simp: follow_def)
  ultimately show ?thesis by (simp add: rest_of_exec_def)
qed

lemma exec_reads_EXEC:
  assumes "\<forall>w \<in> set argv. word_ok w" and "length argv < MAXARGS"
  shows "exec_reads (EXEC argv)"
  unfolding exec_reads_def
proof (intro allI impI)
  fix n rest
  let ?u = "showcmd (EXEC argv) 3 @ rest"
  assume n: "5 * length ?u + 3 \<le> n" and f: "follow ''<>|)&;'' rest"
  then obtain m where m: "n = Suc m" by (cases n) auto
  show "\<exists>p. reads ?u p (EXEC argv) \<and> parseexec n ?u = Some (rest_of_exec (EXEC argv) p (skip rest))"
  proof (cases argv)
    case Nil
    have "\<not> fst (peek rest ''('')" using f by (auto simp: peek_def follow_def Let_def)
    then show ?thesis unfolding rest_of_exec_def is_exec.simps inner_args.simps Nil list.size(3) using m
      by (intro exI[of _ "EXEC []"]) (auto simp: reads_def peek_def Let_def parseredirs_skip)
  next
    case (Cons w ws)
    have w: "word_ok w" using assms(1) Cons by simp
    let ?s = "showwords argv @ rest"
    have sk: "skip ?s = ?s" using skip_word[OF w, of "'' '' @ showwords ws @ rest"] Cons by simp
    have h: "?s \<noteq> []" "wordchar (hd ?s)" using hd_word[OF w, of "'' '' @ showwords ws @ rest"] Cons by simp_all
    have r: "parseredirs (EXEC []) ?s = Inr (EXEC [], ?s)" using parseredirs_stop[of ?s "EXEC []"] sk h wordchar_syms(2)[OF h(2)] by simp
    obtain ps where ps: "map (tokat ?s) ps = argv" "\<forall>x \<in> set ps. fst x \<le> length ?s"
      "parseexec_loop (EXEC []) 0 ?s =
         (case parseredirs (EXEC ([] @ ps)) (skip rest) of Inl e \<Rightarrow> Inl e | Inr (r, s) \<Rightarrow> parseexec_loop r (0 + length argv) s)"
    proof -
      have "0 + length argv < MAXARGS" "argv \<noteq> []" using assms(2) Cons by simp_all
      from parseexec_loop_words[OF assms(1) this, of rest "[]"] show thesis using that by blast
    qed
    have "parseexec n ?u = Some (parseexec_loop (EXEC []) 0 ?s)"
      using m r sk h wordchar_syms(3)[OF h(2)] by (simp add: peek_def Let_def)
    then show ?thesis unfolding rest_of_exec_def is_exec.simps inner_args.simps using ps[unfolded add_0]
      by (intro exI[of _ "EXEC ps"]) (simp add: reads_def)
  qed
qed

lemma gettoken_showop:
  assumes "(mode, fd) \<in> {(0x000, 0), (0x601, 1), (0x201, 1)}"
  shows "\<exists>tok q eq. gettoken (showop mode @ '' '' @ s) = (tok, q, eq, skip s) \<and> redir_mode tok = (mode, fd) \<and>
     skip (showop mode @ '' '' @ s) \<noteq> [] \<and> hd (skip (showop mode @ '' '' @ s)) \<in> set ''<>''"
  using assms by (auto simp: showop_def gettoken_def redir_mode_def whitespace_def)

lemma exec_reads_REDIR:
  assumes c: "exec_reads c" and f: "word_ok f" and m: "(mode, fd) \<in> {(0x000, 0), (0x601, 1), (0x201, 1)}"
  shows "exec_reads (REDIR c f mode fd)"
  unfolding exec_reads_def
proof (intro allI impI)
  fix n rest
  let ?t = "f @ '' '' @ rest" and ?u = "showcmd (REDIR c f mode fd) 3 @ rest"
  let ?r = "showop mode @ '' '' @ ?t"
  assume n: "5 * length ?u + 3 \<le> n" and fl: "follow ''<>|)&;'' rest"
  have u: "?u = showcmd c 3 @ ?r" by simp
  obtain tok q0 eq0 where g: "gettoken ?r = (tok, q0, eq0, skip ?t)" "redir_mode tok = (mode, fd)" "skip ?r \<noteq> []" "hd (skip ?r) \<in> set ''<>''"
    using gettoken_showop[OF m, of ?t] by blast
  then have "follow ''<>|)&;'' ?r" by (auto simp: follow_def)
  then obtain p where p: "reads ?u p c" "parseexec n ?u = Some (rest_of_exec c p (skip ?r))"
    using c n unfolding exec_reads_def u by metis
  let ?f = "(length f + Suc (length rest), Suc (length rest))"
  have "gettoken (skip ?t) = (CHR ''a'', fst ?f, snd ?f, skip rest)" using gettoken_showword[OF f, of rest] by simp
  from parseredirs_step[OF g(3,4,1) this, of p]
  have "parseredirs p ?r = parseredirs (REDIR p ?f mode fd) (skip rest)" using g(2) by simp
  then have e: "rest_of_exec c p (skip ?r) = rest_of_exec (REDIR c f mode fd) (REDIR p ?f mode fd) (skip rest)"
    by (simp only: rest_of_exec_def parseredirs_skip is_exec.simps inner_args.simps)
  have "tokat ?u ?f = f" using tokat_append[of ?f ?t "showcmd c 3 @ showop mode @ '' ''"] tokat_word[of f "'' '' @ rest"] by simp
  then have "reads ?u (REDIR p ?f mode fd) (REDIR c f mode fd)" using p(1) by (simp add: reads_def)
  then show "\<exists>p. reads ?u p (REDIR c f mode fd) \<and> parseexec n ?u = Some (rest_of_exec (REDIR c f mode fd) p (skip rest))"
    using p(2) unfolding e by blast
qed

lemma pipe_of_exec:
  assumes c: "exec_reads c" and s: "showcmd c 2 = showcmd c 3"
  shows "pipe_reads c"
  unfolding pipe_reads_def s
proof (intro allI impI)
  fix n rest
  let ?u = "showcmd c 3 @ rest"
  assume n: "5 * length ?u + 4 \<le> n" and f: "follow '')&;'' rest"
  then obtain m where m: "n = Suc m" "5 * length ?u + 3 \<le> m" by (cases n) auto
  obtain p where p: "reads ?u p c" "parseexec m ?u = Some (rest_of_exec c p (skip rest))"
    using c m(2) follow_mono[OF f, of "''<>|)&;''"] unfolding exec_reads_def by auto
  have "rest_of_exec c p (skip rest) = Inr (p, skip rest)" by (rule rest_of_exec_stop[OF follow_mono[OF f]]) auto
  then show "\<exists>p. reads ?u p c \<and> parsepipe n ?u = Some (Inr (p, skip rest))"
    using p m(1) f by (intro exI[of _ p]) (auto simp: peek_def Let_def follow_def)
qed

lemma back_of_pipe:
  assumes c: "pipe_reads c" and s: "showcmd c 1 = showcmd c 2"
  shows "back_reads c"
  using c unfolding back_reads_def pipe_reads_def s by blast

lemma line_of_back:
  assumes c: "back_reads c" and s: "showcmd c 0 = showcmd c 1"
  shows "line_reads c"
  unfolding line_reads_def s
proof (intro allI impI)
  fix n rest
  let ?u = "showcmd c 1 @ rest"
  assume n: "5 * length ?u + 5 \<le> n" and f: "follow '')'' rest"
  then obtain m where m: "n = Suc m" "5 * length ?u + 4 \<le> m" by (cases n) auto
  obtain p p0 s0 where p: "reads ?u p c" "parsepipe m ?u = Some (Inr (p0, s0))" "back_loop p0 s0 = back_loop p (skip rest)"
  proof -
    have "follow '')&;'' rest" by (rule follow_mono[OF f]) simp
    then show thesis using that c m(2) unfolding back_reads_def by blast
  qed
  have "back_loop p (skip rest) = (p, skip rest)" using back_loop_stop[of "skip rest" p] f by (auto simp: follow_def)
  then show "\<exists>p. reads ?u p c \<and> parseline n ?u = Some (Inr (p, skip rest))"
    using p m(1) f by (intro exI[of _ p]) (auto simp: peek_def Let_def follow_def)
qed

lemma exec_of_line:
  assumes c: "line_reads c" and e: "\<not> is_exec c" and s: "showcmd c 3 = ''( '' @ showcmd c 0 @ '') ''"
  shows "exec_reads c"
  unfolding exec_reads_def
proof (intro allI impI)
  fix n rest
  let ?v = "showcmd c 0 @ '') '' @ rest"
  let ?u = "showcmd c 3 @ rest"
  assume n: "5 * length ?u + 3 \<le> n"
  have u: "?u = CHR ''('' # CHR '' '' # ?v" unfolding s by simp
  obtain m where m: "n = Suc (Suc m)" "5 * length ?v + 5 \<le> m" using n unfolding u by (cases n; cases "n - 1") auto
  have "follow '')'' ('') '' @ rest)" using follow_sym[of "CHR '')''" "'')''" "'' '' @ rest"] by (simp add: shsymbols_def)
  then obtain p where p: "reads ?v p c" "parseline m ?v = Some (Inr (p, skip ('') '' @ rest)))"
    using c m(2) unfolding line_reads_def by metis
  have sy: "CHR ''('' \<in> set shsymbols" "CHR '')'' \<in> set shsymbols" by (simp_all add: shsymbols_def)
  have sk: "skip ?u = ?u" unfolding u using sy(1) by (simp del: skip.simps)
  have "gettoken ?u = (CHR ''('', length ?u, length (tl ?u), skip (tl ?u))"
    using gettoken_tl[of ?u] sk unfolding u by simp
  moreover have "skip (tl ?u) = skip ?v" unfolding u by simp
  moreover have "gettoken ('') '' @ rest) = (CHR '')'', Suc (Suc (length rest)), Suc (length rest), skip rest)"
    by (simp add: gettoken_def whitespace_def)
  moreover have "skip ('') '' @ rest) = '') '' @ rest" using sy(2) by (simp del: skip.simps)
  ultimately have "parseexec n ?u = Some (parseredirs p (skip rest))"
    using p(2) sk unfolding m(1) by (simp add: peek_def Let_def parse_skip(3) u del: skip.simps)
  moreover have "reads ?u p c" using reads_append[OF p(1), of "''( ''"] unfolding u by simp
  ultimately show "\<exists>p. reads ?u p c \<and> parseexec n ?u = Some (rest_of_exec c p (skip rest))"
    using e by (auto simp: rest_of_exec_def)
qed

lemma pipe_reads_PIPE:
  assumes l: "exec_reads l" and r: "pipe_reads r"
  shows "pipe_reads (PIPE l r)"
  unfolding pipe_reads_def
proof (intro allI impI)
  fix n rest
  let ?v = "showcmd r 2 @ rest"
  let ?t = "CHR ''|'' # CHR '' '' # ?v" and ?u = "showcmd (PIPE l r) 2 @ rest"
  assume n: "5 * length ?u + 4 \<le> n" and f: "follow '')&;'' rest"
  have u: "?u = showcmd l 3 @ ?t" by (simp add: paren_def)
  obtain m where m: "n = Suc m" "5 * length ?u + 3 \<le> m" "5 * length ?v + 4 \<le> m" using n unfolding u by (cases n) auto
  have sy: "CHR ''|'' \<in> set shsymbols" by (simp add: shsymbols_def)
  have "follow ''<>|)&;'' ?t" by (rule follow_sym[OF _ sy]) simp
  then obtain p where p: "reads ?u p l" "parseexec m ?u = Some (rest_of_exec l p (skip ?t))"
    using l m(2) unfolding exec_reads_def u by blast
  have "follow ''|)&;'' ?t" by (rule follow_sym[OF _ sy]) simp
  note st = rest_of_exec_stop[OF this, of l p]
  obtain p' where p': "reads ?v p' r" "parsepipe m ?v = Some (Inr (p', skip rest))"
    using r m(3) f unfolding pipe_reads_def by blast
  have sk: "skip ?t = ?t" using sy by (simp del: skip.simps)
  have "gettoken ?t = (CHR ''|'', length ?t, length (tl ?t), skip (tl ?t))" using gettoken_tl[of ?t] sk by simp
  moreover have "parseexec m ?u = Some (Inr (p, ?t))" using p(2) st unfolding sk by simp
  ultimately have "parsepipe n ?u = Some (Inr (PIPE p p', skip rest))"
    using p'(2) unfolding m(1) by (simp add: peek_def Let_def sk del: skip.simps) (simp add: parse_skip(2))
  moreover have "reads ?u (PIPE p p') (PIPE l r)"
    using p(1) reads_append[OF p'(1), of "showcmd l 3 @ ''| ''"] unfolding u by (auto simp: reads_def)
  ultimately show "\<exists>p. reads ?u p (PIPE l r) \<and> parsepipe n ?u = Some (Inr (p, skip rest))" by blast
qed

lemma back_reads_BACK:
  assumes c: "back_reads c"
  shows "back_reads (BACK c)"
  unfolding back_reads_def
proof (intro allI impI)
  fix n rest
  let ?t = "CHR ''&'' # CHR '' '' # rest" and ?u = "showcmd (BACK c) 1 @ rest"
  assume n: "5 * length ?u + 4 \<le> n"
  have u: "?u = showcmd c 1 @ ?t" by (simp add: paren_def)
  have sy: "CHR ''&'' \<in> set shsymbols" by (simp add: shsymbols_def)
  have "follow '')&;'' ?t" by (rule follow_sym[OF _ sy]) simp
  then obtain p p0 s0 where p: "reads ?u p c" "parsepipe n ?u = Some (Inr (p0, s0))" "back_loop p0 s0 = back_loop p (skip ?t)"
    using c n unfolding back_reads_def u by blast
  have sk: "skip ?t = ?t" using sy by (simp del: skip.simps)
  have "back_loop p (skip ?t) = back_loop (BACK p) (skip rest)" using back_loop_step[of ?t p] sk by simp
  moreover have "reads ?u (BACK p) (BACK c)" using p(1) by (auto simp: reads_def)
  ultimately show "\<exists>p p0 s0. reads ?u p (BACK c) \<and> parsepipe n ?u = Some (Inr (p0, s0)) \<and> back_loop p0 s0 = back_loop p (skip rest)"
    using p(2,3) by metis
qed

lemma line_reads_LIST:
  assumes l: "back_reads l" and r: "line_reads r"
  shows "line_reads (LIST l r)"
  unfolding line_reads_def
proof (intro allI impI)
  fix n rest
  let ?v = "showcmd r 0 @ rest"
  let ?t = "CHR '';'' # CHR '' '' # ?v" and ?u = "showcmd (LIST l r) 0 @ rest"
  assume n: "5 * length ?u + 5 \<le> n" and f: "follow '')'' rest"
  have u: "?u = showcmd l 1 @ ?t" by (simp add: paren_def)
  obtain m where m: "n = Suc m" "5 * length ?u + 4 \<le> m" "5 * length ?v + 5 \<le> m" using n unfolding u by (cases n) auto
  have sy: "CHR '';'' \<in> set shsymbols" by (simp add: shsymbols_def)
  have "follow '')&;'' ?t" by (rule follow_sym[OF _ sy]) simp
  then obtain p p0 s0 where p: "reads ?u p l" "parsepipe m ?u = Some (Inr (p0, s0))" "back_loop p0 s0 = back_loop p (skip ?t)"
    using l m(2) unfolding back_reads_def u by blast
  have sk: "skip ?t = ?t" using sy by (simp del: skip.simps)
  have bl: "back_loop p0 s0 = (p, ?t)" using back_loop_stop[of ?t p] p(3) sk by simp
  obtain p' where p': "reads ?v p' r" "parseline m ?v = Some (Inr (p', skip rest))"
    using r m(3) f unfolding line_reads_def by blast
  have "gettoken ?t = (CHR '';'', length ?t, length (tl ?t), skip (tl ?t))" using gettoken_tl[of ?t] sk by simp
  then have "parseline n ?u = Some (Inr (LIST p p', skip rest))"
    using p(2) p'(2) bl unfolding m(1) by (simp add: peek_def Let_def sk del: skip.simps) (simp add: parse_skip(3))
  moreover have "reads ?u (LIST p p') (LIST l r)"
    using p(1) reads_append[OF p'(1), of "showcmd l 1 @ ''; ''"] unfolding u by (auto simp: reads_def)
  ultimately show "\<exists>p. reads ?u p (LIST l r) \<and> parseline n ?u = Some (Inr (p, skip rest))" by blast
qed

lemma all_read:
  assumes "wf_cmd c"
  shows "exec_reads c \<and> pipe_reads c \<and> back_reads c \<and> line_reads c"
  using assms
proof (induction c)
  case (EXEC argv)
  then have e: "exec_reads (EXEC argv)" by (intro exec_reads_EXEC) (simp_all add: wf_cmd_def)
  then show ?case using pipe_of_exec[OF e] back_of_pipe[OF pipe_of_exec[OF e]] line_of_back[OF back_of_pipe[OF pipe_of_exec[OF e]]] by simp
next
  case (REDIR c f mode fd)
  then have e: "exec_reads (REDIR c f mode fd)" by (intro exec_reads_REDIR) (auto simp: wf_cmd_def)
  then show ?case using pipe_of_exec[OF e] back_of_pipe[OF pipe_of_exec[OF e]] line_of_back[OF back_of_pipe[OF pipe_of_exec[OF e]]] by simp
next
  case (PIPE l r)
  then have p: "pipe_reads (PIPE l r)" by (intro pipe_reads_PIPE) (auto simp: wf_cmd_def)
  have b: "back_reads (PIPE l r)" by (rule back_of_pipe[OF p]) (simp add: paren_def)
  have li: "line_reads (PIPE l r)" by (rule line_of_back[OF b]) (simp add: paren_def)
  then show ?case using p b li exec_of_line[OF li] by (simp add: paren_def)
next
  case (LIST l r)
  then have li: "line_reads (LIST l r)" by (intro line_reads_LIST) (auto simp: wf_cmd_def)
  have e: "exec_reads (LIST l r)" by (rule exec_of_line[OF li]) (simp_all add: paren_def)
  have p: "pipe_reads (LIST l r)" by (rule pipe_of_exec[OF e]) (simp add: paren_def)
  then show ?case using li e back_of_pipe[OF p] by (simp add: paren_def)
next
  case (BACK c)
  then have b: "back_reads (BACK c)" by (intro back_reads_BACK) (auto simp: wf_cmd_def)
  have li: "line_reads (BACK c)" by (rule line_of_back[OF b]) (simp add: paren_def)
  have e: "exec_reads (BACK c)" by (rule exec_of_line[OF li]) (simp_all add: paren_def)
  then show ?case using b li pipe_of_exec[OF e] by (simp add: paren_def)
qed

lemma showcmd_no_nul: "wf_cmd c \<Longrightarrow> CHR 0x00 \<notin> set (showcmd c n)"
proof (induction c arbitrary: n)
  case (EXEC argv)
  then show ?case by (auto simp: wf_cmd_def word_ok_def showwords_def)
qed (auto simp: wf_cmd_def word_ok_def paren_def showop_def)

lemma parse_showcmd:
  assumes "wf_cmd c"
  shows "\<exists>p buf. parsecmd (showcmd c 0) = Some (Inr (p, buf)) \<and> map_cmd (cword (length (showcmd c 0)) buf) p = c"
proof -
  let ?line = "showcmd c 0"
  let ?cw = "\<lambda>p. cword (length ?line) (nulterminate (length ?line) p (?line @ [CHR 0x00]))"
  have "follow '')'' []" by (simp add: follow_def)
  then obtain p where p: "reads ?line p c" "parseline (5 * length ?line + 5) ?line = Some (Inr (p, []))"
    using all_read[OF assms] unfolding line_reads_def by (metis append_Nil2 order_refl skip.simps(1))
  have "cmd_ok ?line p" using parse_ok(1)[OF p(2) suffix_order.refl] by simp
  then have "map_cmd (?cw p) p = map_cmd (tokat ?line) p"
    by (intro cmd.map_cong0 cword_nulterminate showcmd_no_nul[OF assms]) (simp_all add: cmd_ok_def)
  moreover have "parsecmd ?line = Some (Inr (p, nulterminate (length ?line) p (?line @ [CHR 0x00])))"
    using p(2) by (simp add: parsecmd_def peek_def)
  ultimately show ?thesis using p(1) by (auto simp: reads_def)
qed

section \<open>Properties\<close>

text \<open>
  (C30) The shell parses what it should: any command, printed with as few parentheses as precedence and associativity
  of \<open>;\<close>, \<open>&\<close>, \<open>|\<close> and the redirections allow, is read back by \<open>parsecmd\<close> as that command, and the arguments and
  file names that \<open>exec\<close> and \<open>open\<close> find in the line buffer after \<open>nulterminate\<close> are its words.
\<close>

theorem parse_show:
  assumes "wf_cmd c"
  shows "\<exists>p buf. parsecmd (showcmd c 0) = Some (Inr (p, buf)) \<and> map_cmd (cword (length (showcmd c 0)) buf) p = c"
  by (rule parse_showcmd[OF assms])

theorem parse_show_witness:
  "let c = LIST (BACK (PIPE (EXEC [''cat'', ''f'']) (REDIR (EXEC [''wc'']) ''out'' 0x601 1))) (EXEC [''ls'']) in
   showcmd c 0 = ''cat f | wc > out & ; ls '' \<and>
   (\<exists>p buf. parsecmd (showcmd c 0) = Some (Inr (p, buf)) \<and> map_cmd (cword (length (showcmd c 0)) buf) p = c)"
proof -
  let ?c = "LIST (BACK (PIPE (EXEC [''cat'', ''f'']) (REDIR (EXEC [''wc'']) ''out'' 0x601 1))) (EXEC [''ls''])"
  have "wf_cmd ?c" by (simp add: wf_cmd_def word_ok_def wordchar_def whitespace_def shsymbols_def)
  moreover have "showcmd ?c 0 = ''cat f | wc > out & ; ls ''" by (simp add: paren_def showop_def showwords_def)
  ultimately show ?thesis using parse_show[of ?c] unfolding Let_def by blast
qed

text \<open>
  (C31) For every input line the parser returns, with a command or by reporting an error, and if it returns a command
  its argument vectors stay within \<open>MAXARGS\<close> with room for the null that ends them, and each word it points to is
  a whole, non-empty word of the line, ended by a nul in the buffer.
\<close>

theorem parsecmd_total:
  "(\<exists>r. parsecmd line = Some r) \<and>
   (\<forall>p buf. parsecmd line = Some (Inr (p, buf)) \<and> CHR 0x00 \<notin> set line \<longrightarrow>
      args_ok p \<and> (\<forall>x \<in> words p. word_at line x \<and> cword (length line) buf x = tokat line x))"
proof -
  obtain r where r: "parseline (5 * length line + 5) line = Some r"
    using parse_enough(1)[of line "5 * length line + 5"] by (auto simp: returns_def)
  have "\<exists>r. parsecmd line = Some r" using r by (cases r) (auto simp: parsecmd_def)
  moreover have "args_ok p \<and> (\<forall>x \<in> words p. word_at line x \<and> cword (length line) buf x = tokat line x)"
    if p: "parsecmd line = Some (Inr (p, buf))" and nul: "CHR 0x00 \<notin> set line" for p buf
  proof -
    obtain s where s: "parseline (5 * length line + 5) line = Some (Inr (p, s))" "buf = nulterminate (length line) p (line @ [CHR 0x00])"
      using p by (auto simp: parsecmd_def bindP_Inr split: if_splits)
    have "cmd_ok line p" using parse_ok(1)[OF s(1) suffix_order.refl] by simp
    then show ?thesis using cword_nulterminate[of p line] nul s(2) by (auto simp: cmd_ok_def)
  qed
  ultimately show ?thesis by blast
qed

theorem parsecmd_total_witness:
  "CHR 0x00 \<notin> set ''ls '' \<and> (\<exists>p buf. parsecmd ''ls '' = Some (Inr (p, buf)) \<and> args_ok p)"
proof -
  obtain p buf where p: "parsecmd ''ls '' = Some (Inr (p, buf))"
  proof -
    have "case parsecmd ''ls '' of Some (Inr _) \<Rightarrow> True | _ \<Rightarrow> False" by code_simp
    then show thesis using that by (auto split: option.splits sum.splits)
  qed
  have n: "CHR 0x00 \<notin> set ''ls ''" by simp
  have "args_ok p" using parsecmd_total[of "''ls ''"] p n by blast
  then show ?thesis using p n by blast
qed

end
