(* ===== verification/Xv6_Shrun.thy ===== *)
theory Xv6_Shrun
  imports Xv6_Sh
begin

text \<open>
  The rest of \<^verbatim>\<open>user/sh.c\<close>: running a parsed command.  A user program is the tree of the system calls it makes, each
  with what it does next for every result; \<open>fork\<close> continues with 0 in the child.  \<open>exec\<close> continues only when it
  fails, and \<open>Running\<close> stands for a loop that has not ended within its fuel.  A sequence of lines stands for what successive calls of \<open>gets\<close> read.
\<close>

section \<open>User programs\<close>

datatype uprog =
    Exit int
  | Running
  | Fork "int \<Rightarrow> uprog"
  | Wait "int \<Rightarrow> uprog"
  | Pipe "int \<times> int \<times> int \<Rightarrow> uprog"
  | Close int "int \<Rightarrow> uprog"
  | Dup int "int \<Rightarrow> uprog"
  | Open string int "int \<Rightarrow> uprog"
  | Exec string "string list" "int \<Rightarrow> uprog"
  | Write int string "int \<Rightarrow> uprog"
  | Chdir string "int \<Rightarrow> uprog"

text \<open>\<open>fprintf\<close> writes one character at a time.\<close>

primrec fputs :: "int \<Rightarrow> string \<Rightarrow> uprog \<Rightarrow> uprog" where
  "fputs fd [] k = k"
| "fputs fd (c # s) k = Write fd [c] (\<lambda>_. fputs fd s k)"

section \<open>Running commands\<close>

definition panic_sh :: "string \<Rightarrow> uprog" where
  "panic_sh s = fputs 2 (s @ [CHR 0x0A]) (Exit 1)"

definition fork1 :: "(int \<Rightarrow> uprog) \<Rightarrow> uprog" where
  "fork1 k = Fork (\<lambda>pid. if pid = - 1 then panic_sh ''fork'' else k pid)"

text \<open>What follows \<open>pipe(p)\<close>: the two children run \<open>left\<close> and \<open>right\<close>.\<close>

definition runpipe :: "uprog \<Rightarrow> uprog \<Rightarrow> int \<times> int \<times> int \<Rightarrow> uprog" where
  "runpipe left right = (\<lambda>(e, p0, p1).
     if e < 0 then panic_sh ''pipe''
     else fork1 (\<lambda>pid. if pid = 0 then Close 1 (\<lambda>_. Dup p1 (\<lambda>_. Close p0 (\<lambda>_. Close p1 (\<lambda>_. left))))
       else fork1 (\<lambda>pid. if pid = 0 then Close 0 (\<lambda>_. Dup p0 (\<lambda>_. Close p0 (\<lambda>_. Close p1 (\<lambda>_. right))))
         else Close p0 (\<lambda>_. Close p1 (\<lambda>_. Wait (\<lambda>_. Wait (\<lambda>_. Exit 0)))))))"

primrec runcmd :: "string cmd \<Rightarrow> uprog" where
  "runcmd (EXEC argv) =
     (if argv = [] then Exit 1
      else Exec (hd argv) argv (\<lambda>_. fputs 2 (''exec '' @ hd argv @ '' failed'' @ [CHR 0x0A]) (Exit 0)))"
| "runcmd (REDIR c f mode fd) =
     Close fd (\<lambda>_. Open f mode (\<lambda>r.
       if r < 0 then fputs 2 (''open '' @ f @ '' failed'' @ [CHR 0x0A]) (Exit 1) else runcmd c))"
| "runcmd (LIST l r) = fork1 (\<lambda>pid. if pid = 0 then runcmd l else Wait (\<lambda>_. runcmd r))"
| "runcmd (PIPE l r) = Pipe (runpipe (runcmd l) (runcmd r))"
| "runcmd (BACK c) = fork1 (\<lambda>pid. if pid = 0 then runcmd c else Exit 0)"

definition run_line :: "string \<Rightarrow> uprog" where
  "run_line line = (case parsecmd line of
     Some (Inr (p, buf)) \<Rightarrow> runcmd (map_cmd (cword (length line) buf) p)
   | Some (Inl e) \<Rightarrow> panic_sh e
   | None \<Rightarrow> Exit 1)"

fun sh_loop :: "string list \<Rightarrow> uprog" where
  "sh_loop [] = Write 2 ''$ '' (\<lambda>_. Exit 0)"
| "sh_loop (buf # input) = Write 2 ''$ '' (\<lambda>_.
     if buf = [] then Exit 0
     else if take 3 buf = ''cd '' then
       Chdir (drop 3 (butlast buf)) (\<lambda>r.
         if r < 0 then fputs 2 (''cannot cd '' @ drop 3 (butlast buf) @ [CHR 0x0A]) (sh_loop input) else sh_loop input)
     else fork1 (\<lambda>pid. if pid = 0 then run_line buf else Wait (\<lambda>_. sh_loop input)))"

text \<open>
  The loop that opens the console until the first three descriptors are taken.  Four rounds are enough when \<open>open\<close>
  returns the lowest free descriptor (\<open>sh_open_enough\<close> below).
\<close>

fun sh_open :: "nat \<Rightarrow> uprog \<Rightarrow> uprog" where
  "sh_open 0 k = Running"
| "sh_open (Suc n) k = Open ''console'' 0x002 (\<lambda>fd. if fd \<ge> 3 then Close fd (\<lambda>_. k) else if fd \<ge> 0 then sh_open n k else k)"

definition sh_main :: "string list \<Rightarrow> uprog" where
  "sh_main input = sh_open 4 (sh_loop input)"

section \<open>File descriptors\<close>

text \<open>
  The kernel's part, as \<open>fdalloc\<close>, \<open>sys_close\<close>, \<open>sys_dup\<close>, \<open>sys_open\<close> and \<open>sys_pipe\<close> of \<^verbatim>\<open>kernel/sysfile.c\<close> do it: a descriptor table
  of \<open>NOFILE\<close> entries, of which a new descriptor takes the first free one.  \<open>fdstep\<close> is one successful system call of
  a process, with the table before and after it.
\<close>

datatype openfile = File string int | ReadEnd nat | WriteEnd nat | Inherited nat

type_synonym fdtable = "nat \<Rightarrow> openfile option"

definition first_free :: "fdtable \<Rightarrow> nat \<Rightarrow> bool" where
  "first_free fds n \<longleftrightarrow> n < NOFILE \<and> fds n = None \<and> (\<forall>m < n. fds m \<noteq> None)"

inductive fdstep :: "fdtable \<times> uprog \<Rightarrow> fdtable \<times> uprog \<Rightarrow> bool" where
  fd_close: "fds n \<noteq> None \<Longrightarrow> fdstep (fds, Close (int n) k) (fds(n := None), k 0)"
| fd_dup: "fds n = Some f \<Longrightarrow> first_free fds m \<Longrightarrow> fdstep (fds, Dup (int n) k) (fds(m \<mapsto> f), k (int m))"
| fd_open: "first_free fds m \<Longrightarrow> fdstep (fds, Open path mode k) (fds(m \<mapsto> File path mode), k (int m))"
| fd_pipe: "first_free fds m0 \<Longrightarrow> first_free (fds(m0 \<mapsto> ReadEnd i)) m1 \<Longrightarrow>
    fdstep (fds, Pipe k) (fds(m0 \<mapsto> ReadEnd i, m1 \<mapsto> WriteEnd i), k (0, int m0, int m1))"
| fd_child: "fdstep (fds, Fork k) (fds, k 0)"
| fd_parent: "0 < pid \<Longrightarrow> fdstep (fds, Fork k) (fds, k pid)"
| fd_wait: "fdstep (fds, Wait k) (fds, k r)"

inductive fdsteps :: "fdtable \<times> uprog \<Rightarrow> fdtable \<times> uprog \<Rightarrow> bool" where
  fds_refl: "fdsteps x x"
| fds_step: "fdstep x y \<Longrightarrow> fdsteps y z \<Longrightarrow> fdsteps x z"

lemmas fd_rules = fdsteps.intros fdstep.intros

lemma fdsteps_trans: "fdsteps x y \<Longrightarrow> fdsteps y z \<Longrightarrow> fdsteps x z"
  by (induction rule: fdsteps.induct) (auto intro: fds_step)

lemma first_free_fun_upd:
  assumes "first_free fds m0" and "first_free (fds(m0 \<mapsto> f)) m1"
  shows "m0 < m1 \<and> fds m0 = None \<and> fds m1 = None"
proof -
  have "m0 \<noteq> m1" using assms(2) by (auto simp: first_free_def)
  moreover have "\<not> m1 < m0" using assms by (auto simp: first_free_def)
  ultimately show ?thesis using assms by (auto simp: first_free_def)
qed

text \<open>\<open>close(n); dup(e)\<close>, and the closing of both ends of the pipe, which leaves the end \<open>e\<close> as descriptor \<open>n\<close> only.\<close>

lemma replace_fd:
  assumes free: "fds p0 = None" "fds p1 = None" and lt: "n < p0" "p0 < p1" and low: "\<forall>m \<le> n. fds m \<noteq> None"
    and e: "(fds(p0 \<mapsto> f0, p1 \<mapsto> f1)) e = Some f" "e \<noteq> n" and NOFILE: "p1 < NOFILE"
  shows "fdsteps (fds(p0 \<mapsto> f0, p1 \<mapsto> f1), Close (int n) (\<lambda>_. Dup (int e) (\<lambda>_. Close (int p0) (\<lambda>_. Close (int p1) (\<lambda>_. k))))) (fds(n \<mapsto> f), k)"
proof -
  let ?t0 = "fds(p0 \<mapsto> f0, p1 \<mapsto> f1)"
  let ?t1 = "?t0(n := None)"
  let ?t2 = "?t1(n \<mapsto> f)"
  have "first_free ?t1 n" using lt low NOFILE by (auto simp: first_free_def)
  then have d: "fdstep (?t1, Dup (int e) k') (?t2, k' (int n))" for k' using e by (intro fd_dup) simp_all
  have c: "fdstep (?t0, Close (int n) k') (?t1, k' 0)" for k' by (rule fd_close) (use lt low in auto)
  have c0: "fdstep (?t2, Close (int p0) k') (?t2(p0 := None), k' 0)" for k' by (rule fd_close) (use lt in auto)
  have c1: "fdstep (?t2(p0 := None), Close (int p1) k') (?t2(p0 := None, p1 := None), k' 0)" for k' by (rule fd_close) (use lt in auto)
  have "?t2(p0 := None, p1 := None) = fds(n \<mapsto> f)" using free lt by (auto simp: fun_eq_iff)
  then show ?thesis using fds_step[OF c fds_step[OF d fds_step[OF c0 fds_step[OF c1 fds_refl]]]] by simp
qed

lemma close_both:
  assumes "fds p0 = None" "fds p1 = None" "p0 < p1"
  shows "fdsteps (fds(p0 \<mapsto> f0, p1 \<mapsto> f1), Close (int p0) (\<lambda>_. Close (int p1) (\<lambda>_. k))) (fds, k)"
proof -
  let ?t0 = "fds(p0 \<mapsto> f0, p1 \<mapsto> f1)"
  have c0: "fdstep (?t0, Close (int p0) k') (?t0(p0 := None), k' 0)" for k' by (rule fd_close) (use assms in auto)
  have c1: "fdstep (?t0(p0 := None), Close (int p1) k') (?t0(p0 := None, p1 := None), k' 0)" for k' by (rule fd_close) (use assms in auto)
  have "?t0(p0 := None, p1 := None) = fds" using assms by (auto simp: fun_eq_iff)
  then show ?thesis using fds_step[OF c0 fds_step[OF c1 fds_refl]] by simp
qed

lemma run_line_show:
  assumes "wf_cmd c"
  shows "run_line (showcmd c 0) = runcmd c"
  using parse_showcmd[OF assms] by (auto simp: run_line_def)

section \<open>Properties\<close>

text \<open>
  (C32) A command line runs with the right files.  The line of \<open>l | r\<close>, parsed and run by the shell, starts \<open>l\<close> with the
  descriptors of the shell except that descriptor 1 is the write end of the pipe, \<open>r\<close> with those of the shell except
  that descriptor 0 is its read end, and waits for both with its own descriptors unchanged; no further copy of an
  end of the pipe stays open in any of the three, so that \<open>r\<close> sees the end of file.
\<close>

theorem sh_pipe_wiring:
  assumes "wf_cmd (PIPE l r)" and "fds 0 \<noteq> None" and "fds 1 \<noteq> None"
    and p0: "first_free fds p0" and p1: "first_free (fds(p0 \<mapsto> ReadEnd i)) p1"
  shows "fdsteps (fds, run_line (showcmd (PIPE l r) 0)) (fds(1 \<mapsto> WriteEnd i), runcmd l) \<and>
    fdsteps (fds, run_line (showcmd (PIPE l r) 0)) (fds(0 \<mapsto> ReadEnd i), runcmd r) \<and>
    fdsteps (fds, run_line (showcmd (PIPE l r) 0)) (fds, Wait (\<lambda>_. Wait (\<lambda>_. Exit 0)))"
proof -
  let ?t = "fds(p0 \<mapsto> ReadEnd i, p1 \<mapsto> WriteEnd i)"
  have m: "p0 < p1" "fds p0 = None" "fds p1 = None" using first_free_fun_upd[OF p0 p1] by simp_all
  have lo: "1 < p0" using p0 assms(2,3) by (auto simp: first_free_def not_less_eq less_Suc_eq intro!: Suc_lessI gr0I)
  have le: "p1 < NOFILE" using p1 by (simp add: first_free_def)
  have low: "\<forall>m \<le> 1. fds m \<noteq> None" using assms(2,3) by (auto simp: le_Suc_eq)
  let ?l = "Close 1 (\<lambda>_. Dup (int p1) (\<lambda>_. Close (int p0) (\<lambda>_. Close (int p1) (\<lambda>_. runcmd l))))"
  let ?r = "Close 0 (\<lambda>_. Dup (int p0) (\<lambda>_. Close (int p0) (\<lambda>_. Close (int p1) (\<lambda>_. runcmd r))))"
  let ?w = "Close (int p0) (\<lambda>_. Close (int p1) (\<lambda>_. Wait (\<lambda>_. Wait (\<lambda>_. Exit 0))))"
  let ?f2 = "fork1 (\<lambda>pid. if pid = 0 then ?r else ?w)"
  have e: "run_line (showcmd (PIPE l r) 0) = runcmd (PIPE l r)" by (rule run_line_show[OF assms(1)])
  have s0: "fdstep (fds, runcmd (PIPE l r)) (?t, fork1 (\<lambda>pid. if pid = 0 then ?l else ?f2))"
    using fd_pipe[OF p0 p1, of "runpipe (runcmd l) (runcmd r)"] by (simp add: runpipe_def)
  have fork: "fdstep (?t, fork1 k) (?t, k 0)" "fdstep (?t, fork1 k) (?t, k 1)" for k
    using fd_child[of ?t "\<lambda>pid. if pid = - 1 then panic_sh ''fork'' else k pid"]
      fd_parent[of 1 ?t "\<lambda>pid. if pid = - 1 then panic_sh ''fork'' else k pid"] by (simp_all add: fork1_def)
  have L: "fdsteps (fds, runcmd (PIPE l r)) (?t, ?l)"
    using fds_step[OF s0 fds_step[OF fork(1) fds_refl]] by simp
  have F2: "fdsteps (fds, runcmd (PIPE l r)) (?t, ?f2)"
    using fds_step[OF s0 fds_step[OF fork(2) fds_refl]] by simp
  have R: "fdsteps (?t, ?f2) (?t, ?r)" "fdsteps (?t, ?f2) (?t, ?w)"
    using fds_step[OF fork(1)[of "\<lambda>pid. if pid = 0 then ?r else ?w"] fds_refl]
      fds_step[OF fork(2)[of "\<lambda>pid. if pid = 0 then ?r else ?w"] fds_refl] by simp_all
  have "fdsteps (?t, ?l) (fds(1 \<mapsto> WriteEnd i), runcmd l)"
    using replace_fd[OF m(2,3) _ m(1) low, of "ReadEnd i" "WriteEnd i" p1 "WriteEnd i" "runcmd l"] lo m(1) le by simp
  moreover have "fdsteps (?t, ?r) (fds(0 \<mapsto> ReadEnd i), runcmd r)"
    using replace_fd[OF m(2,3) _ m(1), of 0 "ReadEnd i" "WriteEnd i" p0 "ReadEnd i" "runcmd r"] lo m(1) le assms(2) by simp
  moreover have "fdsteps (?t, ?w) (fds, Wait (\<lambda>_. Wait (\<lambda>_. Exit 0)))" by (rule close_both[OF m(2,3,1)])
  ultimately show ?thesis unfolding e using fdsteps_trans[OF L] fdsteps_trans[OF F2 fdsteps_trans[OF R(1)]] fdsteps_trans[OF F2 fdsteps_trans[OF R(2)]]
    by blast
qed

theorem sh_pipe_wiring_witness:
  "let fds = (\<lambda>n. if n < 3 then Some (Inherited n) else None); c = PIPE (EXEC [''ls'']) (EXEC [''wc'']) in
   fdsteps (fds, run_line (showcmd c 0)) (fds(1 \<mapsto> WriteEnd 7), runcmd (EXEC [''ls''])) \<and>
   fdsteps (fds, run_line (showcmd c 0)) (fds(0 \<mapsto> ReadEnd 7), runcmd (EXEC [''wc'']))"
proof -
  let ?fds = "\<lambda>n. if n < 3 then Some (Inherited n) else None"
  have "wf_cmd (PIPE (EXEC [''ls'']) (EXEC [''wc'']))" by (simp add: wf_cmd_def word_ok_def wordchar_def whitespace_def shsymbols_def)
  moreover have "first_free ?fds 3" "first_free (?fds(3 \<mapsto> ReadEnd 7)) 4" by (auto simp: first_free_def)
  ultimately show ?thesis using sh_pipe_wiring[of "EXEC [''ls'']" "EXEC [''wc'']" ?fds 3 7 4] unfolding Let_def by simp
qed

text \<open>A redirection gives the command the file as the descriptor it names, when those below it are open.\<close>

lemma sh_redirect:
  assumes "\<forall>m \<le> fd. fds m \<noteq> None" and "fd < NOFILE"
  shows "fdsteps (fds, runcmd (REDIR c f mode (int fd))) (fds(fd \<mapsto> File f mode), runcmd c)"
proof -
  have c: "fdstep (fds, Close (int fd) k) (fds(fd := None), k 0)" for k by (rule fd_close) (use assms in auto)
  have "first_free (fds(fd := None)) fd" using assms by (auto simp: first_free_def)
  then have o: "fdstep (fds(fd := None), Open f mode k) (fds(fd := None, fd \<mapsto> File f mode), k (int fd))" for k by (rule fd_open)
  show ?thesis
    using fds_step[OF c fds_step[OF o fds_refl],
      of "\<lambda>_ r. if r < 0 then fputs 2 (''open '' @ f @ '' failed'' @ [CHR 0x0A]) (Exit 1) else runcmd c"] by simp
qed


text \<open>
  The loop at the start of \<open>main\<close> ends within the four rounds of \<open>sh_main\<close>, having opened the descriptors among the first three
  that were free and no other.
\<close>

lemma sh_open_rounds:
  assumes "card {m. m < 3 \<and> fds m = None} < n" and "free < NOFILE" "fds free = None" "3 \<le> free"
  shows "\<exists>fds'. fdsteps (fds, sh_open n k) (fds', k) \<and> (\<forall>m < 3. fds' m \<noteq> None) \<and>
     (\<forall>m. m \<ge> 3 \<or> fds m \<noteq> None \<longrightarrow> fds' m = fds m)"
  using assms
proof (induction n arbitrary: fds)
  case (Suc n)
  define m where "m = (LEAST m. fds m = None)"
  have m: "fds m = None" "m \<le> free" "\<And>j. j < m \<Longrightarrow> fds j \<noteq> None"
    unfolding m_def by (rule LeastI[of _ free], fact, rule Least_le, fact, drule not_less_Least, simp)
  let ?k = "\<lambda>fd. if fd \<ge> 3 then Close fd (\<lambda>_. k) else if fd \<ge> 0 then sh_open n k else k"
  have "first_free fds m" using m Suc.prems(2) by (auto simp: first_free_def)
  then have o: "fdstep (fds, sh_open (Suc n) k) (fds(m \<mapsto> File ''console'' 0x002), ?k (int m))" unfolding sh_open.simps by (rule fd_open)
  show ?case
  proof (cases "m < 3")
    case True
    let ?f = "fds(m \<mapsto> File ''console'' 0x002)"
    have "{j. j < 3 \<and> ?f j = None} \<subset> {j. j < 3 \<and> fds j = None}" using True m(1) by auto
    then have "card {j. j < 3 \<and> ?f j = None} < card {j. j < 3 \<and> fds j = None}" by (intro psubset_card_mono) simp_all
    then have "card {j. j < 3 \<and> ?f j = None} < n" using Suc.prems(1) by simp
    moreover have "?f free = None" using True Suc.prems(3,4) by simp
    ultimately obtain f' where f': "fdsteps (?f, sh_open n k) (f', k)" "\<forall>m < 3. f' m \<noteq> None"
      "\<forall>j. j \<ge> 3 \<or> ?f j \<noteq> None \<longrightarrow> f' j = ?f j" using Suc.IH[OF _ Suc.prems(2) _ Suc.prems(4)] by blast
    have "f' j = fds j" if "j \<ge> 3 \<or> fds j \<noteq> None" for j using f'(3) that True m(1) by (cases "j = m") auto
    then show ?thesis using fds_step[OF o] f'(1,2) True by (intro exI[of _ f']) simp
  next
    case False
    have c: "fdstep (fds(m \<mapsto> File ''console'' 0x002), Close (int m) (\<lambda>_. k)) (fds(m \<mapsto> File ''console'' 0x002, m := None), k)"
      using fd_close[of "fds(m \<mapsto> File ''console'' 0x002)" m "\<lambda>_. k"] by simp
    have "fds(m \<mapsto> File ''console'' 0x002, m := None) = fds" using m(1) by (simp add: fun_upd_idem)
    then have "fdsteps (fds, sh_open (Suc n) k) (fds, k)" using fds_step[OF o fds_step[OF _ fds_refl]] c False by simp
    then show ?thesis using m(3) False by (intro exI[of _ fds]) auto
  qed
qed simp

lemma sh_open_enough:
  assumes "free < NOFILE" "fds free = None" "3 \<le> free"
  shows "\<exists>fds'. fdsteps (fds, sh_main input) (fds', sh_loop input) \<and> (\<forall>m < 3. fds' m \<noteq> None)"
proof -
  have "card {m. m < 3 \<and> fds m = None} \<le> card {..<3 :: nat}" by (intro card_mono) auto
  then have "card {m. m < 3 \<and> fds m = None} < 4" by simp
  from sh_open_rounds[OF this assms] show ?thesis unfolding sh_main_def by blast
qed

end
