(* ===== verification/Spec2Isabelle.thy ===== *)
theory Spec2Isabelle
  imports Xv6_Trap Xv6_Spinlock Xv6_Asm Xv6_Submit Xv6_Fsops Xv6_Grep Xv6_Shrun
begin

text \<open>
  A verification development for the xv6 kernel on RISC-V, its shell and \<^verbatim>\<open>grep\<close>.

  \<^bold>\<open>The program.\<close>  The kernel boots in \<^verbatim>\<open>kernel/entry.S\<close>, \<^verbatim>\<open>start.c\<close> and \<^verbatim>\<open>main.c\<close>, runs
  processes (\<^verbatim>\<open>proc.c\<close>, \<^verbatim>\<open>swtch.S\<close>) in address spaces (\<^verbatim>\<open>vm.c\<close>, \<^verbatim>\<open>kalloc.c\<close>), is entered by traps
  (\<^verbatim>\<open>trampoline.S\<close>, \<^verbatim>\<open>kernelvec.S\<close>, \<^verbatim>\<open>trap.c\<close>) and offers system calls (\<^verbatim>\<open>syscall.c\<close>, \<^verbatim>\<open>sysproc.c\<close>,
  \<^verbatim>\<open>sysfile.c\<close>) on files (\<^verbatim>\<open>file.c\<close>), which are pipes (\<^verbatim>\<open>pipe.c\<close>), devices (\<^verbatim>\<open>console.c\<close>, \<^verbatim>\<open>uart.c\<close>)
  or inodes (\<^verbatim>\<open>fs.c\<close>).  The file system changes the disk through a redo log (\<^verbatim>\<open>log.c\<close>) over a buffer
  cache (\<^verbatim>\<open>bio.c\<close>) over the disk driver (\<^verbatim>\<open>virtio_disk.c\<close>).  Locks are in \<^verbatim>\<open>spinlock.c\<close> and
  \<^verbatim>\<open>sleeplock.c\<close>.

  \<^bold>\<open>Form of the model.\<close>  \<open>Xv6_Prelude\<close> has the monad of kernel code: a function of the kernel is a
  function from a state to an outcome, which is \<open>Ret\<close> (a value and a state), \<open>Panic\<close> (a call of
  \<open>panic\<close>), \<open>Swtch\<close> (the process gives up the processor in \<open>sched\<close>; what runs when it is resumed is
  a definition of its own, such as \<open>piperead_loop\<close>) or \<open>Spin\<close> (the code does not come back, or the
  fuel of a loop is used up).  \<open>Xv6_Kstate\<close> has the state of the kernel as one record \<open>kstate\<close>: the
  tables of the source (\<open>procs\<close>, \<open>bufs\<close>, \<open>itable\<close>, \<open>ftable\<close>, \<open>pipes\<close>) as lists, a pointer into a
  table as an index, physical memory as a function from 64-bit addresses to bytes.  \<open>uint\<close>,
  \<open>uint64\<close>, \<open>ushort\<close> and \<open>uchar\<close> are words of their width, so that \<open>+\<close> wraps; a C \<open>int\<close> is an
  integer where the source keeps it in range; where it may not (\<open>printint\<close> of the smallest \<open>int\<close>, \<open>allocpid\<close> after
  the largest) the outcome is the panic \<open>undefined behaviour\<close>.  \<open>Xv6_Memory\<close> and \<open>Xv6_String\<close> have the bytes of words
  in memory and \<^verbatim>\<open>kernel/string.c\<close>.

  \<^bold>\<open>Theories, what they model and what is shown.\<close>

  \<^item> \<open>Xv6_Kalloc\<close> (\<^verbatim>\<open>kalloc.c\<close>): the free list is threaded through the bytes of the free pages.  In every
    history of calls the allocator never gives out a page twice, and it accounts for every page.

  \<^item> \<open>Xv6_Spinlock\<close> (\<^verbatim>\<open>spinlock.c\<close>): CPUs interleave at each access to a lock word, with interrupts
    arriving in between.  Mutual exclusion, interrupts off while a lock is held, and a refinement to
    the list of held locks that the other theories use (\<open>acquire\<close>, \<open>release\<close> in \<open>Xv6_Kstate\<close>).

  \<^item> \<open>Xv6_Sched\<close>, \<open>Xv6_Proc\<close> (\<^verbatim>\<open>proc.c\<close>), \<open>Xv6_Sleeplock\<close> (\<^verbatim>\<open>sleeplock.c\<close>): process table, fork, exit, wait,
    sleep, wakeup, kill and the scheduler.  The nesting of \<open>push_off\<close> and the flag \<open>intena\<close> that \<open>sched\<close> saves are in
    \<open>Xv6_Spinlock\<close>; here interrupts are off exactly if a lock is held or \<open>sstatus\<close> says so.

  \<^item> \<open>Xv6_Virtio\<close>, \<open>Xv6_Diskops\<close>, \<open>Xv6_Submit\<close> (\<^verbatim>\<open>virtio_disk.c\<close>): the driver with its descriptor table and rings, run
    beside a device that serves requests in any order, interrupts, and other kernel code.  The
    driver keeps its invariant and never panics, refines a disk whose requests are indivisible, and
    every request finishes.  This is the interface \<open>virtio_disk_rw\<close> that \<open>Xv6_Bio\<close> uses.  Code that runs
    under \<open>vdisk_lock\<close> is one step there; \<open>Xv6_Submit\<close> takes the posting of a request apart into its single
    stores and shows that a device running between them sees nothing of the request before \<open>avail->idx\<close>.

  \<^item> \<open>Xv6_Bio\<close>, \<open>Xv6_Blocks\<close> (\<^verbatim>\<open>bio.c\<close>): the list of buffers by its pointers.  \<open>bread\<close> returns the current
    contents of a block and recycles the least recently used buffer.  The locale \<open>block_cache\<close> is the
    contract for clients; \<open>bc\<close> is its interpretation.

  \<^item> \<open>Xv6_Log\<close>, \<open>Xv6_Crash\<close> (\<^verbatim>\<open>log.c\<close>): transactions.  A crash at any disk write of \<open>end_op\<close>, followed by
    recovery, leaves all the blocks of the transaction or none.

  \<^item> \<open>Xv6_Fsops\<close> (\<^verbatim>\<open>fs.c\<close>, block allocator): within a transaction and on a disk laid out as \<^verbatim>\<open>mkfs.c\<close> does, \<open>balloc\<close> takes
    the least element of the set of free blocks and zeroes it, \<open>bfree\<close> puts a block back or panics on a free one,
    and nothing else changes.  A run of three processes that write as many blocks as \<open>begin_op\<close> promised them ends
    in the panic of \<open>log_write\<close>.  The lemmas \<open>fs_rd\<close>, \<open>fs_put\<close> and \<open>fs_rel\<close> carry the proofs for any held buffers.

  \<^item> \<open>Xv6_Fs\<close> (\<^verbatim>\<open>fs.c\<close>), \<open>Xv6_File\<close> (\<^verbatim>\<open>file.c\<close>), \<open>Xv6_Pipe\<close> (\<^verbatim>\<open>pipe.c\<close>), \<open>Xv6_Exec\<close> (\<^verbatim>\<open>exec.c\<close>),
    \<open>Xv6_Syscall\<close> (\<^verbatim>\<open>syscall.c\<close>, \<^verbatim>\<open>sysproc.c\<close>, \<^verbatim>\<open>sysfile.c\<close>), \<open>Xv6_Trap\<close> (\<^verbatim>\<open>trap.c\<close>, \<^verbatim>\<open>plic.c\<close>,
    \<^verbatim>\<open>main.c\<close>).  Inodes, directories, open files, \<open>exec\<close>, the system calls and traps are given as definitions that
    the theorems on the lower layers do not reach yet.  The pipe is a bounded queue by the interface \<open>ring_buffer\<close> of \<open>Xv6_Ring\<close>, which the
    UART and the rings of the disk also use.

  \<^item> \<open>Xv6_Vm\<close>, \<open>Xv6_Uaccess\<close> (\<^verbatim>\<open>vm.c\<close>): page tables as bytes in memory; copies between the kernel and user
    space move exactly the bytes of the mapped pages.

  \<^item> \<open>Xv6_Uart\<close>, \<open>Xv6_Console\<close>, \<open>Xv6_Printf\<close> (\<^verbatim>\<open>uart.c\<close>, \<^verbatim>\<open>console.c\<close>, \<^verbatim>\<open>printf.c\<close>): output order, line
    editing against a specification on lists of lines, and the digits of numbers.

  \<^item> \<open>Xv6_Asm\<close> (\<^verbatim>\<open>trampoline.S\<close>, \<^verbatim>\<open>kernelvec.S\<close>, \<^verbatim>\<open>swtch.S\<close>, \<^verbatim>\<open>entry.S\<close>, \<^verbatim>\<open>start.c\<close>): instruction lists on a
    small machine.  A trap restores every register of the user program, a switch every callee-saved
    register, a kernel interrupt all registers.

  \<^item> \<open>Xv6_Sh\<close>, \<open>Xv6_Shrun\<close> (\<^verbatim>\<open>user/sh.c\<close>): the parser inverts a printer of commands and ends on every line;
    commands run as trees of system calls, with the descriptors of pipes and redirections.

  \<^item> \<open>Xv6_Grep\<close> (\<^verbatim>\<open>user/grep.c\<close>): the matcher decides the language of the pattern, and the lines printed are
    the lines that match, however \<open>read\<close> cuts the input.

  \<^bold>\<open>Fuel.\<close>  Loops whose end depends on the state have fuel computed from their arguments, and
  running out is \<open>Spin\<close>, which no theorem takes for a result: the loops of \<open>readi\<close> and \<open>writei\<close> get
  one round per block and three more (the first block may be partial, and the last round sees the
  end), \<open>dirlookup\<close> one per entry and two more, \<open>namex\<close> one per character of the path.

  \<^bold>\<open>Code outside the sources.\<close>  The disk device, the memory-mapped registers of virtio, the hardware
  page walk and the C functions called from assembly are arguments of the definitions that use them;
  the hypotheses on them are definitions that say what the documentation of the device says.

  \<^bold>\<open>Not modelled.\<close>  \<^verbatim>\<open>ramdisk.c\<close> is not part of the build.  The test programs (\<^verbatim>\<open>usertests.c\<close>, \<^verbatim>\<open>grind.c\<close>,
  \<^verbatim>\<open>stressfs.c\<close>, \<^verbatim>\<open>forktest.c\<close>) and the small user programs are sequences of system calls with no state of
  their own.  The kernel theories other than \<open>Xv6_Spinlock\<close>, \<open>Xv6_Diskops\<close>, \<open>Xv6_Submit\<close> and \<open>Xv6_Asm\<close> run one process
  at a time between the points where it sleeps; interrupts come there as events.  Caches, weak memory
  and timing of the hardware are outside the model.
\<close>

end
